(* ===== verification/FT_Prelude.thy ===== *)
theory FT_Prelude
  imports Main "HOL-Library.Word" "HOL-Library.Monad_Syntax"
begin

text \<open>
  Shared vocabulary of the development: the machine integer types of the Rust sources, the
  slices of 8 bytes that the coverage code reads as 64-bit integers, byte-wise operations on
  buffers, and the lemma collections that the component theories extend.

  A Rust panic (a failed \<^verbatim>\<open>assert!\<close>, an out-of-range index, \<^verbatim>\<open>unwrap\<close> on \<^verbatim>\<open>None\<close>) is the value
  \<^term>\<open>None\<close>; a \<^verbatim>\<open>Result\<close> is a sum whose left summand is the error. \<^verbatim>\<open>usize\<close> values that count
  bytes or elements of an allocated object are natural numbers: no object is larger than the
  address space, so these never wrap.
\<close>

unbundle bit_operations_syntax

type_synonym u8 = "8 word"
type_synonym u16 = "16 word"
type_synonym u32 = "32 word"
type_synonym u64 = "64 word"

named_theorems ft_defs \<open>definitions of operations, unfolded in the component proofs\<close>
named_theorems ft_bits \<open>bit-level facts about words and bytes\<close>

section \<open>Assertions\<close>

definition require :: "bool \<Rightarrow> unit option" where
  "require b = (if b then Some () else None)"

lemma require_bind [simp]:
  "Option.bind (require b) f = (if b then f () else None)"
  by (simp add: require_def)

lemma require_eq_Some [simp]: "require b = Some u \<longleftrightarrow> b"
  by (simp add: require_def)

section \<open>Words and bytes\<close>

lemmas word_bit_simps [ft_bits] =
  bit_and_iff bit_or_iff bit_xor_iff bit_not_iff bit_push_bit_iff bit_drop_bit_eq
  bit_mask_iff bit_exp_iff

lemma u8_eqI: "(\<And>n. n < 8 \<Longrightarrow> bit (a :: u8) n = bit b n) \<Longrightarrow> a = b"
  by (rule bit_word_eqI) simp

lemma u8_nonzero_bit: "(w :: u8) \<noteq> 0 \<longleftrightarrow> (\<exists>n<8. bit w n)"
proof
  assume "w \<noteq> 0"
  then show "\<exists>n<8. bit w n"
    using u8_eqI [of w 0] by auto
qed auto

lemma u64_nonzero_bit: "(w :: u64) \<noteq> 0 \<longleftrightarrow> (\<exists>n<64. bit w n)"
proof
  assume "w \<noteq> 0"
  then show "\<exists>n<64. bit w n"
    using bit_word_eqI [of w 0] by auto
qed auto

lemma u8_ones_bit: "n < 8 \<Longrightarrow> bit (0xff :: u8) n"
proof -
  have "bit (mask 8 :: u8) n" if "n < 8" using that by (simp add: bit_mask_iff)
  moreover have "(mask 8 :: u8) = 0xff" by (simp add: mask_eq_exp_minus_1)
  ultimately show "n < 8 \<Longrightarrow> bit (0xff :: u8) n" by simp
qed

lemma bit_exp_u8 [ft_bits]: "i < 8 \<Longrightarrow> bit (2 ^ i :: u8) n \<longleftrightarrow> n = i"
  by (auto simp: bit_exp_iff)

lemma and_exp_zero_u8: "i < 8 \<Longrightarrow> (w AND 2 ^ i = (0 :: u8)) \<longleftrightarrow> \<not> bit w i"
proof
  assume i: "i < 8" and z: "w AND 2 ^ i = 0"
  show "\<not> bit w i"
  proof
    assume "bit w i"
    with i have "bit (w AND 2 ^ i) i" by (simp add: bit_and_iff bit_exp_u8)
    with z show False by simp
  qed
next
  assume i: "i < 8" and nb: "\<not> bit w i"
  show "w AND 2 ^ i = 0"
    by (rule u8_eqI) (use i nb in \<open>auto simp: bit_and_iff bit_exp_u8\<close>)
qed

section \<open>Chunks of eight bytes\<close>

text \<open>
  \<^verbatim>\<open>slice::as_chunks_unchecked::<8>\<close> splits a slice whose length is a multiple of 8 into
  arrays of 8 bytes.
\<close>

fun chunks8 :: "'a list \<Rightarrow> 'a list list" where
  "chunks8 xs = (if length xs < 8 then [] else take 8 xs # chunks8 (drop 8 xs))"

declare chunks8.simps [simp del]

lemma chunks8_Nil [simp]: "chunks8 [] = []"
  by (subst chunks8.simps) simp

lemma chunks8_append: "length a = 8 \<Longrightarrow> chunks8 (a @ xs) = a # chunks8 xs"
  by (subst chunks8.simps) simp

text \<open>Induction over the chunks of a slice of a multiple of eight bytes.\<close>

lemma chunks8_induct [consumes 1, case_names Nil Chunk]:
  assumes "8 dvd length xs"
    and nil: "P []"
    and step: "\<And>a xs. length a = 8 \<Longrightarrow> 8 dvd length xs \<Longrightarrow> P xs \<Longrightarrow> P (a @ xs)"
  shows "P xs"
  using assms(1)
proof (induction xs rule: chunks8.induct)
  case (1 xs)
  show ?case
  proof (cases "length xs < 8")
    case True
    with 1(2) have "xs = []" by (cases xs) (auto dest: dvd_imp_le)
    then show ?thesis by (simp add: nil)
  next
    case False
    have d: "8 dvd length (drop 8 xs)"
      using 1(2) False by (simp add: dvd_minus_self)
    have "P (take 8 xs @ drop 8 xs)"
      by (rule step) (use False d 1(1) in auto)
    then show ?thesis by simp
  qed
qed

lemma chunks8_induct2 [consumes 2, case_names Nil Chunk]:
  assumes "8 dvd length xs" "length ys = length xs"
    and nil: "P [] []"
    and step: "\<And>a b xs ys. length a = 8 \<Longrightarrow> length b = 8 \<Longrightarrow> 8 dvd length xs \<Longrightarrow>
      length ys = length xs \<Longrightarrow> P xs ys \<Longrightarrow> P (a @ xs) (b @ ys)"
  shows "P xs ys"
  using assms(1,2)
proof (induction xs arbitrary: ys rule: chunks8_induct)
  case Nil
  then show ?case by (simp add: nil)
next
  case (Chunk a xs)
  have "P (a @ xs) (take 8 ys @ drop 8 ys)"
    by (rule step) (use Chunk in auto)
  then show ?case by simp
qed

lemma concat_map_chunks8:
  assumes "8 dvd length xs" and "\<And>c. length c = 8 \<Longrightarrow> F c = map f c"
  shows "concat (map F (chunks8 xs)) = map f xs"
  using assms(1) by (induction xs rule: chunks8_induct) (simp_all add: chunks8_append assms(2))

lemma sum_list_chunks8:
  assumes "8 dvd length xs" and "\<And>c. length c = 8 \<Longrightarrow> F c = sum_list (map f c)"
  shows "sum_list (map F (chunks8 xs)) = sum_list (map f xs)"
  using assms(1) by (induction xs rule: chunks8_induct) (simp_all add: chunks8_append assms(2))

lemma length_chunks8: "8 dvd length xs \<Longrightarrow> 8 * length (chunks8 xs) = length xs"
  by (induction xs rule: chunks8_induct) (simp_all add: chunks8_append)

lemma concat_chunks8: "8 dvd length xs \<Longrightarrow> concat (chunks8 xs) = xs"
  by (induction xs rule: chunks8_induct) (simp_all add: chunks8_append)

lemma concat_map2_chunks8:
  assumes "8 dvd length xs" "length ys = length xs"
    and "\<And>a b. length a = 8 \<Longrightarrow> length b = 8 \<Longrightarrow> F a b = map2 f a b"
  shows "concat (map2 F (chunks8 xs) (chunks8 ys)) = map2 f xs ys"
  using assms(1,2)
  by (induction xs ys rule: chunks8_induct2) (simp_all add: chunks8_append assms(3))

text \<open>Counting over a range of positions, eight at a time.\<close>

lemma length_filter_upt8:
  "length (filter P [0..<8 * n]) =
     sum_list (map (\<lambda>j. length (filter (\<lambda>k. P (8 * j + k)) [0..<8])) [0..<n])"
proof (induction n)
  case (Suc n)
  have "[0..<8 * Suc n] = [0..<8 * n] @ map (\<lambda>k. 8 * n + k) [0..<8]"
    using upt_add_eq_append [of 0 "8 * n" 8]
    by (simp add: map_add_upt add.commute del: upt_Suc upt_rec_numeral)
  with Suc show ?case by (simp add: filter_map o_def del: upt_rec_numeral)
qed simp

lemma length_filter_nth: "length (filter P xs) = length (filter (\<lambda>i. P (xs ! i)) [0..<length xs])"
proof -
  have "filter P (map ((!) xs) [0..<length xs]) = map ((!) xs) (filter (\<lambda>i. P (xs ! i)) [0..<length xs])"
    by (simp add: filter_map o_def)
  then have "filter P xs = map ((!) xs) (filter (\<lambda>i. P (xs ! i)) [0..<length xs])"
    by (simp add: map_nth)
  then show ?thesis by simp
qed

text \<open>\<^verbatim>\<open>u64::from_le_bytes\<close> on an array of 8 bytes, and its inverse.\<close>

definition from_le_bytes :: "u8 list \<Rightarrow> u64" where
  "from_le_bytes bs = foldr (\<lambda>b acc. ucast b OR push_bit 8 acc) bs 0"

definition to_le_bytes :: "u64 \<Rightarrow> u8 list" where
  "to_le_bytes w = map (\<lambda>i. ucast (drop_bit (8 * i) w)) [0..<8]"

lemma length_to_le_bytes [simp]: "length (to_le_bytes w) = 8"
  by (simp add: to_le_bytes_def)

lemma bit_foldr_le:
  "n < 64 \<Longrightarrow> bit (foldr (\<lambda>b acc. ucast b OR push_bit 8 acc) bs (0 :: u64)) n \<longleftrightarrow>
     n div 8 < length bs \<and> bit (bs ! (n div 8) :: u8) (n mod 8)"
proof (induction bs arbitrary: n)
  case Nil
  then show ?case by simp
next
  case (Cons b bs)
  show ?case
  proof (cases "n < 8")
    case True
    with Cons.prems show ?thesis
      by (simp add: bit_or_iff bit_push_bit_iff bit_ucast_iff)
  next
    case False
    then have nb: "\<not> bit b n" by (auto dest: bit_imp_le_length)
    have d: "n div 8 = Suc ((n - 8) div 8)" "n mod 8 = (n - 8) mod 8"
      using False by (auto simp: le_div_geq le_mod_geq)
    show ?thesis
      using False Cons.prems Cons.IH [of "n - 8"] nb d
      by (simp add: bit_or_iff bit_push_bit_iff bit_ucast_iff)
  qed
qed

lemma bit_from_le_bytes [ft_bits]:
  assumes "length bs = 8" "n < 64"
  shows "bit (from_le_bytes bs) n \<longleftrightarrow> bit (bs ! (n div 8)) (n mod 8)"
  using assms bit_foldr_le [of n bs] by (simp add: from_le_bytes_def less_mult_imp_div_less)

lemma nth_to_le_bytes:
  "i < 8 \<Longrightarrow> to_le_bytes w ! i = ucast (drop_bit (8 * i) w)"
  by (simp add: to_le_bytes_def)

lemma bit_nth_to_le_bytes [ft_bits]:
  "i < 8 \<Longrightarrow> n < 8 \<Longrightarrow> bit (to_le_bytes w ! i) n \<longleftrightarrow> bit w (8 * i + n)"
  by (simp add: nth_to_le_bytes bit_ucast_iff bit_drop_bit_eq)

lemma to_from_le_bytes [simp]:
  assumes "length bs = 8"
  shows "to_le_bytes (from_le_bytes bs) = bs"
proof (rule nth_equalityI)
  fix i assume "i < length (to_le_bytes (from_le_bytes bs))"
  then have i: "i < 8" by simp
  show "to_le_bytes (from_le_bytes bs) ! i = bs ! i"
  proof (rule u8_eqI)
    fix n :: nat assume n: "n < 8"
    then show "bit (to_le_bytes (from_le_bytes bs) ! i) n = bit (bs ! i) n"
      using i assms by (simp add: bit_nth_to_le_bytes bit_from_le_bytes)
  qed
qed (simp add: assms)

lemma from_to_le_bytes [simp]: "from_le_bytes (to_le_bytes w) = w"
proof (rule bit_word_eqI)
  fix n assume "n < LENGTH(64)"
  then have n: "n < 64" by simp
  then show "bit (from_le_bytes (to_le_bytes w)) n = bit w n"
    by (simp add: bit_from_le_bytes bit_nth_to_le_bytes less_mult_imp_div_less)
qed

text \<open>A 64-bit operation that acts on each bit position alone acts on each byte alone.\<close>

lemma to_le_bytes_map2:
  assumes "length a = 8" "length b = 8"
    and f: "\<And>n. n < 64 \<Longrightarrow> bit (f (from_le_bytes a) (from_le_bytes b)) n \<longleftrightarrow>
               h (bit (from_le_bytes a) n) (bit (from_le_bytes b) n)"
    and g: "\<And>x y n. n < 8 \<Longrightarrow> bit (g x y) n \<longleftrightarrow> h (bit x n) (bit y n)"
  shows "to_le_bytes (f (from_le_bytes a) (from_le_bytes b)) = map2 g a b"
proof (rule nth_equalityI)
  fix i assume "i < length (to_le_bytes (f (from_le_bytes a) (from_le_bytes b)))"
  then have i: "i < 8" by simp
  show "to_le_bytes (f (from_le_bytes a) (from_le_bytes b)) ! i = map2 g a b ! i"
    by (rule u8_eqI) (use i assms(1,2) in \<open>simp add: bit_nth_to_le_bytes f g bit_from_le_bytes\<close>)
qed (simp add: assms)

lemma from_le_bytes_eq_0:
  assumes "length bs = 8"
  shows "from_le_bytes bs = 0 \<longleftrightarrow> (\<forall>b\<in>set bs. b = 0)"
proof
  assume z: "from_le_bytes bs = 0"
  show "\<forall>b\<in>set bs. b = 0"
  proof
    fix b assume "b \<in> set bs"
    then obtain i where i: "i < 8" "b = bs ! i" using assms by (auto simp: in_set_conv_nth)
    show "b = 0"
    proof (rule u8_eqI)
      fix n :: nat assume "n < 8"
      then show "bit b n = bit 0 n"
        using bit_from_le_bytes [OF assms, of "8 * i + n"] i z by simp
    qed
  qed
next
  assume "\<forall>b\<in>set bs. b = 0"
  then have nth: "i < 8 \<Longrightarrow> bs ! i = 0" for i using assms by simp
  show "from_le_bytes bs = 0"
  proof (rule bit_word_eqI)
    fix n assume "n < LENGTH(64)"
    then show "bit (from_le_bytes bs) n = bit 0 n"
      using bit_from_le_bytes [OF assms, of n] nth by (simp add: less_mult_imp_div_less)
  qed
qed

section \<open>Other integer widths\<close>

text \<open>A byte slice read as little-endian 16-bit integers, and their bytes.\<close>

fun as_u16s :: "u8 list \<Rightarrow> u16 list" where
  "as_u16s (lo # hi # bs) = (ucast lo OR push_bit 8 (ucast hi)) # as_u16s bs"
| "as_u16s _ = []"

definition u16_bytes :: "u16 \<Rightarrow> u8 list" where
  "u16_bytes s = [ucast s, ucast (drop_bit 8 s)]"

lemma u16_le_bytes:
  "ucast (ucast lo OR push_bit 8 (ucast hi) :: u16) = (lo :: u8)"
  "ucast (drop_bit 8 (ucast lo OR push_bit 8 (ucast hi) :: u16)) = (hi :: u8)"
  by (rule u8_eqI; auto simp: bit_ucast_iff word_bit_simps dest: bit_imp_le_length)+

lemma u16_bytes_be: "u16_bytes (push_bit 8 (ucast hi) OR ucast lo) = [lo, hi]"
  using u16_le_bytes [of lo hi] by (simp add: u16_bytes_def or.commute)

lemma as_u16s_u16_bytes [simp]: "as_u16s (concat (map u16_bytes ws)) = ws"
proof (induction ws)
  case (Cons w ws)
  have "ucast (ucast w :: u8) OR push_bit 8 (ucast (ucast (drop_bit 8 w) :: u8)) = (w :: u16)"
    by (rule bit_word_eqI) (auto simp: bit_or_iff bit_push_bit_iff bit_ucast_iff bit_drop_bit_eq)
  with Cons show ?case by (simp add: u16_bytes_def)
qed simp

lemma length_u16_bytes [simp]: "length (concat (map u16_bytes ws)) = 2 * length ws"
  by (induction ws) (simp_all add: u16_bytes_def)

text \<open>32-bit integers occupy four bytes.\<close>

definition le_bytes32 :: "u32 \<Rightarrow> u8 list" where
  "le_bytes32 w = take 4 (to_le_bytes (ucast w))"

definition from_le32 :: "u8 list \<Rightarrow> u32" where
  "from_le32 bs = ucast (from_le_bytes (take 4 bs @ replicate 4 0))"

lemma length_le_bytes32 [simp]: "length (le_bytes32 w) = 4"
  by (simp add: le_bytes32_def)

lemma from_le32_bytes [simp]: "from_le32 (le_bytes32 w @ bs) = w"
proof -
  have "take 4 (to_le_bytes (ucast w)) @ replicate 4 0 = to_le_bytes (ucast w :: u64)"
  proof (rule nth_equalityI)
    fix i assume "i < length (take 4 (to_le_bytes (ucast w)) @ replicate 4 (0 :: u8))"
    then have i: "i < 8" by simp
    show "(take 4 (to_le_bytes (ucast w)) @ replicate 4 0) ! i = to_le_bytes (ucast w :: u64) ! i"
    proof (cases "i < 4")
      case False
      have "bit (to_le_bytes (ucast w :: u64) ! i) n \<longleftrightarrow> False" if "n < 8" for n
        using that False i by (auto simp: bit_nth_to_le_bytes bit_ucast_iff dest: bit_imp_le_length)
      then have "to_le_bytes (ucast w :: u64) ! i = 0" using u8_nonzero_bit by blast
      then show ?thesis using False i by (simp add: nth_append)
    qed (simp add: nth_append)
  qed simp
  moreover have "ucast (ucast w :: u64) = w"
    by (rule bit_word_eqI) (simp add: bit_ucast_iff)
  ultimately show ?thesis by (simp add: from_le32_def le_bytes32_def)
qed

lemma le_bytes32_from [simp]:
  assumes "4 \<le> length bs"
  shows "le_bytes32 (from_le32 bs) = take 4 bs"
proof (rule nth_equalityI)
  let ?x = "take 4 bs @ replicate 4 (0 :: u8)"
  have l: "length ?x = 8" using assms by simp
  fix i assume "i < length (le_bytes32 (from_le32 bs))"
  then have i: "i < 4" by simp
  show "le_bytes32 (from_le32 bs) ! i = take 4 bs ! i"
  proof (rule u8_eqI)
    fix n :: nat assume n: "n < 8"
    have "bit (le_bytes32 (from_le32 bs) ! i) n \<longleftrightarrow> bit (from_le_bytes ?x) (8 * i + n)"
      using i n by (simp add: le_bytes32_def from_le32_def bit_nth_to_le_bytes bit_ucast_iff)
    also have "\<dots> \<longleftrightarrow> bit (?x ! i) n" using i n bit_from_le_bytes [OF l, of "8 * i + n"] by simp
    finally show "bit (le_bytes32 (from_le32 bs) ! i) n = bit (take 4 bs ! i) n"
      using i assms by (simp add: nth_append)
  qed
qed (use assms in simp)

section \<open>Checked arithmetic\<close>

text \<open>\<^verbatim>\<open>+\<close> and \<^verbatim>\<open>-\<close> on \<^verbatim>\<open>u64\<close> panic when the result does not fit (overflow checks are on).\<close>

definition checked_add :: "u64 \<Rightarrow> u64 \<Rightarrow> u64 option" where
  "checked_add a b = (if unat a + unat b < 2 ^ 64 then Some (a + b) else None)"

definition checked_sub :: "u64 \<Rightarrow> u64 \<Rightarrow> u64 option" where
  "checked_sub a b = (if b \<le> a then Some (a - b) else None)"

lemma checked_add_Some: "checked_add a b = Some c \<longleftrightarrow> unat c = unat a + unat b"
proof
  assume "unat c = unat a + unat b"
  moreover from this have "unat a + unat b < 2 ^ 64" using unsigned_less [of c, where 'a = nat] by simp
  ultimately show "checked_add a b = Some c"
    using unat_add_lem [of a b] word_unat_eq_iff [of "a + b" c] by (simp add: checked_add_def)
qed (use unat_add_lem [of a b] in \<open>auto simp: checked_add_def split: if_splits\<close>)

lemma checked_add_None: "checked_add a b = None \<longleftrightarrow> unat a + unat b \<ge> 2 ^ 64"
  by (simp add: checked_add_def)

lemma checked_sub_Some: "checked_sub a b = Some c \<longleftrightarrow> b \<le> a \<and> unat c = unat a - unat b"
  by (auto simp: checked_sub_def unat_sub word_unat_eq_iff)

lemma checked_add_0 [simp]: "checked_add 0 b = Some b" "checked_add a 0 = Some a"
  by (simp_all add: checked_add_Some)

lemma checked_sub_add: "checked_add a b = Some c \<Longrightarrow> checked_sub c b = Some a"
  by (simp add: checked_add_Some checked_sub_Some word_le_nat_alt)

text \<open>The size of a patch point in bytes (\<^verbatim>\<open>constants.rs\<close>), shared by the fuzzer and the agent.\<close>

definition PATCH_POINT_SIZE :: nat where
  "PATCH_POINT_SIZE = 32"

section \<open>Iterators with closures that may panic\<close>

fun filter_opt :: "('a \<Rightarrow> bool option) \<Rightarrow> 'a list \<Rightarrow> 'a list option" where
  "filter_opt f [] = Some []"
| "filter_opt f (x # xs) = do { b \<leftarrow> f x; ys \<leftarrow> filter_opt f xs; Some (if b then x # ys else ys) }"

lemma filter_opt_total: "(\<And>x. x \<in> set xs \<Longrightarrow> f x = Some (P x)) \<Longrightarrow> filter_opt f xs = Some (filter P xs)"
  by (induction xs) auto

text \<open>A \<^verbatim>\<open>for\<close> loop over \<open>xs\<close> that updates a state.\<close>

fun fold_opt :: "('a \<Rightarrow> 's \<Rightarrow> 's option) \<Rightarrow> 'a list \<Rightarrow> 's \<Rightarrow> 's option" where
  "fold_opt f [] s = Some s"
| "fold_opt f (x # xs) s = do { s \<leftarrow> f x s; fold_opt f xs s }"

lemma fold_opt_append: "fold_opt f (xs @ ys) s = do { s \<leftarrow> fold_opt f xs s; fold_opt f ys s }"
  by (induction xs arbitrary: s) (auto split: bind_split)

text \<open>The loop rule: an invariant over the elements that have been processed.\<close>

lemma fold_opt_rule:
  assumes "I [] s" and "\<And>ds x s. x \<in> set xs \<Longrightarrow> set ds \<subseteq> set xs \<Longrightarrow> I ds s \<Longrightarrow> \<exists>s'. f x s = Some s' \<and> I (ds @ [x]) s'"
  shows "\<exists>s'. fold_opt f xs s = Some s' \<and> I xs s'"
proof -
  have "\<exists>s'. fold_opt f ys s = Some s' \<and> I (ds @ ys) s'" if "I ds s" "set ds \<subseteq> set xs" "set ys \<subseteq> set xs" for ds ys s
    using that
  proof (induction ys arbitrary: ds s)
    case (Cons y ys)
    obtain s1 where s1: "f y s = Some s1" "I (ds @ [y]) s1"
      using assms(2) [of y ds s] Cons.prems by auto
    show ?case using Cons.IH [OF s1(2)] Cons.prems s1(1) by auto
  qed simp
  from this [of "[]" s xs] assms(1) show ?thesis by simp
qed

end
