(* ===== verification/Integer_Set.thy ===== *)
theory Integer_Set
  imports FT_Prelude
begin

text \<open>
  \<^verbatim>\<open>scheduler/src/finite_integer_set.rs\<close>: \<^verbatim>\<open>FiniteIntegerSet<U, N>\<close>, a set of the integers
  \<open>0..N\<close> kept as a bit vector. The queue keeps one per entry for the patch points whose
  discovery is pending and one for the queue entries already combined with. The interface is
  the locale \<open>bounded_set\<close>; the bit vector is its interpretation, with the elements that
  \<^verbatim>\<open>entries\<close> enumerates as the abstraction.
\<close>

section \<open>Data and operations\<close>

record fis =
  fis_data :: "u8 list"
  fis_max_val :: nat

definition fis_new :: "nat \<Rightarrow> fis" where
  "fis_new N = \<lparr>fis_data = replicate (N div 8 + 1) 0, fis_max_val = N\<rparr>"

text \<open>\<^verbatim>\<open>idx\<close> panics for an element above \<^verbatim>\<open>max_val\<close>.\<close>

definition fis_idx :: "fis \<Rightarrow> nat \<Rightarrow> (nat \<times> nat) option" where
  "fis_idx s elem = (if elem \<le> fis_max_val s then Some (elem div 8, elem mod 8) else None)"

definition fis_insert :: "nat \<Rightarrow> fis \<Rightarrow> (bool \<times> fis) option" where
  "fis_insert elem s =
     do {
       (byte, bt) \<leftarrow> fis_idx s elem;
       require (byte < length (fis_data s));
       let ret = (fis_data s ! byte) AND push_bit bt 1 = 0;
       Some (ret, s\<lparr>fis_data := (fis_data s)[byte := (fis_data s ! byte) OR push_bit bt 1]\<rparr>)
     }"

definition fis_remove :: "nat \<Rightarrow> fis \<Rightarrow> fis option" where
  "fis_remove elem s =
     do {
       (byte, bt) \<leftarrow> fis_idx s elem;
       require (byte < length (fis_data s));
       Some (s\<lparr>fis_data := (fis_data s)[byte := (fis_data s ! byte) AND NOT (push_bit bt 1)]\<rparr>)
     }"

text \<open>The binary operators zip the two byte vectors; a longer left operand keeps its tail.\<close>

definition fis_zip :: "(u8 \<Rightarrow> u8 \<Rightarrow> u8) \<Rightarrow> u8 list \<Rightarrow> u8 list \<Rightarrow> u8 list" where
  "fis_zip f a b = map2 f a b @ drop (length b) a"

definition fis_bitor :: "fis \<Rightarrow> fis \<Rightarrow> fis" where
  "fis_bitor s t = s\<lparr>fis_data := fis_zip (OR) (fis_data s) (fis_data t)\<rparr>"

definition fis_bitand :: "fis \<Rightarrow> fis \<Rightarrow> fis" where
  "fis_bitand s t = s\<lparr>fis_data := fis_zip (AND) (fis_data s) (fis_data t)\<rparr>"

definition fis_add :: "fis \<Rightarrow> fis \<Rightarrow> fis" where
  "fis_add s t = fis_bitor s t"

definition fis_sub :: "fis \<Rightarrow> fis \<Rightarrow> fis" where
  "fis_sub s t = s\<lparr>fis_data := fis_zip (\<lambda>a b. a AND NOT b) (fis_data s) (fis_data t)\<rparr>"

definition fis_sub_assign :: "fis \<Rightarrow> fis \<Rightarrow> fis" where
  "fis_sub_assign s t = s\<lparr>fis_data := fis_zip (\<lambda>a b. a AND NOT b) (fis_data s) (fis_data t)\<rparr>"

definition fis_symm_diff :: "fis \<Rightarrow> fis \<Rightarrow> fis" where
  "fis_symm_diff s t = (let in_both = fis_bitand s t in fis_sub (fis_bitor s t) in_both)"

definition fis_empty :: "fis \<Rightarrow> bool" where
  "fis_empty s = (\<not> (\<exists>e \<in> set (fis_data s). e > 0))"

definition byte_ones :: "u8 \<Rightarrow> nat" where
  "byte_ones b = fold (\<lambda>idx ret. if b AND push_bit idx 1 > 0 then ret + 1 else ret) [0..<8] 0"

definition fis_size :: "fis \<Rightarrow> nat" where
  "fis_size s =
     fold (\<lambda>b ret. fold (\<lambda>idx ret. if b AND push_bit idx 1 > 0 then ret + 1 else ret) [0..<8] ret)
       (fis_data s) 0"

text \<open>\<^verbatim>\<open>entries\<close> visits the bytes in order and the bits of each byte in order.\<close>

definition fis_entry_list :: "fis \<Rightarrow> nat list" where
  "fis_entry_list s =
     concat (map (\<lambda>(byte_idx, byte).
               map (\<lambda>bit_idx. byte_idx * 8 + bit_idx)
                 (filter (\<lambda>bit_idx. byte AND push_bit bit_idx 1 > 0) [0..<8]))
             (enumerate 0 (fis_data s)))"

definition fis_entries :: "fis \<Rightarrow> nat set" where
  "fis_entries s = set (fis_entry_list s)"

definition fis_contains :: "nat \<Rightarrow> fis \<Rightarrow> bool" where
  "fis_contains e s = (e \<in> fis_entries s)"

text \<open>\<^verbatim>\<open>from_iter\<close> inserts the elements one after another; an element above \<open>N\<close> panics.\<close>

fun insert_seq :: "(nat \<Rightarrow> 's \<Rightarrow> (bool \<times> 's) option) \<Rightarrow> nat list \<Rightarrow> 's \<Rightarrow> 's option" where
  "insert_seq ins [] m = Some m"
| "insert_seq ins (v # vs) m = do { (_, m') \<leftarrow> ins v m; insert_seq ins vs m' }"

definition fis_from_iter :: "nat \<Rightarrow> nat list \<Rightarrow> fis option" where
  "fis_from_iter N vs = insert_seq fis_insert vs (fis_new N)"

text \<open>
  \<^verbatim>\<open>choose_random\<close> and \<^verbatim>\<open>get_sub_set\<close> draw from the thread's random generator. The drawings
  (\<^verbatim>\<open>choose_multiple\<close> and \<^verbatim>\<open>shuffle\<close> of the \<^verbatim>\<open>rand\<close> crate) are the parameters \<open>pick\<close> and
  \<open>shuffle\<close>; the collected set has the same \<open>N\<close> as the set drawn from, which is its \<^verbatim>\<open>max_val\<close>.
\<close>

definition fis_choose_random ::
  "(nat set \<Rightarrow> nat \<Rightarrow> nat list) \<Rightarrow> (nat list \<Rightarrow> nat list) \<Rightarrow> nat \<Rightarrow> fis \<Rightarrow> fis option" where
  "fis_choose_random pick shuffle m s =
     fis_from_iter (fis_max_val s) (shuffle (pick (fis_entries s) m))"

definition fis_get_sub_set ::
  "(nat set \<Rightarrow> nat list) \<Rightarrow> (nat list \<Rightarrow> nat list) \<Rightarrow> nat \<Rightarrow> fis \<Rightarrow> fis option" where
  "fis_get_sub_set elems shuffle n s =
     fis_from_iter (fis_max_val s) (take n (shuffle (elems (fis_entries s))))"

text \<open>The derived equality compares the bytes and the bound.\<close>

definition fis_eq :: "fis \<Rightarrow> fis \<Rightarrow> bool" where
  "fis_eq s t = (fis_data s = fis_data t \<and> fis_max_val s = fis_max_val t)"

section \<open>Representation invariant\<close>

definition fis_bit :: "fis \<Rightarrow> nat \<Rightarrow> bool" where
  "fis_bit s e = (e div 8 < length (fis_data s) \<and> bit (fis_data s ! (e div 8)) (e mod 8))"

definition fis_inv :: "nat \<Rightarrow> fis \<Rightarrow> bool" where
  "fis_inv N s = (fis_max_val s = N \<and> length (fis_data s) = N div 8 + 1 \<and>
     (\<forall>e < 8 * length (fis_data s). N < e \<longrightarrow> \<not> fis_bit s e))"

lemma fis_bit_imp_le: "fis_inv N s \<Longrightarrow> fis_bit s e \<Longrightarrow> e \<le> N"
  by (auto simp: fis_inv_def fis_bit_def not_le[symmetric] dest!: spec[of _ e])

lemma and_exp_pos_u8: "i < 8 \<Longrightarrow> (0 < (b AND 2 ^ i :: u8)) \<longleftrightarrow> bit b i"
  using and_exp_zero_u8 [of i b] by (auto simp: word_gt_0)

lemma mem_fis_entry_list: "e \<in> set (fis_entry_list s) \<longleftrightarrow> fis_bit s e"
proof
  assume "e \<in> set (fis_entry_list s)"
  then show "fis_bit s e"
    by (auto simp: fis_entry_list_def fis_bit_def in_set_enumerate_eq and_exp_pos_u8)
next
  assume b: "fis_bit s e"
  then have "(e div 8, fis_data s ! (e div 8)) \<in> set (enumerate 0 (fis_data s))"
    by (auto simp: fis_bit_def in_set_enumerate_eq)
  moreover have "e \<in> (\<lambda>b. e div 8 * 8 + b) `
      {b. b < 8 \<and> 0 < fis_data s ! (e div 8) AND push_bit b 1}"
    using b by (auto simp: fis_bit_def and_exp_pos_u8 image_iff intro!: exI[of _ "e mod 8"])
  ultimately show "e \<in> set (fis_entry_list s)"
    unfolding fis_entry_list_def by (auto simp: image_iff)
qed

lemma fis_entries_bit: "fis_entries s = {e. fis_bit s e}"
  by (auto simp: fis_entries_def mem_fis_entry_list)


section \<open>Each operation on the bits\<close>

lemma div_mod_8_eq: "a div 8 = b div 8 \<Longrightarrow> a mod 8 = b mod 8 \<Longrightarrow> a = (b :: nat)"
  by (metis div_mult_mod_eq)

lemma fis_bit_new [simp]: "\<not> fis_bit (fis_new N) e"
  by (simp add: fis_bit_def fis_new_def del: replicate_Suc)

lemma fis_inv_new [simp]: "fis_inv N (fis_new N)"
  by (simp add: fis_inv_def) (simp add: fis_new_def)

lemma fis_insert_ok:
  assumes "fis_inv N s" "e \<le> N"
  shows "\<exists>s'. fis_insert e s = Some (\<not> fis_bit s e, s') \<and> fis_inv N s' \<and>
           (\<forall>x. fis_bit s' x \<longleftrightarrow> x = e \<or> fis_bit s x)"
proof -
  have len: "e div 8 < length (fis_data s)" and mx: "fis_max_val s = N"
    using assms by (auto simp: fis_inv_def less_Suc_eq_le div_le_mono)
  let ?s' = "s\<lparr>fis_data := (fis_data s)[e div 8 := (fis_data s ! (e div 8)) OR 2 ^ (e mod 8)]\<rparr>"
  have ins: "fis_insert e s = Some (\<not> fis_bit s e, ?s')"
    using len mx assms(2)
    by (simp add: fis_insert_def fis_idx_def Let_def fis_bit_def and_exp_zero_u8)
  have bits: "\<forall>x. fis_bit ?s' x \<longleftrightarrow> x = e \<or> fis_bit s x"
    using len by (auto simp: fis_bit_def nth_list_update bit_or_iff bit_exp_u8 dest: div_mod_8_eq)
  then have "fis_inv N ?s'"
    using assms by (auto simp: fis_inv_def)
  with ins bits show ?thesis by blast
qed

lemma fis_remove_ok:
  assumes "fis_inv N s" "e \<le> N"
  shows "\<exists>s'. fis_remove e s = Some s' \<and> fis_inv N s' \<and>
           (\<forall>x. fis_bit s' x \<longleftrightarrow> x \<noteq> e \<and> fis_bit s x)"
proof -
  have len: "e div 8 < length (fis_data s)" and mx: "fis_max_val s = N"
    using assms by (auto simp: fis_inv_def less_Suc_eq_le div_le_mono)
  let ?s' = "s\<lparr>fis_data := (fis_data s)[e div 8 := (fis_data s ! (e div 8)) AND NOT (2 ^ (e mod 8))]\<rparr>"
  have rem: "fis_remove e s = Some ?s'"
    using len mx assms(2) by (simp add: fis_remove_def fis_idx_def)
  have bits: "\<forall>x. fis_bit ?s' x \<longleftrightarrow> x \<noteq> e \<and> fis_bit s x"
    using len by (auto simp: fis_bit_def nth_list_update bit_and_iff bit_not_iff bit_exp_u8
        dest: div_mod_8_eq)
  then have "fis_inv N ?s'"
    using assms by (auto simp: fis_inv_def)
  with rem bits show ?thesis by blast
qed

lemma fis_out_of_bounds:
  assumes "fis_inv N s" "N < e"
  shows "fis_insert e s = None" "fis_remove e s = None"
  using assms by (auto simp: fis_insert_def fis_remove_def fis_idx_def fis_inv_def)

lemma fis_zip_bit:
  assumes "length a = length b" "i < length b"
  shows "fis_zip f a b ! i = f (a ! i) (b ! i)"
  using assms by (simp add: fis_zip_def nth_append)

lemma length_fis_zip: "length a = length b \<Longrightarrow> length (fis_zip f a b) = length a"
  by (simp add: fis_zip_def)

text \<open>One lemma for the three operators: each acts on single bit positions.\<close>

lemma fis_zip_ok:
  assumes "fis_inv N s" "fis_inv N t"
    and f: "\<And>a b n. n < 8 \<Longrightarrow> bit (f a b) n \<longleftrightarrow> h (bit a n) (bit b n)"
    and h: "\<not> h False False"
  shows "fis_inv N (s\<lparr>fis_data := fis_zip f (fis_data s) (fis_data t)\<rparr>) \<and>
    (\<forall>x. fis_bit (s\<lparr>fis_data := fis_zip f (fis_data s) (fis_data t)\<rparr>) x \<longleftrightarrow>
           h (fis_bit s x) (fis_bit t x))"
proof -
  have len: "length (fis_data s) = length (fis_data t)"
    using assms(1,2) by (simp add: fis_inv_def)
  have bits: "\<forall>x. fis_bit (s\<lparr>fis_data := fis_zip f (fis_data s) (fis_data t)\<rparr>) x \<longleftrightarrow>
           h (fis_bit s x) (fis_bit t x)"
  proof
    fix x
    show "fis_bit (s\<lparr>fis_data := fis_zip f (fis_data s) (fis_data t)\<rparr>) x \<longleftrightarrow>
           h (fis_bit s x) (fis_bit t x)"
      using len h by (cases "x div 8 < length (fis_data t)")
        (simp_all add: fis_bit_def fis_zip_bit length_fis_zip f)
  qed
  moreover have "fis_inv N (s\<lparr>fis_data := fis_zip f (fis_data s) (fis_data t)\<rparr>)"
    using assms(1,2) len bits h by (auto simp: fis_inv_def length_fis_zip)
  ultimately show ?thesis by blast
qed

lemma fis_bitor_ok:
  "fis_inv N s \<Longrightarrow> fis_inv N t \<Longrightarrow>
   fis_inv N (fis_bitor s t) \<and> (\<forall>x. fis_bit (fis_bitor s t) x \<longleftrightarrow> fis_bit s x \<or> fis_bit t x)"
  unfolding fis_bitor_def by (rule fis_zip_ok) (auto simp: bit_or_iff)

lemma fis_bitand_ok:
  "fis_inv N s \<Longrightarrow> fis_inv N t \<Longrightarrow>
   fis_inv N (fis_bitand s t) \<and> (\<forall>x. fis_bit (fis_bitand s t) x \<longleftrightarrow> fis_bit s x \<and> fis_bit t x)"
  unfolding fis_bitand_def by (rule fis_zip_ok) (auto simp: bit_and_iff)

lemma fis_sub_ok:
  "fis_inv N s \<Longrightarrow> fis_inv N t \<Longrightarrow>
   fis_inv N (fis_sub s t) \<and> (\<forall>x. fis_bit (fis_sub s t) x \<longleftrightarrow> fis_bit s x \<and> \<not> fis_bit t x)"
  unfolding fis_sub_def
  by (rule fis_zip_ok [where h = "\<lambda>a b. a \<and> \<not> b"]) (auto simp: bit_and_iff bit_not_iff)

lemma fis_sub_assign_eq: "fis_sub_assign s t = fis_sub s t"
  by (simp add: fis_sub_assign_def fis_sub_def)

section \<open>Counting\<close>

lemma fold_count_filter:
  "fold (\<lambda>i r. if P i then r + 1 else r) xs (n :: nat) = n + length (filter P xs)"
  by (induction xs arbitrary: n) auto

lemma fis_size_fold:
  "fold (\<lambda>b ret. fold (\<lambda>idx ret. if b AND push_bit idx 1 > 0 then ret + 1 else ret) [0..<8] ret) bs n
   = n + sum_list (map (\<lambda>b. length (filter (\<lambda>i. b AND push_bit i 1 > (0 :: u8)) [0..<8])) bs)"
  by (induction bs arbitrary: n) (simp_all only: fold_count_filter fold.simps o_apply id_apply
      list.map sum_list.Cons sum_list.Nil add.assoc add_0_right)

definition byte_entries :: "nat \<Rightarrow> u8 \<Rightarrow> nat list" where
  "byte_entries k b = map (\<lambda>i. k * 8 + i) (filter (\<lambda>i. b AND push_bit i 1 > 0) [0..<8])"

lemma fis_entry_list_bytes:
  "fis_entry_list s = concat (map (\<lambda>(k, b). byte_entries k b) (enumerate 0 (fis_data s)))"
  by (simp add: fis_entry_list_def byte_entries_def)

lemma length_byte_entries_enumerate:
  "length (concat (map (\<lambda>(k, b). byte_entries k b) (enumerate k bs))) =
   sum_list (map (\<lambda>b. length (filter (\<lambda>i. b AND push_bit i 1 > (0 :: u8)) [0..<8])) bs)"
proof (induction bs arbitrary: k)
  case (Cons b bs)
  then show ?case by (simp add: byte_entries_def del: upt_Suc upt_rec_numeral)
qed simp

lemma fis_size_length: "fis_size s = length (fis_entry_list s)"
  unfolding fis_entry_list_bytes length_byte_entries_enumerate fis_size_def fis_size_fold by simp

lemma byte_entries_range: "e \<in> set (byte_entries k b) \<Longrightarrow> e div 8 = k"
  by (auto simp: byte_entries_def)

lemma distinct_byte_entries: "distinct (byte_entries k b)"
  unfolding byte_entries_def distinct_map
  by (rule conjI, rule distinct_filter, rule distinct_upt) (simp add: inj_on_def)

lemma distinct_byte_entries_enumerate:
  "distinct (concat (map (\<lambda>(k, b). byte_entries k b) (enumerate k bs)))"
proof (induction bs arbitrary: k)
  case (Cons b bs)
  have "e div 8 > k" if "e \<in> set (concat (map (\<lambda>(k, b). byte_entries k b) (enumerate (Suc k) bs)))" for e
    using that by (auto simp: in_set_enumerate_eq dest!: byte_entries_range)
  then have "set (byte_entries k b) \<inter>
      set (concat (map (\<lambda>(k, b). byte_entries k b) (enumerate (Suc k) bs))) = {}"
    using byte_entries_range by fastforce
  then show ?case
    using Cons.IH [of "Suc k"] distinct_byte_entries by simp
qed simp

lemma distinct_fis_entry_list: "distinct (fis_entry_list s)"
  unfolding fis_entry_list_bytes by (rule distinct_byte_entries_enumerate)

lemma fis_size_card: "fis_size s = card (fis_entries s)"
  by (simp add: fis_size_length fis_entries_def distinct_card distinct_fis_entry_list)

lemma finite_fis_entries [simp]: "finite (fis_entries s)"
  by (simp add: fis_entries_def)

lemma fis_empty_iff: "fis_empty s \<longleftrightarrow> fis_entries s = {}"
proof -
  have "fis_empty s \<longleftrightarrow> (\<forall>i < length (fis_data s). fis_data s ! i = 0)"
    by (auto simp: fis_empty_def all_set_conv_all_nth word_gt_0)
  also have "\<dots> \<longleftrightarrow> (\<forall>e. \<not> fis_bit s e)"
  proof safe
    fix i assume a: "\<forall>e. \<not> fis_bit s e" and i: "i < length (fis_data s)"
    show "fis_data s ! i = 0"
    proof (rule u8_eqI)
      fix n :: nat assume "n < 8"
      then show "bit (fis_data s ! i) n = bit 0 n"
        using a[rule_format, of "i * 8 + n"] i by (simp add: fis_bit_def)
    qed
  qed (auto simp: fis_bit_def)
  finally show ?thesis by (auto simp: fis_entries_bit)
qed


lemma fis_entries_determine:
  assumes "fis_inv N s" "fis_inv N t" "fis_entries s = fis_entries t"
  shows "fis_data s = fis_data t"
proof (rule nth_equalityI)
  show "length (fis_data s) = length (fis_data t)"
    using assms by (simp add: fis_inv_def)
  fix i assume i: "i < length (fis_data s)"
  with assms have j: "i < length (fis_data t)" by (simp add: fis_inv_def)
  show "fis_data s ! i = fis_data t ! i"
  proof (rule u8_eqI)
    fix n :: nat assume n: "n < 8"
    have "fis_bit s (i * 8 + n) \<longleftrightarrow> fis_bit t (i * 8 + n)"
      using assms(3) by (auto simp: fis_entries_bit)
    then show "bit (fis_data s ! i) n = bit (fis_data t ! i) n"
      using i j n by (simp add: fis_bit_def)
  qed
qed

section \<open>The interface of a bounded set\<close>

text \<open>
  What the users of the bit vector rely on: insertion reports whether the element was new and
  refuses elements above the bound, and the binary operators are those of sets.
\<close>

locale bounded_set =
  fixes N :: nat
    and new :: "'s"
    and ins :: "nat \<Rightarrow> 's \<Rightarrow> (bool \<times> 's) option"
    and union :: "'s \<Rightarrow> 's \<Rightarrow> 's"
    and inter :: "'s \<Rightarrow> 's \<Rightarrow> 's"
    and diff :: "'s \<Rightarrow> 's \<Rightarrow> 's"
    and size_of :: "'s \<Rightarrow> nat"
    and elems :: "'s \<Rightarrow> nat set"
    and invar :: "'s \<Rightarrow> bool"
  assumes invar_new: "invar new" and elems_new: "elems new = {}"
    and bounded: "invar s \<Longrightarrow> elems s \<subseteq> {..N}"
    and ins_ok: "invar s \<Longrightarrow> e \<le> N \<Longrightarrow>
      \<exists>s'. ins e s = Some (e \<notin> elems s, s') \<and> invar s' \<and> elems s' = insert e (elems s)"
    and ins_oob: "invar s \<Longrightarrow> N < e \<Longrightarrow> ins e s = None"
    and union_ok: "invar s \<Longrightarrow> invar t \<Longrightarrow> invar (union s t) \<and> elems (union s t) = elems s \<union> elems t"
    and inter_ok: "invar s \<Longrightarrow> invar t \<Longrightarrow> invar (inter s t) \<and> elems (inter s t) = elems s \<inter> elems t"
    and diff_ok: "invar s \<Longrightarrow> invar t \<Longrightarrow> invar (diff s t) \<and> elems (diff s t) = elems s - elems t"
    and size_ok: "invar s \<Longrightarrow> size_of s = card (elems s)"
begin

lemma finite_elems: "invar s \<Longrightarrow> finite (elems s)"
  using bounded finite_subset by blast

lemma insert_seq_ok:
  "invar s \<Longrightarrow> set vs \<subseteq> {..N} \<Longrightarrow>
   \<exists>s'. insert_seq ins vs s = Some s' \<and> invar s' \<and> elems s' = elems s \<union> set vs"
proof (induction vs arbitrary: s)
  case (Cons v vs)
  then obtain s1 where s1: "ins v s = Some (v \<notin> elems s, s1)" "invar s1"
      "elems s1 = insert v (elems s)"
    using ins_ok by force
  with Cons.IH [of s1] Cons.prems obtain s' where
    "insert_seq ins vs s1 = Some s'" "invar s'" "elems s' = elems s1 \<union> set vs"
    by auto
  with s1 show ?case by auto
qed auto

lemma insert_seq_oob:
  "invar s \<Longrightarrow> v \<in> set vs \<Longrightarrow> N < v \<Longrightarrow> insert_seq ins vs s = None"
proof (induction vs arbitrary: s)
  case (Cons w vs)
  show ?case
  proof (cases "w \<le> N")
    case True
    with Cons.prems obtain s1 where s1: "ins w s = Some (w \<notin> elems s, s1)" "invar s1"
      using ins_ok by blast
    with True Cons show ?thesis by auto
  next
    case False
    with Cons.prems show ?thesis by (simp add: ins_oob)
  qed
qed simp

text \<open>Taking a selection out of a set splits it, and the sizes add up.\<close>

lemma split_off:
  assumes "invar s" "set sel \<subseteq> elems s"
  shows "\<exists>t. insert_seq ins sel new = Some t \<and> invar t \<and> elems t = set sel \<and>
     invar (diff s t) \<and> elems (diff s t) = elems s - set sel \<and>
     size_of t + size_of (diff s t) = size_of s"
proof -
  from assms bounded have "set sel \<subseteq> {..N}" by blast
  from insert_seq_ok [OF invar_new this] obtain t where
    t: "insert_seq ins sel new = Some t" "invar t" "elems t = set sel"
    unfolding elems_new by auto
  have d: "invar (diff s t)" "elems (diff s t) = elems s - set sel"
    using diff_ok [OF assms(1) t(2)] t(3) by auto
  have "card (set sel) + card (elems s - set sel) = card (elems s)"
    using assms by (simp add: card_Diff_subset finite_elems card_mono)
  with t d assms(1) show ?thesis by (auto simp: size_ok)
qed

end

interpretation fis: bounded_set N "fis_new N" fis_insert fis_bitor fis_bitand fis_sub fis_size
  fis_entries "fis_inv N" for N
proof unfold_locales
  fix s e assume "fis_inv N s" "e \<le> N"
  from fis_insert_ok [OF this] obtain s' where
    "fis_insert e s = Some (\<not> fis_bit s e, s')" "fis_inv N s'"
    "\<forall>x. fis_bit s' x \<longleftrightarrow> x = e \<or> fis_bit s x" by blast
  then show "\<exists>s'. fis_insert e s = Some (e \<notin> fis_entries s, s') \<and> fis_inv N s' \<and>
      fis_entries s' = insert e (fis_entries s)"
    by (auto simp: fis_entries_bit)
next
  fix s t assume st: "fis_inv N s" "fis_inv N t"
  show "fis_inv N (fis_bitor s t) \<and> fis_entries (fis_bitor s t) = fis_entries s \<union> fis_entries t"
    using fis_bitor_ok [OF st] by (auto simp: fis_entries_bit)
  show "fis_inv N (fis_bitand s t) \<and> fis_entries (fis_bitand s t) = fis_entries s \<inter> fis_entries t"
    using fis_bitand_ok [OF st] by (auto simp: fis_entries_bit)
  show "fis_inv N (fis_sub s t) \<and> fis_entries (fis_sub s t) = fis_entries s - fis_entries t"
    using fis_sub_ok [OF st] by (auto simp: fis_entries_bit)
qed (auto simp: fis_entries_bit fis_out_of_bounds fis_size_card intro: fis_bit_imp_le)

lemma fis_remove_entries:
  assumes "fis_inv N s" "e \<le> N"
  shows "\<exists>s'. fis_remove e s = Some s' \<and> fis_inv N s' \<and> fis_entries s' = fis_entries s - {e}"
proof -
  from fis_remove_ok [OF assms] obtain s' where "fis_remove e s = Some s'" "fis_inv N s'"
      "\<forall>x. fis_bit s' x \<longleftrightarrow> x \<noteq> e \<and> fis_bit s x" by blast
  then show ?thesis by (auto simp: fis_entries_bit)
qed

lemma fis_symm_diff_entries:
  assumes "fis_inv N s" "fis_inv N t"
  shows "fis_entries (fis_symm_diff s t) =
    (fis_entries s - fis_entries t) \<union> (fis_entries t - fis_entries s)"
proof -
  have "fis_entries (fis_symm_diff s t) = (fis_entries s \<union> fis_entries t) - (fis_entries s \<inter> fis_entries t)"
    using fis.union_ok [OF assms] fis.inter_ok [OF assms]
      fis.diff_ok [of N "fis_bitor s t" "fis_bitand s t"]
    by (simp add: fis_symm_diff_def Let_def)
  then show ?thesis by blast
qed

lemma fis_eq_entries:
  assumes "fis_inv N s" "fis_inv N t"
  shows "fis_eq s t \<longleftrightarrow> fis_entries s = fis_entries t"
proof
  assume "fis_eq s t"
  then show "fis_entries s = fis_entries t"
    by (simp add: fis_eq_def fis_entries_def fis_entry_list_def)
next
  assume "fis_entries s = fis_entries t"
  with assms show "fis_eq s t"
    using fis_entries_determine [OF assms] by (simp add: fis_eq_def fis_inv_def)
qed

section \<open>Properties\<close>

text \<open>
  C5: On sets of the same bound, every operation of the bit vector is the set operation it is
  named after: \<^verbatim>\<open>insert\<close> reports whether the element was new and adds it, \<^verbatim>\<open>remove\<close> takes it out,
  both panic above the bound; union, intersection, difference, in-place difference and symmetric
  difference are exact; \<^verbatim>\<open>size\<close> is the cardinality, \<^verbatim>\<open>empty\<close> the emptiness test, and the derived
  equality is equality of the sets; no element above the bound is ever reported.
\<close>

theorem fis_refines_set:
  assumes "fis_inv N s" "fis_inv N t"
  shows
    "(e \<le> N \<longrightarrow> (\<exists>s'. fis_insert e s = Some (e \<notin> fis_entries s, s') \<and> fis_inv N s' \<and>
        fis_entries s' = insert e (fis_entries s))) \<and>
     (e \<le> N \<longrightarrow> (\<exists>s'. fis_remove e s = Some s' \<and> fis_inv N s' \<and>
        fis_entries s' = fis_entries s - {e})) \<and>
     (N < e \<longrightarrow> fis_insert e s = None \<and> fis_remove e s = None) \<and>
     fis_inv N (fis_bitor s t) \<and> fis_entries (fis_bitor s t) = fis_entries s \<union> fis_entries t \<and>
     fis_inv N (fis_bitand s t) \<and> fis_entries (fis_bitand s t) = fis_entries s \<inter> fis_entries t \<and>
     fis_inv N (fis_sub_assign s t) \<and>
     fis_entries (fis_sub_assign s t) = fis_entries s - fis_entries t \<and>
     fis_entries (fis_symm_diff s t) =
       (fis_entries s - fis_entries t) \<union> (fis_entries t - fis_entries s) \<and>
     fis_size s = card (fis_entries s) \<and>
     (fis_empty s \<longleftrightarrow> fis_entries s = {}) \<and>
     (fis_eq s t \<longleftrightarrow> fis_entries s = fis_entries t) \<and>
     fis_entries s \<subseteq> {..N}"
  using fis.ins_ok [OF assms(1)] fis_remove_entries [OF assms(1)] fis_out_of_bounds [OF assms(1)]
    fis.union_ok [OF assms] fis.inter_ok [OF assms] fis.diff_ok [OF assms]
    fis_symm_diff_entries [OF assms] fis_eq_entries [OF assms] fis.bounded [OF assms(1)]
  by (simp add: fis_sub_assign_eq fis_size_card fis_empty_iff)

theorem fis_refines_set_witness:
  "fis_inv 12 (fis_new 12) \<and>
   (\<exists>s'. fis_insert 9 (fis_new 12) = Some (True, s') \<and> fis_entries s' = {9}) \<and>
   fis_insert 13 (fis_new 12) = None"
  using fis_refines_set [of 12 "fis_new 12" "fis_new 12" 9]
    fis_refines_set [of 12 "fis_new 12" "fis_new 12" 13]
  by (auto simp: fis.elems_new)

end
