(* ===== verification/Sink_Bitmap.thy ===== *)
theory Sink_Bitmap
  imports FT_Prelude
begin

text \<open>
  The coverage bitmap of the sink (\<^verbatim>\<open>scheduler/src/sink_bitmap.rs\<close>): the AFL-style edge counters,
  the hit-count classification, the virgin map update \<^verbatim>\<open>has_new_bit\<close> and the minimised map.

  The code reads and writes the byte buffer through 64-bit (and 16-bit) integers on chunks of
  eight bytes; the definitions below do the same, and the lemmas show that each operation is the
  byte-wise one. A bitmap carries its bytes, whether they live in a shared memory segment or on
  the heap: \<^verbatim>\<open>shm_addr\<close> and \<^verbatim>\<open>backing_memory\<close> are the field \<open>bm_data\<close>.
\<close>

datatype bitmap_status = NoChange | NewHit | NewEdge

record bitmap =
  bm_shm_id :: "int option"
  bm_data :: "u8 list"
  bm_fill_pattern :: u8
  bm_size :: nat

section \<open>Construction and copying\<close>

fun is_power_of_two :: "nat \<Rightarrow> bool" where
  "is_power_of_two n = (if n \<le> 1 then n = 1 else even n \<and> is_power_of_two (n div 2))"

declare is_power_of_two.simps [simp del]

text \<open>
  \<open>shm_id\<close> and \<open>shm_addr\<close> are what \<^verbatim>\<open>shmget\<close> and \<^verbatim>\<open>shmat\<close> return; the segment has the bytes the
  constructor copies into it.
\<close>

definition new_in_shm :: "int \<Rightarrow> int \<Rightarrow> nat \<Rightarrow> u8 \<Rightarrow> bitmap option" where
  "new_in_shm shm_id shm_addr sz fill_pattern = do {
     require (sz \<ge> 8 \<and> is_power_of_two sz);
     require (shm_id \<noteq> -1);
     require (shm_addr \<noteq> -1);
     Some \<lparr>bm_shm_id = Some shm_id, bm_data = replicate sz fill_pattern,
           bm_fill_pattern = fill_pattern, bm_size = sz\<rparr> }"

definition new_in_mem :: "nat \<Rightarrow> u8 \<Rightarrow> bitmap option" where
  "new_in_mem sz fill_pattern = do {
     require (sz \<ge> 8 \<and> is_power_of_two sz);
     Some \<lparr>bm_shm_id = None, bm_data = replicate sz fill_pattern,
           bm_fill_pattern = fill_pattern, bm_size = sz\<rparr> }"

definition bm_copy_from :: "bitmap \<Rightarrow> bitmap \<Rightarrow> bitmap option" where
  "bm_copy_from b other = do {
     require (length (bm_data b) = length (bm_data other));
     Some (b\<lparr>bm_data := bm_data other\<rparr>) }"

definition bm_shm_id_get :: "bitmap \<Rightarrow> int option" where
  "bm_shm_id_get b = bm_shm_id b"

definition bm_reset :: "bitmap \<Rightarrow> bitmap" where
  "bm_reset b = b\<lparr>bm_data := replicate (length (bm_data b)) (bm_fill_pattern b)\<rparr>"

definition bm_clone_as_mem_backed :: "bitmap \<Rightarrow> bitmap option" where
  "bm_clone_as_mem_backed b = do {
     bm \<leftarrow> new_in_mem (bm_size b) (bm_fill_pattern b);
     require (length (bm_data bm) = length (bm_data b));
     Some (bm\<lparr>bm_data := bm_data b\<rparr>) }"

definition bm_clone_with_pattern :: "bitmap \<Rightarrow> u8 \<Rightarrow> bitmap option" where
  "bm_clone_with_pattern b pattern = new_in_mem (bm_size b) pattern"

definition bm_index :: "bitmap \<Rightarrow> nat \<Rightarrow> u8 option" where
  "bm_index b i = (if i < length (bm_data b) then Some (bm_data b ! i) else None)"

definition bm_index_mut :: "bitmap \<Rightarrow> nat \<Rightarrow> u8 \<Rightarrow> bitmap option" where
  "bm_index_mut b i v = do {
     require (i < length (bm_data b));
     Some (b\<lparr>bm_data := (bm_data b)[i := v]\<rparr>) }"

section \<open>Counting\<close>

definition chunk_bytes_set :: "u64 \<Rightarrow> nat" where
  "chunk_bytes_set val = (if val > 0 then
       length (filter (\<lambda>k. val AND push_bit (8 * k) 0xff \<noteq> 0) [0..<8]) else 0)"

definition bm_count_bytes_set :: "bitmap \<Rightarrow> nat" where
  "bm_count_bytes_set b = sum_list (map (\<lambda>c. chunk_bytes_set (from_le_bytes c)) (chunks8 (bm_data b)))"

definition count_ones :: "'a::len word \<Rightarrow> nat" where
  "count_ones w = length (filter (bit w) [0..<LENGTH('a)])"

definition bm_count_bits_set :: "bitmap \<Rightarrow> nat" where
  "bm_count_bits_set b = sum_list (map (\<lambda>c. count_ones (from_le_bytes c)) (chunks8 (bm_data b)))"

section \<open>Bit-wise operators\<close>

definition bm_not :: "bitmap \<Rightarrow> bitmap" where
  "bm_not b = b\<lparr>bm_data :=
     concat (map (\<lambda>c. to_le_bytes (NOT (from_le_bytes c))) (chunks8 (bm_data b)))\<rparr>"

text \<open>
  The macro \<^verbatim>\<open>impl_ops!\<close>: the result starts as a zeroed map of the size of the left operand, and
  the chunks of the zipped operands are written into it one after the other; \<^verbatim>\<open>unwrap\<close> panics when
  the result has no further chunk.
\<close>

fun write_chunks :: "u8 list list \<Rightarrow> u8 list list \<Rightarrow> u8 list list option" where
  "write_chunks ret [] = Some ret"
| "write_chunks [] (c # cs) = None"
| "write_chunks (r # ret) (c # cs) = map_option ((#) c) (write_chunks ret cs)"

definition bm_op :: "(u64 \<Rightarrow> u64 \<Rightarrow> u64) \<Rightarrow> bitmap \<Rightarrow> bitmap \<Rightarrow> bitmap option" where
  "bm_op opr b rhs = do {
     ret \<leftarrow> bm_clone_with_pattern b 0;
     cs \<leftarrow> write_chunks (chunks8 (bm_data ret))
            (map (\<lambda>(b1, b2). to_le_bytes (opr (from_le_bytes b1) (from_le_bytes b2)))
                 (zip (chunks8 (bm_data b)) (chunks8 (bm_data rhs))));
     Some (ret\<lparr>bm_data := concat cs\<rparr>) }"

definition bm_bitand :: "bitmap \<Rightarrow> bitmap \<Rightarrow> bitmap option" where
  "bm_bitand = bm_op (AND)"

definition bm_bitor :: "bitmap \<Rightarrow> bitmap \<Rightarrow> bitmap option" where
  "bm_bitor = bm_op (OR)"

definition bm_bitxor :: "bitmap \<Rightarrow> bitmap \<Rightarrow> bitmap option" where
  "bm_bitxor = bm_op (XOR)"

section \<open>The virgin map\<close>

definition untouched_byte :: "u8 list \<Rightarrow> u8 list \<Rightarrow> bool" where
  "untouched_byte se vi = (\<exists>i\<in>set [0..<8]. se ! i \<noteq> 0 \<and> vi ! i = 0xff)"

fun hnb_loop :: "u8 list list \<Rightarrow> u8 list list \<Rightarrow> bitmap_status \<Rightarrow> bitmap_status \<times> u8 list list" where
  "hnb_loop (se # ses) (vi # vis) ret =
    (let self_bytes = from_le_bytes se; virgin_bytes = from_le_bytes vi in
     if self_bytes \<noteq> 0 \<and> self_bytes AND virgin_bytes \<noteq> 0 then
       let ret' = (if ret \<noteq> NewEdge then (if untouched_byte se vi then NewEdge else NewHit) else ret);
           (r, vis') = hnb_loop ses vis ret'
       in (r, to_le_bytes (virgin_bytes AND NOT self_bytes) # vis')
     else let (r, vis') = hnb_loop ses vis ret in (r, vi # vis'))"
| "hnb_loop _ vis ret = (ret, vis)"

definition has_new_bit :: "bitmap \<Rightarrow> bitmap \<Rightarrow> bitmap_status \<times> bitmap" where
  "has_new_bit b virgin =
     (let (ret, vis) = hnb_loop (chunks8 (bm_data b)) (chunks8 (bm_data virgin)) NoChange
      in (ret, virgin\<lparr>bm_data := concat vis\<rparr>))"

section \<open>Hit-count buckets\<close>

definition LOOKUP_U8_IDX :: "(nat \<times> nat) list" where
  "LOOKUP_U8_IDX = [(0, 1), (1, 2), (2, 3), (3, 4), (4, 8), (8, 16), (16, 32), (32, 128), (128, 256)]"

definition LOOKUP_BUCKET :: "u8 list" where
  "LOOKUP_BUCKET = [0, 1, 2, 4, 8, 16, 32, 64, 128]"

fun position :: "('a \<Rightarrow> bool) \<Rightarrow> 'a list \<Rightarrow> nat option" where
  "position P [] = None"
| "position P (x # xs) = (if P x then Some 0 else map_option Suc (position P xs))"

definition lookup_byte :: "u8 \<Rightarrow> u8 option" where
  "lookup_byte b = map_option ((!) LOOKUP_BUCKET)
     (position (\<lambda>(lo, hi). lo \<le> unat b \<and> unat b < hi) LOOKUP_U8_IDX)"

definition lookup_u16 :: "u16 \<Rightarrow> u16 option" where
  "lookup_u16 s = do {
     lookup_b1 \<leftarrow> lookup_byte (ucast (drop_bit 8 s));
     lookup_b2 \<leftarrow> lookup_byte (ucast s);
     Some (push_bit 8 (ucast lookup_b1) OR ucast lookup_b2) }"

definition classify_chunk :: "u8 list \<Rightarrow> u8 list option" where
  "classify_chunk c = (if from_le_bytes c \<noteq> 0
     then map_option (\<lambda>ss. concat (map u16_bytes ss)) (those (map lookup_u16 (as_u16s c)))
     else Some c)"

definition classify_counts :: "bitmap \<Rightarrow> bitmap option" where
  "classify_counts b = do {
     cs \<leftarrow> those (map classify_chunk (chunks8 (bm_data b)));
     Some (b\<lparr>bm_data := concat cs\<rparr>) }"

section \<open>Hashing, minimisation and edges\<close>

definition hash_step :: "u64 \<Rightarrow> u64 \<Rightarrow> u64" where
  "hash_step h1 k1 =
     (let k1 = k1 * 0x87c37b91114253d5;
          k1 = word_rotl 31 k1;
          k1 = k1 * 0x4cf5ad432745937f;
          h1 = h1 XOR k1;
          h1 = word_rotl 27 h1;
          h1 = h1 * 5
      in h1 + 0x52dce729)"

definition hash_final :: "u64 \<Rightarrow> u64" where
  "hash_final h1 =
     (let h1 = h1 XOR drop_bit 33 h1;
          h1 = h1 * 0xff51afd7ed558ccd;
          h1 = h1 XOR drop_bit 33 h1;
          h1 = h1 * 0xc4ceb9fe1a85ec53
      in h1 XOR drop_bit 33 h1)"

definition bm_hash_state :: "bitmap \<Rightarrow> u64" where
  "bm_hash_state b =
     (let seed = 0xef8e8af80708ef32;
          h1 = of_nat (length (bm_data b)) XOR seed;
          h1 = foldl (\<lambda>h c. hash_step h (from_le_bytes c)) h1 (chunks8 (bm_data b))
      in hash_final h1)"

definition bm_hash32 :: "bitmap \<Rightarrow> u32" where
  "bm_hash32 b = ucast (bm_hash_state b)"

fun minimize_loop :: "nat \<Rightarrow> u8 list \<Rightarrow> u8 list \<Rightarrow> u8 list option" where
  "minimize_loop idx [] new_map_mem = Some new_map_mem"
| "minimize_loop idx (b # src) new_map_mem =
    (if b > 0 then do {
       require (idx div 8 < length new_map_mem);
       minimize_loop (idx + 1) src
         (new_map_mem[idx div 8 := new_map_mem ! (idx div 8) OR push_bit (idx mod 8) 1]) }
     else minimize_loop (idx + 1) src new_map_mem)"

definition bm_minimize :: "bitmap \<Rightarrow> bitmap option" where
  "bm_minimize b = do {
     new_map \<leftarrow> new_in_mem (bm_size b div 8) 0;
     mem \<leftarrow> minimize_loop 0 (bm_data b) (bm_data new_map);
     Some (new_map\<lparr>bm_data := mem\<rparr>) }"

definition bm_edges :: "bitmap \<Rightarrow> nat list" where
  "bm_edges b = map fst (filter (\<lambda>(idx, val). val > 0) (enumerate 0 (bm_data b)))"

section \<open>Well-formedness\<close>

definition bm_wf :: "bitmap \<Rightarrow> bool" where
  "bm_wf b \<longleftrightarrow> length (bm_data b) = bm_size b \<and> bm_size b \<ge> 8 \<and> is_power_of_two (bm_size b)"

lemma is_power_of_two_step: "is_power_of_two n \<Longrightarrow> 2 \<le> n \<Longrightarrow> even n \<and> is_power_of_two (n div 2)"
  by (simp add: is_power_of_two.simps [of n])

lemma is_power_of_two_div8:
  assumes "is_power_of_two n" "8 \<le> n"
  shows "8 dvd n \<and> is_power_of_two (n div 8)"
proof -
  from assms have 1: "even n" "is_power_of_two (n div 2)"
    using is_power_of_two_step [of n] by auto
  with assms have 2: "even (n div 2)" "is_power_of_two (n div 2 div 2)"
    using is_power_of_two_step [of "n div 2"] by auto
  with assms have 3: "even (n div 2 div 2)" "is_power_of_two (n div 2 div 2 div 2)"
    using is_power_of_two_step [of "n div 2 div 2"] by auto
  have "n div 2 div 2 div 2 = n div 8" by (simp add: div_mult2_eq [symmetric])
  moreover have "8 dvd n" using 1(1) 2(1) 3(1) by (auto elim!: evenE)
  ultimately show ?thesis using 3 by simp
qed

lemma bm_wf_dvd: "bm_wf b \<Longrightarrow> 8 dvd length (bm_data b)"
  by (simp add: bm_wf_def is_power_of_two_div8)

lemma new_in_mem_eq:
  "new_in_mem n p = Some b \<longleftrightarrow> 8 \<le> n \<and> is_power_of_two n \<and>
     b = \<lparr>bm_shm_id = None, bm_data = replicate n p, bm_fill_pattern = p, bm_size = n\<rparr>"
  by (auto simp: new_in_mem_def)

lemma new_in_mem_wf: "new_in_mem n p = Some b \<Longrightarrow> bm_wf b"
  by (auto simp: new_in_mem_eq bm_wf_def)

lemma clone_with_pattern_wf:
  "bm_wf b \<Longrightarrow> bm_clone_with_pattern b p = Some \<lparr>bm_shm_id = None,
     bm_data = replicate (length (bm_data b)) p, bm_fill_pattern = p, bm_size = bm_size b\<rparr>"
  by (simp add: bm_clone_with_pattern_def new_in_mem_def bm_wf_def)

section \<open>Byte-wise meaning of the chunked operations\<close>

lemma bm_not_data:
  assumes "bm_wf b"
  shows "bm_data (bm_not b) = map NOT (bm_data b)"
proof -
  have "to_le_bytes (NOT (from_le_bytes c)) = map NOT c" if c: "length c = 8" for c
  proof -
  have "to_le_bytes (NOT (from_le_bytes c)) = map2 (\<lambda>x y. NOT x) c c"
    using to_le_bytes_map2 [OF c c, of "\<lambda>x y. NOT x" "\<lambda>x y. \<not> x" "\<lambda>x y. NOT x"]
    by (simp add: bit_not_iff)
  also have "\<dots> = map NOT c" using c by (simp add: list_eq_iff_nth_eq)
  finally show ?thesis .
  qed
  then show ?thesis
    by (simp add: bm_not_def concat_map_chunks8 [OF bm_wf_dvd [OF assms]])
qed

lemma write_chunks_all: "length cs = length ret \<Longrightarrow> write_chunks ret cs = Some cs"
  by (induction ret cs rule: write_chunks.induct) auto

text \<open>A binary operator that acts on each bit position acts on each byte.\<close>

lemma bm_op_data:
  assumes "bm_wf a" "bm_wf b" "bm_size b = bm_size a"
    and f: "\<And>x y n. n < 64 \<Longrightarrow> bit (f x y :: u64) n \<longleftrightarrow> h (bit x n) (bit y n)"
    and g: "\<And>x y n. n < 8 \<Longrightarrow> bit (g x y :: u8) n \<longleftrightarrow> h (bit x n) (bit y n)"
  shows "bm_op f a b = Some \<lparr>bm_shm_id = None, bm_data = map2 g (bm_data a) (bm_data b),
           bm_fill_pattern = 0, bm_size = bm_size a\<rparr>"
proof -
  let ?xs = "bm_data a" and ?ys = "bm_data b"
  let ?F = "\<lambda>x y. to_le_bytes (f (from_le_bytes x) (from_le_bytes y))"
  have l: "length ?ys = length ?xs" using assms(1-3) by (simp add: bm_wf_def)
  have d: "8 dvd length ?xs" by (rule bm_wf_dvd [OF assms(1)])
  have "length (chunks8 ?ys) = length (chunks8 ?xs)"
    "length (chunks8 (replicate (length ?xs) (0 :: u8))) = length (chunks8 ?xs)"
    using length_chunks8 [of ?xs] length_chunks8 [of ?ys]
      length_chunks8 [of "replicate (length ?xs) (0 :: u8)"] d l by simp_all
  then have w: "write_chunks (chunks8 (replicate (length ?xs) 0)) (map2 ?F (chunks8 ?xs) (chunks8 ?ys))
      = Some (map2 ?F (chunks8 ?xs) (chunks8 ?ys))"
    by (intro write_chunks_all) simp
  have "concat (map2 ?F (chunks8 ?xs) (chunks8 ?ys)) = map2 g ?xs ?ys"
    by (rule concat_map2_chunks8 [OF d l]) (rule to_le_bytes_map2, use f g in auto)
  with w show ?thesis
    by (simp add: bm_op_def clone_with_pattern_wf [OF assms(1)])
qed

lemma bm_bitand_data:
  "bm_wf a \<Longrightarrow> bm_wf b \<Longrightarrow> bm_size b = bm_size a \<Longrightarrow>
   bm_bitand a b = Some \<lparr>bm_shm_id = None, bm_data = map2 (AND) (bm_data a) (bm_data b),
     bm_fill_pattern = 0, bm_size = bm_size a\<rparr>"
  unfolding bm_bitand_def by (rule bm_op_data [where h = "(\<and>)"]) (simp_all add: bit_and_iff)

lemma bm_bitor_data:
  "bm_wf a \<Longrightarrow> bm_wf b \<Longrightarrow> bm_size b = bm_size a \<Longrightarrow>
   bm_bitor a b = Some \<lparr>bm_shm_id = None, bm_data = map2 (OR) (bm_data a) (bm_data b),
     bm_fill_pattern = 0, bm_size = bm_size a\<rparr>"
  unfolding bm_bitor_def by (rule bm_op_data [where h = "(\<or>)"]) (simp_all add: bit_or_iff)

lemma bm_bitxor_data:
  "bm_wf a \<Longrightarrow> bm_wf b \<Longrightarrow> bm_size b = bm_size a \<Longrightarrow>
   bm_bitxor a b = Some \<lparr>bm_shm_id = None, bm_data = map2 (XOR) (bm_data a) (bm_data b),
     bm_fill_pattern = 0, bm_size = bm_size a\<rparr>"
  unfolding bm_bitxor_def by (rule bm_op_data [where h = "(\<noteq>)"]) (simp_all add: bit_xor_iff)

section \<open>The virgin map update\<close>

lemma from_le_bytes_and_0:
  assumes "length a = 8" "length b = 8"
  shows "from_le_bytes a AND from_le_bytes b = 0 \<longleftrightarrow> (\<forall>(x, y)\<in>set (zip a b). x AND y = 0)"
proof -
  have m: "to_le_bytes (from_le_bytes a AND from_le_bytes b) = map2 (AND) a b"
    by (rule to_le_bytes_map2 [OF assms, where h = "(\<and>)"]) (simp_all add: bit_and_iff)
  have "from_le_bytes (map2 (AND) a b) = from_le_bytes a AND from_le_bytes b"
    by (simp flip: m)
  moreover have "length (map2 (AND) a b) = 8" using assms by simp
  ultimately show ?thesis using from_le_bytes_eq_0 [of "map2 (AND) a b"] by auto
qed

text \<open>What \<^verbatim>\<open>has_new_bit\<close> reports, byte by byte.\<close>

definition new_edge_at :: "u8 list \<Rightarrow> u8 list \<Rightarrow> bool" where
  "new_edge_at s v \<longleftrightarrow> (\<exists>(x, y)\<in>set (zip s v). x \<noteq> 0 \<and> y = 0xff)"

definition new_hit_at :: "u8 list \<Rightarrow> u8 list \<Rightarrow> bool" where
  "new_hit_at s v \<longleftrightarrow> (\<exists>(x, y)\<in>set (zip s v). x AND y \<noteq> 0)"

lemma u8_and_ones: "x AND 0xff = (x :: u8)"
  by (rule u8_eqI) (use u8_ones_bit in \<open>auto simp: bit_and_iff\<close>)

lemma new_edge_imp_hit: "new_edge_at s v \<Longrightarrow> new_hit_at s v"
  unfolding new_edge_at_def new_hit_at_def by (force simp: u8_and_ones)

lemma new_at_append:
  "length a = length b \<Longrightarrow> new_edge_at (a @ s) (b @ v) \<longleftrightarrow> new_edge_at a b \<or> new_edge_at s v"
  "length a = length b \<Longrightarrow> new_hit_at (a @ s) (b @ v) \<longleftrightarrow> new_hit_at a b \<or> new_hit_at s v"
  by (auto simp: new_edge_at_def new_hit_at_def)

lemma untouched_byte_iff:
  "length a = 8 \<Longrightarrow> length b = 8 \<Longrightarrow> untouched_byte a b \<longleftrightarrow> new_edge_at a b"
  unfolding untouched_byte_def new_edge_at_def by (force simp: set_zip)

lemma virgin_chunk:
  assumes "length a = 8" "length b = 8"
  shows "to_le_bytes (from_le_bytes b AND NOT (from_le_bytes a)) = map2 (\<lambda>s v. v AND NOT s) a b"
  by (rule to_le_bytes_map2 [OF assms, where f = "\<lambda>s v. v AND NOT s" and h = "\<lambda>p q. q \<and> \<not> p"])
    (simp_all add: bit_and_iff bit_not_iff)

lemma and_zero_and_not:
  assumes "x AND y = (0 :: u8)"
  shows "y AND NOT x = y"
proof (rule u8_eqI)
  fix n :: nat assume "n < 8"
  have "\<not> bit (x AND y) n" using assms by simp
  with \<open>n < 8\<close> show "bit (y AND NOT x) n = bit y n" by (auto simp: bit_and_iff bit_not_iff)
qed

lemma hnb_loop_eq:
  assumes "8 dvd length s" "length v = length s"
  shows "(let (r, vis) = hnb_loop (chunks8 s) (chunks8 v) ret in
      concat vis = map2 (\<lambda>s v. v AND NOT s) s v \<and>
      r = (if ret = NewEdge \<or> new_edge_at s v then NewEdge
           else if new_hit_at s v then NewHit else ret))"
  using assms
proof (induction s v arbitrary: ret rule: chunks8_induct2)
  case Nil
  then show ?case by (auto simp: new_edge_at_def new_hit_at_def)
next
  case (Chunk a b s v)
  let ?hit = "from_le_bytes a \<noteq> 0 \<and> from_le_bytes a AND from_le_bytes b \<noteq> 0"
  have hit: "?hit \<longleftrightarrow> new_hit_at a b"
    using from_le_bytes_and_0 [OF Chunk(1,2)] by (auto simp: new_hit_at_def)
  have app: "new_edge_at (a @ s) (b @ v) \<longleftrightarrow> new_edge_at a b \<or> new_edge_at s v"
    "new_hit_at (a @ s) (b @ v) \<longleftrightarrow> new_hit_at a b \<or> new_hit_at s v"
    using Chunk(1,2) by (simp_all add: new_at_append)
  show ?case
  proof (cases "new_hit_at a b")
    case True
    let ?ret = "if ret \<noteq> NewEdge then if new_edge_at a b then NewEdge else NewHit else ret"
    obtain r vis where l: "hnb_loop (chunks8 s) (chunks8 v) ?ret = (r, vis)" by fastforce
    with Chunk.IH [of ?ret] Chunk(1,2) True hit app show ?thesis
      by (auto simp: chunks8_append untouched_byte_iff virgin_chunk Let_def)
  next
    case False
    then have e: "\<not> new_edge_at a b" using new_edge_imp_hit by blast
    obtain r vis where l: "hnb_loop (chunks8 s) (chunks8 v) ret = (r, vis)" by fastforce
    have "map2 (\<lambda>s v. v AND NOT s) a b = b"
      using False Chunk(1,2) unfolding new_hit_at_def
      by (intro nth_equalityI) (fastforce simp: set_zip intro!: and_zero_and_not)+
    with l Chunk.IH [of ret] Chunk(1,2) False hit app e show ?thesis
      by (auto simp: chunks8_append Let_def)
  qed
qed

lemma has_new_bit_eq:
  assumes "bm_wf b" "bm_wf virgin" "bm_size virgin = bm_size b"
  shows "has_new_bit b virgin =
    (if new_edge_at (bm_data b) (bm_data virgin) then NewEdge
     else if new_hit_at (bm_data b) (bm_data virgin) then NewHit else NoChange,
     virgin\<lparr>bm_data := map2 (\<lambda>s v. v AND NOT s) (bm_data b) (bm_data virgin)\<rparr>)"
proof -
  have "length (bm_data virgin) = length (bm_data b)" using assms by (simp add: bm_wf_def)
  from hnb_loop_eq [OF bm_wf_dvd [OF assms(1)] this, of NoChange]
  show ?thesis by (auto simp: has_new_bit_def Let_def split: prod.splits)
qed

section \<open>Hit-count classification\<close>

text \<open>AFL's buckets: 1, 2, 3, 4-7, 8-15, 16-31, 32-127 and 128-255 hits.\<close>

definition bucket :: "u8 \<Rightarrow> u8" where
  "bucket b = (if b = 0 then 0 else if b = 1 then 1 else if b = 2 then 2 else if b = 3 then 4
     else if b < 8 then 8 else if b < 16 then 16 else if b < 32 then 32 else if b < 128 then 64
     else 128)"

lemma lookup_byte_eq: "lookup_byte b = Some (bucket b)"
proof -
  have u: "unat b < 256" using unsigned_less [of b, where 'a = nat] by simp
  have e: "b = 0 \<longleftrightarrow> unat b = 0" "b = 1 \<longleftrightarrow> unat b = 1" "b = 2 \<longleftrightarrow> unat b = 2" "b = 3 \<longleftrightarrow> unat b = 3"
    "b < 8 \<longleftrightarrow> unat b < 8" "b < 16 \<longleftrightarrow> unat b < 16" "b < 32 \<longleftrightarrow> unat b < 32" "b < 128 \<longleftrightarrow> unat b < 128"
    by (simp_all add: word_unat_eq_iff word_less_nat_alt)
  show ?thesis
    unfolding lookup_byte_def bucket_def LOOKUP_U8_IDX_def e using u by (simp add: LOOKUP_BUCKET_def)
qed

lemma lookup_u16_eq:
  "lookup_u16 (ucast lo OR push_bit 8 (ucast hi)) =
     Some (push_bit 8 (ucast (bucket hi)) OR ucast (bucket lo))"
  unfolding lookup_u16_def u16_le_bytes by (simp add: lookup_byte_eq)

lemma classify_u16s:
  "even (length c) \<Longrightarrow> map_option (\<lambda>ss. concat (map u16_bytes ss)) (those (map lookup_u16 (as_u16s c)))
     = Some (map bucket c)"
proof (induction c rule: as_u16s.induct)
  case (1 lo hi bs)
  then obtain ss where "those (map lookup_u16 (as_u16s bs)) = Some ss" "concat (map u16_bytes ss) = map bucket bs"
    by auto
  then show ?case by (simp add: lookup_u16_eq u16_bytes_be)
qed auto

lemma classify_chunk_eq: "length c = 8 \<Longrightarrow> classify_chunk c = Some (map bucket c)"
proof (cases "from_le_bytes c = 0")
  case True
  assume c: "length c = 8"
  with True have "\<forall>b\<in>set c. bucket b = b" by (auto simp: from_le_bytes_eq_0 bucket_def)
  then have "map bucket c = c" by (simp add: map_idI)
  with True show ?thesis by (simp add: classify_chunk_def)
next
  case False
  assume "length c = 8"
  with False show ?thesis by (simp add: classify_chunk_def classify_u16s)
qed

lemma classify_counts_eq:
  assumes "bm_wf b"
  shows "classify_counts b = Some (b\<lparr>bm_data := map bucket (bm_data b)\<rparr>)"
proof -
  have "\<exists>cs. those (map classify_chunk (chunks8 xs)) = Some cs \<and> concat cs = map bucket xs"
    if "8 dvd length xs" for xs
    using that by (induction xs rule: chunks8_induct) (auto simp: chunks8_append classify_chunk_eq)
  from this [OF bm_wf_dvd [OF assms]] show ?thesis by (auto simp: classify_counts_def)
qed

lemma bucket_eq_0 [simp]: "bucket b = 0 \<longleftrightarrow> b = 0"
  by (simp add: bucket_def)

section \<open>Counting\<close>

lemma byte_of_chunk:
  assumes "length c = 8" "k < 8"
  shows "from_le_bytes c AND push_bit (8 * k) 0xff \<noteq> 0 \<longleftrightarrow> c ! k \<noteq> 0"
proof -
  have m: "(0xff :: u64) = mask 8" by (simp add: mask_eq_exp_minus_1)
  have "from_le_bytes c AND push_bit (8 * k) (mask 8) \<noteq> 0 \<longleftrightarrow>
      (\<exists>n<64. bit (c ! (n div 8)) (n mod 8) \<and> 8 * k \<le> n \<and> n - 8 * k < 8)"
    unfolding u64_nonzero_bit
    by (auto simp: bit_and_iff bit_push_bit_iff bit_mask_iff bit_from_le_bytes [OF assms(1)])
  also have "\<dots> \<longleftrightarrow> (\<exists>j<8. bit (c ! k) j)"
  proof
    assume "\<exists>n<64. bit (c ! (n div 8)) (n mod 8) \<and> 8 * k \<le> n \<and> n - 8 * k < 8"
    then obtain n where n: "bit (c ! (n div 8)) (n mod 8)" "8 * k \<le> n" "n - 8 * k < 8" by blast
    then have "n div 8 = k" by linarith
    with n(1) show "\<exists>j<8. bit (c ! k) j" by (intro exI [of _ "n mod 8"]) simp
  next
    assume "\<exists>j<8. bit (c ! k) j"
    then obtain j where "j < 8" "bit (c ! k) j" by blast
    with assms(2) show "\<exists>n<64. bit (c ! (n div 8)) (n mod 8) \<and> 8 * k \<le> n \<and> n - 8 * k < 8"
      by (intro exI [of _ "8 * k + j"]) simp
  qed
  also have "\<dots> \<longleftrightarrow> c ! k \<noteq> 0" by (simp add: u8_nonzero_bit)
  finally show ?thesis unfolding m .
qed

lemma chunk_bytes_set_eq:
  assumes "length c = 8"
  shows "chunk_bytes_set (from_le_bytes c) = length (filter (\<lambda>b. b \<noteq> 0) c)"
proof (cases "from_le_bytes c = 0")
  case True
  then have "filter (\<lambda>b. b \<noteq> 0) c = []"
    using from_le_bytes_eq_0 [OF assms] by (simp add: filter_empty_conv)
  with True show ?thesis by (simp add: chunk_bytes_set_def)
next
  case False
  have "filter (\<lambda>k. from_le_bytes c AND push_bit (8 * k) 0xff \<noteq> 0) [0..<8] =
      filter (\<lambda>k. c ! k \<noteq> 0) [0..<8]"
    by (rule filter_cong) (use byte_of_chunk [OF assms] in auto)
  with False assms show ?thesis
    by (simp add: chunk_bytes_set_def word_gt_0 length_filter_nth [of _ c] del: upt_rec_numeral)
qed

lemma length_filter_sum_list: "length (filter P xs) = sum_list (map (\<lambda>x. of_bool (P x)) xs)"
  by (induction xs) auto

lemma bm_count_bytes_set_eq:
  assumes "bm_wf b"
  shows "bm_count_bytes_set b = length (filter (\<lambda>x. x \<noteq> 0) (bm_data b))"
  unfolding bm_count_bytes_set_def length_filter_sum_list
  by (rule sum_list_chunks8 [OF bm_wf_dvd [OF assms]])
    (simp add: chunk_bytes_set_eq length_filter_sum_list)

lemma count_ones_from_le_bytes:
  assumes "length c = 8"
  shows "count_ones (from_le_bytes c) = sum_list (map count_ones c)"
proof -
  have "count_ones (from_le_bytes c) =
      sum_list (map (\<lambda>j. length (filter (\<lambda>k. bit (from_le_bytes c) (8 * j + k)) [0..<8])) [0..<8])"
    using length_filter_upt8 [of "bit (from_le_bytes c)" 8]
    by (simp add: count_ones_def del: upt_rec_numeral)
  also have "\<dots> = sum_list (map (\<lambda>j. count_ones (c ! j)) [0..<8])"
    by (intro arg_cong [where f = sum_list] map_cong refl)
      (auto simp: count_ones_def bit_from_le_bytes [OF assms] simp del: upt_rec_numeral
        intro!: arg_cong [where f = length] filter_cong)
  also have "\<dots> = sum_list (map count_ones (map ((!) c) [0..<length c]))"
    using assms by (simp add: o_def del: upt_rec_numeral map_nth)
  finally show ?thesis by (simp add: map_nth)
qed

lemma bm_count_bits_set_eq:
  assumes "bm_wf b"
  shows "bm_count_bits_set b = sum_list (map count_ones (bm_data b))"
  unfolding bm_count_bits_set_def
  by (rule sum_list_chunks8 [OF bm_wf_dvd [OF assms]]) (rule count_ones_from_le_bytes)

section \<open>Minimised maps\<close>

lemma minimize_loop_bits:
  assumes "idx + length src \<le> 8 * length mem"
  shows "\<exists>mem'. minimize_loop idx src mem = Some mem' \<and> length mem' = length mem \<and>
     (\<forall>j<length mem. \<forall>k<8. bit (mem' ! j) k \<longleftrightarrow>
        bit (mem ! j) k \<or> idx \<le> 8 * j + k \<and> 8 * j + k < idx + length src \<and> src ! (8 * j + k - idx) \<noteq> 0)"
  using assms
proof (induction idx src mem rule: minimize_loop.induct)
  case (1 idx mem)
  then show ?case by auto
next
  case (2 idx b src mem)
  have idx: "idx div 8 < length mem" using 2(3) by simp
  define mem1 where "mem1 = (if b > 0 then mem[idx div 8 := mem ! (idx div 8) OR push_bit (idx mod 8) 1] else mem)"
  have l1: "length mem1 = length mem" by (simp add: mem1_def)
  have b1: "bit (mem1 ! j) k \<longleftrightarrow> bit (mem ! j) k \<or> (b \<noteq> 0 \<and> 8 * j + k = idx)"
    if "j < length mem" "k < 8" for j k
  proof -
    have "8 * j + k = idx \<longleftrightarrow> j = idx div 8 \<and> k = idx mod 8"
      using that(2) by (metis div_mult_self4 mod_div_trivial div_less add.right_neutral mod_mult_self4 mod_less mult_div_mod_eq zero_neq_numeral)
    then show ?thesis using that idx
      by (auto simp: mem1_def nth_list_update bit_or_iff bit_exp_u8 word_gt_0 simp flip: push_bit_eq_mult)
  qed
  have step: "minimize_loop idx (b # src) mem = minimize_loop (idx + 1) src mem1"
    using idx by (simp add: mem1_def)
  have "idx + 1 + length src \<le> 8 * length mem1" using 2(3) l1 by simp
  then obtain mem' where m: "minimize_loop (idx + 1) src mem1 = Some mem'" "length mem' = length mem1"
    and bits: "\<forall>j<length mem1. \<forall>k<8. bit (mem' ! j) k \<longleftrightarrow> bit (mem1 ! j) k \<or>
        idx + 1 \<le> 8 * j + k \<and> 8 * j + k < idx + 1 + length src \<and> src ! (8 * j + k - (idx + 1)) \<noteq> 0"
    using 2(1,2) idx by (cases "b > 0") (auto simp: mem1_def)
  have sh: "(n = idx \<and> b \<noteq> 0 \<or> idx + 1 \<le> n \<and> n < idx + 1 + length src \<and> src ! (n - (idx + 1)) \<noteq> 0) \<longleftrightarrow>
      idx \<le> n \<and> n < idx + length (b # src) \<and> (b # src) ! (n - idx) \<noteq> 0" for n
    by (cases "n = idx") (auto simp: nth_Cons')
  have "bit (mem' ! j) k \<longleftrightarrow> bit (mem ! j) k \<or> idx \<le> 8 * j + k \<and>
      8 * j + k < idx + length (b # src) \<and> (b # src) ! (8 * j + k - idx) \<noteq> 0"
    if "j < length mem" "k < 8" for j k
    using bits b1 [OF that] sh [of "8 * j + k"] that l1 by metis
  then show ?case
    using m l1 unfolding step by auto
qed

lemma bm_minimize_bits:
  assumes "bm_wf b" "64 \<le> bm_size b"
  obtains m where "bm_minimize b = Some m" "bm_wf m" "bm_size m = bm_size b div 8"
    "\<And>i. i < bm_size b \<Longrightarrow> bit (bm_data m ! (i div 8)) (i mod 8) \<longleftrightarrow> bm_data b ! i \<noteq> 0"
proof -
  let ?n = "bm_size b div 8"
  have d: "8 dvd bm_size b" "is_power_of_two ?n" "length (bm_data b) = bm_size b"
    using assms is_power_of_two_div8 [of "bm_size b"] by (simp_all add: bm_wf_def)
  have n: "8 \<le> ?n" using assms(2) by simp
  let ?new = "\<lparr>bm_shm_id = None, bm_data = replicate ?n 0, bm_fill_pattern = 0, bm_size = ?n\<rparr>"
  have new: "new_in_mem ?n 0 = Some ?new" using n d by (simp add: new_in_mem_def)
  have "0 + length (bm_data b) \<le> 8 * length (replicate ?n (0 :: u8))" using d by simp
  from minimize_loop_bits [OF this] obtain mem
    where mem: "minimize_loop 0 (bm_data b) (replicate ?n 0) = Some mem" "length mem = ?n"
      and bits: "\<forall>j<?n. \<forall>k<8. bit (mem ! j) k \<longleftrightarrow> 8 * j + k < bm_size b \<and> bm_data b ! (8 * j + k) \<noteq> 0"
    using d by auto
  show ?thesis
  proof (rule that)
    show "bm_minimize b = Some (?new\<lparr>bm_data := mem\<rparr>)"
      using new mem by (simp add: bm_minimize_def)
    fix i assume i: "i < bm_size b"
    then have "i div 8 < ?n" using d(1) by (simp add: div_less_dividend less_mult_imp_div_less)
    with bits i show "bit (bm_data (?new\<lparr>bm_data := mem\<rparr>) ! (i div 8)) (i mod 8) \<longleftrightarrow> bm_data b ! i \<noteq> 0"
      by simp
  qed (use mem n d in \<open>simp_all add: bm_wf_def\<close>)
qed

lemma sum_list_nth: "sum_list (map f xs) = sum_list (map (\<lambda>i. f (xs ! i)) [0..<length xs])"
proof -
  have "map f xs = map (\<lambda>i. f (xs ! i)) [0..<length xs]" by (rule nth_equalityI) simp_all
  then show ?thesis by simp
qed

lemma minimize_counts:
  assumes "bm_wf b" "bm_wf m" "bm_size b = 8 * bm_size m"
    and "\<And>i. i < bm_size b \<Longrightarrow> bit (bm_data m ! (i div 8)) (i mod 8) \<longleftrightarrow> bm_data b ! i \<noteq> 0"
  shows "bm_count_bits_set m = bm_count_bytes_set b"
proof -
  let ?n = "bm_size m"
  have l: "length (bm_data b) = 8 * ?n" "length (bm_data m) = ?n" using assms by (auto simp: bm_wf_def)
  have "bm_count_bytes_set b = length (filter (\<lambda>i. bm_data b ! i \<noteq> 0) [0..<8 * ?n])"
    unfolding bm_count_bytes_set_eq [OF assms(1)] by (subst length_filter_nth) (simp add: l)
  also have "\<dots> = sum_list (map (\<lambda>j. length (filter (\<lambda>k. bm_data b ! (8 * j + k) \<noteq> 0) [0..<8])) [0..<?n])"
    by (rule length_filter_upt8)
  also have "\<dots> = sum_list (map (\<lambda>j. count_ones (bm_data m ! j)) [0..<?n])"
  proof (intro arg_cong [where f = sum_list] map_cong refl)
    fix j assume "j \<in> set [0..<?n]"
    then have j: "j < ?n" by simp
    have "bm_data b ! (8 * j + k) \<noteq> 0 \<longleftrightarrow> bit (bm_data m ! j) k" if "k \<in> set [0..<8]" for k
      using assms(4) [of "8 * j + k"] that j assms(3) by simp
    then have "filter (\<lambda>k. bm_data b ! (8 * j + k) \<noteq> 0) [0..<8] = filter (bit (bm_data m ! j)) [0..<8]"
      by (rule filter_cong [OF refl])
    then show "length (filter (\<lambda>k. bm_data b ! (8 * j + k) \<noteq> 0) [0..<8]) = count_ones (bm_data m ! j)"
      by (simp add: count_ones_def del: upt_rec_numeral)
  qed
  also have "\<dots> = sum_list (map count_ones (bm_data m))" by (simp add: sum_list_nth [of count_ones] l)
  finally show ?thesis by (simp add: bm_count_bits_set_eq [OF assms(2)])
qed

lemma bm_edges_eq: "bm_edges b = filter (\<lambda>i. bm_data b ! i \<noteq> 0) [0..<length (bm_data b)]"
proof -
  have "enumerate 0 (bm_data b) = map (\<lambda>i. (i, bm_data b ! i)) [0..<length (bm_data b)]"
    by (rule nth_equalityI) (simp_all add: nth_enumerate_eq)
  then show ?thesis by (simp add: bm_edges_def filter_map o_def word_gt_0)
qed

section \<open>The hash\<close>

lemma mult_cancel_u64:
  assumes "c * d = (1 :: u64)" "x * c = y * c"
  shows "x = y"
proof -
  have "x * c * d = y * c * d" using assms(2) by simp
  then show ?thesis using assms(1) by (simp add: mult.assoc)
qed

lemma hash_mult_inj:
  "x * 0x87c37b91114253d5 = y * 0x87c37b91114253d5 \<Longrightarrow> x = (y :: u64)"
  "x * 0x4cf5ad432745937f = y * 0x4cf5ad432745937f \<Longrightarrow> x = (y :: u64)"
  "x * 5 = y * 5 \<Longrightarrow> x = (y :: u64)"
  "x * 0xff51afd7ed558ccd = y * 0xff51afd7ed558ccd \<Longrightarrow> x = (y :: u64)"
  "x * 0xc4ceb9fe1a85ec53 = y * 0xc4ceb9fe1a85ec53 \<Longrightarrow> x = (y :: u64)"
proof -
  have i: "(0x87c37b91114253d5 * 0xa98409e882ce4d7d :: u64) = 1"
    "(0x4cf5ad432745937f * 0xa81e14edd9de2c7f :: u64) = 1"
    "(5 * 0xcccccccccccccccd :: u64) = 1"
    "(0xff51afd7ed558ccd * 0x4f74430c22a54005 :: u64) = 1"
    "(0xc4ceb9fe1a85ec53 * 0x9cb4b2f8129337db :: u64) = 1"
    by simp_all
  show "x * 0x87c37b91114253d5 = y * 0x87c37b91114253d5 \<Longrightarrow> x = y"
    by (rule mult_cancel_u64 [OF i(1)])
  show "x * 0x4cf5ad432745937f = y * 0x4cf5ad432745937f \<Longrightarrow> x = y"
    by (rule mult_cancel_u64 [OF i(2)])
  show "x * 5 = y * 5 \<Longrightarrow> x = y"
    by (rule mult_cancel_u64 [OF i(3)])
  show "x * 0xff51afd7ed558ccd = y * 0xff51afd7ed558ccd \<Longrightarrow> x = y"
    by (rule mult_cancel_u64 [OF i(4)])
  show "x * 0xc4ceb9fe1a85ec53 = y * 0xc4ceb9fe1a85ec53 \<Longrightarrow> x = y"
    by (rule mult_cancel_u64 [OF i(5)])
qed

lemma word_rotl_inj:
  assumes "word_rotl n x = word_rotl n y"
  shows "x = y"
proof -
  have "word_rotr n (word_rotl n x) = word_rotr n (word_rotl n y)" using assms by simp
  then show ?thesis by simp
qed

lemma xor_cancel_u64:
  assumes "(x :: u64) XOR y = x XOR z"
  shows "y = z"
proof -
  have "x XOR (x XOR y) = x XOR (x XOR z)" using assms by simp
  then show ?thesis by simp
qed

lemma xorshift33_inj:
  assumes "(x :: u64) XOR drop_bit 33 x = y XOR drop_bit 33 y"
  shows "x = y"
proof -
  have inv: "(z XOR drop_bit 33 z) XOR drop_bit 33 (z XOR drop_bit 33 z) = z" for z :: u64
    by (rule bit_word_eqI) (auto simp: bit_xor_iff bit_drop_bit_eq dest: bit_imp_le_length)
  show ?thesis using inv [of x] inv [of y] assms by simp
qed

lemma hash_step_inj_chunk: "hash_step h k = hash_step h k' \<Longrightarrow> k = k'"
  unfolding hash_step_def Let_def
  by (drule add_right_imp_eq, drule hash_mult_inj(3), drule word_rotl_inj, drule xor_cancel_u64,
      drule hash_mult_inj(2), drule word_rotl_inj, erule hash_mult_inj(1))

lemma hash_step_inj_state: "hash_step h k = hash_step h' k \<Longrightarrow> h = h'"
  unfolding hash_step_def Let_def xor.commute [of _ "_ * _"]
  by (drule add_right_imp_eq, drule hash_mult_inj(3), drule word_rotl_inj, erule xor_cancel_u64)

lemma hash_final_inj: "hash_final h = hash_final h' \<Longrightarrow> h = h'"
  unfolding hash_final_def Let_def
  by (drule xorshift33_inj, drule hash_mult_inj(5), drule xorshift33_inj, drule hash_mult_inj(4),
      erule xorshift33_inj)

lemma foldl_hash_inj_state:
  "foldl (\<lambda>h c. hash_step h (from_le_bytes c)) h cs = foldl (\<lambda>h c. hash_step h (from_le_bytes c)) h' cs
     \<Longrightarrow> h = h'"
  by (induction cs arbitrary: h h') (auto dest: hash_step_inj_state)

lemma from_le_bytes_inj:
  "length a = 8 \<Longrightarrow> length b = 8 \<Longrightarrow> from_le_bytes a = from_le_bytes b \<Longrightarrow> a = b"
  by (metis to_from_le_bytes)

lemma foldl_hash_one_chunk:
  assumes "length c = 8" "length d = 8"
    and "foldl (\<lambda>h c. hash_step h (from_le_bytes c)) h (pre @ c # post) =
         foldl (\<lambda>h c. hash_step h (from_le_bytes c)) h (pre @ d # post)"
  shows "c = d"
proof -
  let ?f = "foldl (\<lambda>h c. hash_step h (from_le_bytes c))"
  have "hash_step (?f h pre) (from_le_bytes c) = hash_step (?f h pre) (from_le_bytes d)"
    by (rule foldl_hash_inj_state [of _ post]) (use assms(3) in simp)
  then show ?thesis using from_le_bytes_inj [OF assms(1,2)] hash_step_inj_chunk by blast
qed

section \<open>Properties\<close>

lemma new_at_nth:
  assumes "length v = length s"
  shows "new_edge_at s v \<longleftrightarrow> (\<exists>i<length s. s ! i \<noteq> 0 \<and> v ! i = 0xff)"
    "new_hit_at s v \<longleftrightarrow> (\<exists>i<length s. s ! i AND v ! i \<noteq> 0)"
  unfolding new_edge_at_def new_hit_at_def using assms by (force simp: set_zip)+

lemma cleared_no_hit:
  assumes "length v = length s"
  shows "\<not> new_hit_at s (map2 (\<lambda>s v. v AND NOT s) s v)"
    "map2 (\<lambda>s v. v AND NOT s) s (map2 (\<lambda>s v. v AND NOT s) s v) = map2 (\<lambda>s v. v AND NOT s) s v"
proof -
  have z: "x AND (y AND NOT x) = (0 :: u8)" for x y
    by (rule u8_eqI) (auto simp: bit_and_iff bit_not_iff)
  show "\<not> new_hit_at s (map2 (\<lambda>s v. v AND NOT s) s v)"
    using assms z by (simp add: new_at_nth)
  show "map2 (\<lambda>s v. v AND NOT s) s (map2 (\<lambda>s v. v AND NOT s) s v) = map2 (\<lambda>s v. v AND NOT s) s v"
    using assms z by (intro nth_equalityI) (simp_all add: and_zero_and_not)
qed

text \<open>
  C1: \<^verbatim>\<open>has_new_bit\<close> clears in the virgin map exactly the bits the run has set; it reports
  \<^verbatim>\<open>NewEdge\<close> exactly when some byte of the run hits an untouched virgin byte, some change exactly
  when a bit of the run is still virgin, and a second call with the same run reports no change
  and leaves the virgin map as it is.
\<close>

theorem has_new_bit_correct:
  assumes "bm_wf b" "bm_wf virgin" "bm_size virgin = bm_size b"
    and "has_new_bit b virgin = (st, v')"
  shows "bm_wf v' \<and>
    (\<forall>i. bm_index v' i = (case (bm_index virgin i, bm_index b i) of
           (Some v, Some s) \<Rightarrow> Some (v AND NOT s) | _ \<Rightarrow> None)) \<and>
    (st = NewEdge \<longleftrightarrow> (\<exists>i<bm_size b. bm_data b ! i \<noteq> 0 \<and> bm_data virgin ! i = 0xff)) \<and>
    (st = NoChange \<longleftrightarrow> (\<forall>i<bm_size b. bm_data b ! i AND bm_data virgin ! i = 0)) \<and>
    has_new_bit b v' = (NoChange, v')"
proof -
  let ?s = "bm_data b" and ?v = "bm_data virgin"
  let ?w = "map2 (\<lambda>s v. v AND NOT s) ?s ?v"
  have l: "length ?v = length ?s" "length ?s = bm_size b" using assms by (auto simp: bm_wf_def)
  from assms(4) has_new_bit_eq [OF assms(1-3)]
  have v': "v' = virgin\<lparr>bm_data := ?w\<rparr>"
    and st: "st = (if new_edge_at ?s ?v then NewEdge else if new_hit_at ?s ?v then NewHit else NoChange)"
    by auto
  have wf: "bm_wf v'" using assms(2) l by (simp add: v' bm_wf_def)
  have "\<not> new_hit_at ?s ?w" "map2 (\<lambda>s v. v AND NOT s) ?s ?w = ?w"
    by (rule cleared_no_hit [OF l(1)])+
  then have again: "has_new_bit b v' = (NoChange, v')"
    using has_new_bit_eq [OF assms(1) wf] assms(3) new_edge_imp_hit [of ?s ?w] by (auto simp: v')
  have idx: "bm_index v' i = (case (bm_index virgin i, bm_index b i) of
      (Some v, Some s) \<Rightarrow> Some (v AND NOT s) | _ \<Rightarrow> None)" for i
    using l by (simp add: bm_index_def v')
  show ?thesis
    using wf idx again st new_edge_imp_hit [of ?s ?v] new_at_nth [OF l(1)] l(2) by auto
qed

theorem has_new_bit_correct_witness:
  "has_new_bit \<lparr>bm_shm_id = None, bm_data = [1, 0, 2, 0, 0, 0, 0, 0], bm_fill_pattern = 0, bm_size = 8\<rparr>
     \<lparr>bm_shm_id = None, bm_data = [0xff, 0xff, 3, 0, 0, 0, 0, 0], bm_fill_pattern = 0xff, bm_size = 8\<rparr> =
     (NewEdge, \<lparr>bm_shm_id = None, bm_data = [0xfe, 0xff, 1, 0, 0, 0, 0, 0], bm_fill_pattern = 0xff, bm_size = 8\<rparr>) \<and>
   has_new_bit \<lparr>bm_shm_id = None, bm_data = [1, 0, 2, 0, 0, 0, 0, 0], bm_fill_pattern = 0, bm_size = 8\<rparr>
     \<lparr>bm_shm_id = None, bm_data = [0xfe, 0xff, 1, 0, 0, 0, 0, 0], bm_fill_pattern = 0xff, bm_size = 8\<rparr> =
     (NoChange, \<lparr>bm_shm_id = None, bm_data = [0xfe, 0xff, 1, 0, 0, 0, 0, 0], bm_fill_pattern = 0xff, bm_size = 8\<rparr>)"
proof -
  let ?b = "\<lparr>bm_shm_id = None, bm_data = [1, 0, 2, 0, 0, 0, 0, 0], bm_fill_pattern = 0, bm_size = 8\<rparr>"
  let ?v = "\<lparr>bm_shm_id = None, bm_data = [0xff, 0xff, 3, 0, 0, 0, 0, 0], bm_fill_pattern = 0xff, bm_size = 8\<rparr>"
  have run: "has_new_bit ?b ?v =
     (NewEdge, \<lparr>bm_shm_id = None, bm_data = [0xfe, 0xff, 1, 0, 0, 0, 0, 0], bm_fill_pattern = 0xff, bm_size = 8\<rparr>)"
    by code_simp
  have wf: "bm_wf ?b" "bm_wf ?v" "bm_size ?v = bm_size ?b" by code_simp+
  from has_new_bit_correct [OF wf run] run show ?thesis by blast
qed

lemma count_ones_bucket: "count_ones (bucket b) = of_bool (b \<noteq> 0)"
proof -
  have "count_ones (0 :: u8) = 0" "count_ones (1 :: u8) = 1" "count_ones (2 :: u8) = 1"
    "count_ones (4 :: u8) = 1" "count_ones (8 :: u8) = 1" "count_ones (16 :: u8) = 1"
    "count_ones (32 :: u8) = 1" "count_ones (64 :: u8) = 1" "count_ones (128 :: u8) = 1"
    by code_simp+
  then show ?thesis by (simp add: bucket_def)
qed

text \<open>
  C27: \<^verbatim>\<open>classify_counts\<close> never panics and replaces every hit count by its bucket, through the 16-bit
  lookup table: it keeps the set of hit edges, and afterwards each hit edge has exactly one bit
  set, so counting bits counts edges.
\<close>

theorem classify_counts_correct:
  assumes "bm_wf b"
  shows "\<exists>c. classify_counts b = Some c \<and> bm_wf c \<and> bm_data c = map bucket (bm_data b) \<and>
    bm_edges c = bm_edges b \<and> bm_count_bits_set c = bm_count_bytes_set b"
proof -
  let ?c = "b\<lparr>bm_data := map bucket (bm_data b)\<rparr>"
  have wf: "bm_wf ?c" using assms by (simp add: bm_wf_def)
  have "bm_edges ?c = bm_edges b" by (auto simp: bm_edges_eq intro!: filter_cong)
  moreover have "bm_count_bits_set ?c = bm_count_bytes_set b"
    by (simp add: bm_count_bits_set_eq [OF wf] bm_count_bytes_set_eq [OF assms]
        length_filter_sum_list o_def count_ones_bucket)
  ultimately show ?thesis using classify_counts_eq [OF assms] wf by auto
qed

theorem classify_counts_correct_witness:
  "\<exists>c. classify_counts \<lparr>bm_shm_id = None, bm_data = [0, 1, 2, 3, 7, 31, 127, 255], bm_fill_pattern = 0, bm_size = 8\<rparr> = Some c \<and>
     bm_data c = [0, 1, 2, 4, 8, 32, 64, 128] \<and> bm_count_bits_set c = 7"
proof -
  let ?b = "\<lparr>bm_shm_id = None, bm_data = [0, 1, 2, 3, 7, 31, 127, 255], bm_fill_pattern = 0, bm_size = 8\<rparr>"
  have "bm_wf ?b" by code_simp
  moreover have "map bucket (bm_data ?b) = [0, 1, 2, 4, 8, 32, 64, 128]" by code_simp
  moreover have "bm_count_bytes_set ?b = 7" by code_simp
  ultimately show ?thesis using classify_counts_correct [of ?b] by auto
qed

text \<open>
  C28: \<^verbatim>\<open>minimize\<close> turns a map of at least 64 bytes into the well-formed map of an eighth of its size in
  which bit \<open>i\<close> is set exactly when byte \<open>i\<close> was hit, so the number of bits set is the number of
  edges hit; on a smaller map it panics.
\<close>

theorem minimize_correct:
  assumes "bm_wf b"
  shows "case bm_minimize b of
      None \<Rightarrow> bm_size b < 64
    | Some m \<Rightarrow> 64 \<le> bm_size b \<and> bm_wf m \<and> bm_size m = bm_size b div 8 \<and>
        (\<forall>i<bm_size b. bit (bm_data m ! (i div 8)) (i mod 8) \<longleftrightarrow> i \<in> set (bm_edges b)) \<and>
        bm_count_bits_set m = length (bm_edges b)"
proof (cases "64 \<le> bm_size b")
  case True
  obtain m where m: "bm_minimize b = Some m" "bm_wf m" "bm_size m = bm_size b div 8"
    "\<And>i. i < bm_size b \<Longrightarrow> bit (bm_data m ! (i div 8)) (i mod 8) \<longleftrightarrow> bm_data b ! i \<noteq> 0"
    using bm_minimize_bits [OF assms True] by metis
  have l: "length (bm_data b) = bm_size b" using assms by (simp add: bm_wf_def)
  have "bm_size b = 8 * bm_size m" using m(3) bm_wf_dvd [OF assms] l by simp
  then have "bm_count_bits_set m = bm_count_bytes_set b" by (rule minimize_counts [OF assms m(2)]) (rule m(4))
  also have "\<dots> = length (bm_edges b)"
    unfolding bm_count_bytes_set_eq [OF assms] bm_edges_eq by (rule length_filter_nth)
  finally show ?thesis using True m l by (auto simp: bm_edges_eq)
next
  case False
  then have "\<not> 8 \<le> bm_size b div 8" by linarith
  then have "bm_minimize b = None" by (simp add: bm_minimize_def new_in_mem_def)
  then show ?thesis using False by simp
qed

theorem minimize_correct_witness:
  "\<exists>m. bm_minimize \<lparr>bm_shm_id = None, bm_data = replicate 9 0 @ [3, 1] @ replicate 53 0,
       bm_fill_pattern = 0, bm_size = 64\<rparr> = Some m \<and> bm_count_bits_set m = 2"
proof -
  let ?b = "\<lparr>bm_shm_id = None, bm_data = replicate 9 0 @ [3, 1] @ replicate 53 0, bm_fill_pattern = 0, bm_size = 64\<rparr> :: bitmap"
  have wf: "bm_wf ?b" by code_simp
  have e: "length (bm_edges ?b) = 2" by code_simp
  have "bm_size ?b = 64" by simp
  with minimize_correct [OF wf] e show ?thesis by (auto split: option.splits)
qed

text \<open>
  The 64-bit state that \<^verbatim>\<open>hash32\<close> truncates separates maps that differ in one aligned
  chunk of eight bytes: no two such maps collide before the truncation, whatever the rest is.
\<close>

theorem hash_state_separates:
  assumes "chunks8 (bm_data a) = pre @ c # post" "chunks8 (bm_data b) = pre @ d # post"
    and "length (bm_data a) = length (bm_data b)" "length c = 8" "length d = 8" "c \<noteq> d"
  shows "bm_hash_state a \<noteq> bm_hash_state b"
proof
  assume "bm_hash_state a = bm_hash_state b"
  then have "foldl (\<lambda>h c. hash_step h (from_le_bytes c))
       (of_nat (length (bm_data b)) XOR 0xef8e8af80708ef32) (pre @ c # post) =
     foldl (\<lambda>h c. hash_step h (from_le_bytes c))
       (of_nat (length (bm_data b)) XOR 0xef8e8af80708ef32) (pre @ d # post)"
    unfolding bm_hash_state_def Let_def assms(1-3) by (rule hash_final_inj)
  from foldl_hash_one_chunk [OF assms(4,5) this] assms(6) show False by simp
qed

theorem hash_state_separates_witness:
  "bm_hash_state \<lparr>bm_shm_id = None, bm_data = replicate 8 1 @ replicate 8 0, bm_fill_pattern = 0, bm_size = 16\<rparr> \<noteq>
   bm_hash_state \<lparr>bm_shm_id = None, bm_data = replicate 8 2 @ replicate 8 0, bm_fill_pattern = 0, bm_size = 16\<rparr>"
  by (rule hash_state_separates [where pre = "[]" and c = "replicate 8 1" and d = "replicate 8 2" and post = "[replicate 8 0]"])
    code_simp+

end
