(* ===== verification/Mutators.thy ===== *)
theory Mutators
  imports FT_Prelude
begin

text \<open>
  The mutators of the fuzzing worker (\<^verbatim>\<open>scheduler/src/fuzzer/worker_impl/mutators.rs\<close>). A mutator
  borrows a mask buffer; each call of \<^verbatim>\<open>next\<close> reverts the previous mutation and applies the next
  one, and dropping it leaves the buffer as it was.

  \<^verbatim>\<open>next\<close> is a function from the random numbers and clock readings of the call and the state to
  \<^term>\<open>Some (y, m')\<close>, where \<open>y\<close> says whether it yielded, or to \<^term>\<open>None\<close> when the code panics.
  \<^verbatim>\<open>Drop\<close> is a function that returns the final buffer in the state.
\<close>

datatype mutator_type =
    MT_Nop | MT_FlipBit | MT_FlipByte | MT_FlipOnce | MT_RandomBit nat | MT_RandomByte nat
  | MT_U8Counter | MT_Havoc | MT_Combine

text \<open>
  What one call of \<^verbatim>\<open>next\<close> reads from \<^verbatim>\<open>rand::thread_rng\<close> and from the clock: the index drawn by
  \<^verbatim>\<open>gen_range\<close>, a \<^verbatim>\<open>usize\<close>, the first \<^verbatim>\<open>u8\<close>, further \<^verbatim>\<open>u8\<close>s, and the times (in nanoseconds) of
  \<^verbatim>\<open>Instant::now\<close> and of \<^verbatim>\<open>elapsed\<close>.
\<close>

record env =
  e_idx :: nat
  e_usize :: u64
  e_u8 :: u8
  e_bytes :: "nat \<Rightarrow> u8"
  e_now :: nat
  e_now2 :: nat

text \<open>\<^verbatim>\<open>if let Some(idx) = last.take() { buffer[idx] = saved }\<close>\<close>

definition revert_byte :: "nat option \<Rightarrow> u8 \<Rightarrow> u8 list \<Rightarrow> u8 list option" where
  "revert_byte lst saved buffer = (case lst of
     None \<Rightarrow> Some buffer
   | Some idx \<Rightarrow> if idx < length buffer then Some (buffer[idx := saved]) else None)"

text \<open>\<^verbatim>\<open>buffer[idx..(idx + src.len())].copy_from_slice(src)\<close>\<close>

definition copy_to_slice :: "u8 list \<Rightarrow> nat \<Rightarrow> u8 list \<Rightarrow> u8 list option" where
  "copy_to_slice buffer idx src =
     (if idx + length src \<le> length buffer
      then Some (take idx buffer @ src @ drop (idx + length src) buffer) else None)"

definition revert_slice :: "nat option \<Rightarrow> u8 list \<Rightarrow> u8 list \<Rightarrow> u8 list option" where
  "revert_slice lst saved buffer = (case lst of
     None \<Rightarrow> Some buffer
   | Some idx \<Rightarrow> copy_to_slice buffer idx saved)"

section \<open>RandomBit\<close>

record random_bit =
  rbit_buffer :: "u8 list"
  rbit_current_step :: nat
  rbit_max_step :: nat
  rbit_last_idx :: "nat option"
  rbit_saved_byte :: u8

definition random_bit_new :: "nat \<Rightarrow> u8 list \<Rightarrow> nat \<Rightarrow> random_bit option" where
  "random_bit_new N buffer steps = do {
     require (N = 1);
     Some \<lparr>rbit_buffer = buffer, rbit_current_step = 0, rbit_max_step = steps,
           rbit_last_idx = None, rbit_saved_byte = 0\<rparr> }"

definition random_bit_next :: "env \<Rightarrow> random_bit \<Rightarrow> (bool \<times> random_bit) option" where
  "random_bit_next e m = do {
     buffer \<leftarrow> revert_byte (rbit_last_idx m) (rbit_saved_byte m) (rbit_buffer m);
     let m = m\<lparr>rbit_buffer := buffer, rbit_last_idx := None\<rparr>;
     if rbit_current_step m = rbit_max_step m then Some (False, m) else do {
       require (0 < length buffer);
       let target_idx = e_idx e;
       require (target_idx < length buffer);
       let byte = buffer ! target_idx;
       Some (True, m\<lparr>rbit_saved_byte := byte,
         rbit_buffer := buffer[target_idx := byte XOR push_bit (unat (e_u8 e mod 8)) 1],
         rbit_last_idx := Some target_idx,
         rbit_current_step := rbit_current_step m + 1\<rparr>) } }"

definition random_bit_drop :: "random_bit \<Rightarrow> random_bit option" where
  "random_bit_drop m = do {
     buffer \<leftarrow> revert_byte (rbit_last_idx m) (rbit_saved_byte m) (rbit_buffer m);
     Some (m\<lparr>rbit_buffer := buffer, rbit_last_idx := None\<rparr>) }"

section \<open>RandomByte\<close>

text \<open>The constant parameter \<^verbatim>\<open>N\<close> is the length of \<open>saved_bytes\<close>.\<close>

record random_byte =
  rbyte_buffer :: "u8 list"
  rbyte_current_step :: nat
  rbyte_max_step :: nat
  rbyte_last_idx :: "nat option"
  rbyte_saved_bytes :: "u8 list"

definition random_byte_new :: "nat \<Rightarrow> u8 list \<Rightarrow> nat \<Rightarrow> random_byte option" where
  "random_byte_new N buffer steps = (if length buffer < N then None
     else Some \<lparr>rbyte_buffer = buffer, rbyte_current_step = 0, rbyte_max_step = steps,
                rbyte_last_idx = None, rbyte_saved_bytes = replicate N 0\<rparr>)"

definition random_byte_next :: "env \<Rightarrow> random_byte \<Rightarrow> (bool \<times> random_byte) option" where
  "random_byte_next e m = do {
     let N = length (rbyte_saved_bytes m);
     buffer \<leftarrow> revert_slice (rbyte_last_idx m) (rbyte_saved_bytes m) (rbyte_buffer m);
     let m = m\<lparr>rbyte_buffer := buffer, rbyte_last_idx := None\<rparr>;
     if rbyte_current_step m = rbyte_max_step m then Some (False, m) else do {
       require (N \<le> length buffer);
       let last_idx = e_idx e;
       require (last_idx \<le> length buffer - N);
       let saved = take N (drop last_idx buffer);
       buffer' \<leftarrow> copy_to_slice buffer last_idx (map2 (XOR) saved (map (e_bytes e) [0..<N]));
       Some (True, m\<lparr>rbyte_saved_bytes := saved, rbyte_buffer := buffer',
         rbyte_last_idx := Some last_idx,
         rbyte_current_step := rbyte_current_step m + 1\<rparr>) } }"

definition random_byte_drop :: "random_byte \<Rightarrow> random_byte option" where
  "random_byte_drop m = do {
     buffer \<leftarrow> revert_slice (rbyte_last_idx m) (rbyte_saved_bytes m) (rbyte_buffer m);
     Some (m\<lparr>rbyte_buffer := buffer, rbyte_last_idx := None\<rparr>) }"

section \<open>FlipByte\<close>

record flip_byte =
  fbyte_buffer :: "u8 list"
  fbyte_next_idx :: nat
  fbyte_last_idx :: "nat option"
  fbyte_orig_byte :: u8

definition flip_byte_new :: "u8 list \<Rightarrow> flip_byte" where
  "flip_byte_new buffer = \<lparr>fbyte_buffer = buffer, fbyte_next_idx = 0, fbyte_last_idx = None,
     fbyte_orig_byte = 0\<rparr>"

definition flip_byte_next :: "flip_byte \<Rightarrow> (bool \<times> flip_byte) option" where
  "flip_byte_next m = do {
     buffer \<leftarrow> revert_byte (fbyte_last_idx m) (fbyte_orig_byte m) (fbyte_buffer m);
     let m = m\<lparr>fbyte_buffer := buffer, fbyte_last_idx := None\<rparr>;
     let i = fbyte_next_idx m;
     if i = length buffer then Some (False, m) else do {
       require (i < length buffer);
       Some (True, m\<lparr>fbyte_orig_byte := buffer ! i,
         fbyte_buffer := buffer[i := buffer ! i XOR 0xff],
         fbyte_last_idx := Some i, fbyte_next_idx := i + 1\<rparr>) } }"

definition flip_byte_drop :: "flip_byte \<Rightarrow> flip_byte option" where
  "flip_byte_drop m = do {
     buffer \<leftarrow> revert_byte (fbyte_last_idx m) (fbyte_orig_byte m) (fbyte_buffer m);
     Some (m\<lparr>fbyte_buffer := buffer, fbyte_last_idx := None\<rparr>) }"

section \<open>FlipBit\<close>

record flip_bit_mut =
  fbit_buffer :: "u8 list"
  fbit_size_in_bits :: nat
  fbit_next_bit :: nat
  fbit_last_byte_idx :: "nat option"
  fbit_last_byte_orig_value :: u8

definition flip_bit_new :: "u8 list \<Rightarrow> flip_bit_mut" where
  "flip_bit_new buffer = \<lparr>fbit_buffer = buffer, fbit_size_in_bits = length buffer * 8,
     fbit_next_bit = 0, fbit_last_byte_idx = None, fbit_last_byte_orig_value = 0\<rparr>"

definition flip_bit_next :: "flip_bit_mut \<Rightarrow> (bool \<times> flip_bit_mut) option" where
  "flip_bit_next m = do {
     buffer \<leftarrow> revert_byte (fbit_last_byte_idx m) (fbit_last_byte_orig_value m) (fbit_buffer m);
     let m = m\<lparr>fbit_buffer := buffer, fbit_last_byte_idx := None\<rparr>;
     let n = fbit_next_bit m;
     if n = fbit_size_in_bits m then Some (False, m) else do {
       require (n div 8 < length buffer);
       Some (True, m\<lparr>fbit_last_byte_orig_value := buffer ! (n div 8),
         fbit_last_byte_idx := Some (n div 8),
         fbit_buffer := buffer[n div 8 := buffer ! (n div 8) XOR push_bit (n mod 8) 1],
         fbit_next_bit := n + 1\<rparr>) } }"

definition flip_bit_drop :: "flip_bit_mut \<Rightarrow> flip_bit_mut option" where
  "flip_bit_drop m = do {
     buffer \<leftarrow> revert_byte (fbit_last_byte_idx m) (fbit_last_byte_orig_value m) (fbit_buffer m);
     Some (m\<lparr>fbit_buffer := buffer, fbit_last_byte_idx := None\<rparr>) }"

section \<open>U8Counter\<close>

record u8_counter =
  ctr_buffer :: "u8 list"
  ctr_next_byte :: nat
  ctr_last_byte_idx :: "nat option"
  ctr_last_byte_orig_value :: u8
  ctr_ctr :: u8

definition u8_counter_new :: "u8 list \<Rightarrow> u8_counter" where
  "u8_counter_new buffer = \<lparr>ctr_buffer = buffer, ctr_next_byte = 0, ctr_last_byte_idx = None,
     ctr_last_byte_orig_value = 0, ctr_ctr = 0\<rparr>"

text \<open>\<^verbatim>\<open>u8::checked_add\<close>: the sum wrapped around exactly when it is below the first operand.\<close>

definition u8_checked_add :: "u8 \<Rightarrow> u8 \<Rightarrow> u8 option" where
  "u8_checked_add c k = (let s = c + k in if s < c then None else Some s)"

definition u8_counter_next :: "u8_counter \<Rightarrow> (bool \<times> u8_counter) option" where
  "u8_counter_next m = do {
     buffer \<leftarrow> revert_byte (ctr_last_byte_idx m) (ctr_last_byte_orig_value m) (ctr_buffer m);
     let m = m\<lparr>ctr_buffer := buffer, ctr_last_byte_idx := None\<rparr>;
     let i = ctr_next_byte m;
     if i = length buffer then Some (False, m) else do {
       require (i < length buffer);
       let m = m\<lparr>ctr_last_byte_orig_value := buffer ! i, ctr_last_byte_idx := Some i,
                 ctr_buffer := buffer[i := buffer ! i XOR ctr_ctr m]\<rparr>;
       Some (True, case u8_checked_add (ctr_ctr m) 1 of
           Some v \<Rightarrow> m\<lparr>ctr_ctr := v\<rparr>
         | None \<Rightarrow> m\<lparr>ctr_ctr := 0, ctr_next_byte := i + 1\<rparr>) } }"

definition u8_counter_drop :: "u8_counter \<Rightarrow> u8_counter option" where
  "u8_counter_drop m = do {
     buffer \<leftarrow> revert_byte (ctr_last_byte_idx m) (ctr_last_byte_orig_value m) (ctr_buffer m);
     Some (m\<lparr>ctr_buffer := buffer, ctr_last_byte_idx := None\<rparr>) }"

section \<open>Havoc\<close>

datatype havoc_mutation_type = H_FlipBit | H_FlipByte | H_RandomByte | H_InterestingValue

definition havoc_of_u8 :: "u8 \<Rightarrow> havoc_mutation_type option" where
  "havoc_of_u8 value = (if value = 0 then Some H_FlipBit else if value = 1 then Some H_FlipByte
     else if value = 2 then Some H_RandomByte else if value = 3 then Some H_InterestingValue
     else None)"

definition INTERESTING_VALUES :: "u8 list" where
  "INTERESTING_VALUES = [0x80, 0x1, 0x0, 0x2]"

record havoc =
  hv_buffer :: "u8 list"
  hv_orig_buffer :: "u8 list"
  hv_steps_done :: nat
  hv_max_stacks :: nat
  hv_repetitions :: nat
  hv_steps_total :: nat

definition havoc_new :: "u8 list \<Rightarrow> nat \<Rightarrow> nat \<Rightarrow> havoc" where
  "havoc_new buffer max_stacks repetitions = \<lparr>hv_buffer = buffer, hv_orig_buffer = buffer,
     hv_steps_done = 0, hv_max_stacks = max_stacks, hv_repetitions = repetitions,
     hv_steps_total = max_stacks * repetitions\<rparr>"

text \<open>\<^verbatim>\<open>buffer.copy_from_slice(src)\<close>\<close>

definition copy_from_slice :: "u8 list \<Rightarrow> u8 list \<Rightarrow> u8 list option" where
  "copy_from_slice buffer src = (if length src = length buffer then Some src else None)"

definition havoc_mutate :: "env \<Rightarrow> u8 list \<Rightarrow> u8 list option" where
  "havoc_mutate e buffer = do {
     ty \<leftarrow> havoc_of_u8 (e_u8 e mod 4);
     let random_idx = unat (e_usize e);
     case ty of
       H_FlipBit \<Rightarrow> do {
         require (length buffer \<noteq> 0);
         let idx = (random_idx div 8) mod length buffer;
         Some (buffer[idx := buffer ! idx XOR push_bit (random_idx mod 8) 1]) }
     | H_FlipByte \<Rightarrow> do {
         require (length buffer \<noteq> 0);
         let idx = random_idx mod length buffer;
         Some (buffer[idx := buffer ! idx XOR 0xff]) }
     | H_RandomByte \<Rightarrow> do {
         require (length buffer \<noteq> 0);
         Some (buffer[random_idx mod length buffer := e_bytes e 0]) }
     | H_InterestingValue \<Rightarrow> do {
         let idx = random_idx mod length INTERESTING_VALUES;
         Some (map (\<lambda>_. INTERESTING_VALUES ! idx) buffer) } }"

definition havoc_next :: "env \<Rightarrow> havoc \<Rightarrow> (bool \<times> havoc) option" where
  "havoc_next e m =
     (if hv_steps_done m = hv_steps_total m then do {
        buffer \<leftarrow> copy_from_slice (hv_buffer m) (hv_orig_buffer m);
        Some (False, m\<lparr>hv_buffer := buffer\<rparr>) }
      else do {
        require (hv_steps_done m > 0 \<longrightarrow> hv_max_stacks m \<noteq> 0);
        buffer \<leftarrow> (if hv_steps_done m > 0 \<and> hv_steps_done m mod hv_max_stacks m = 0
                  then copy_from_slice (hv_buffer m) (hv_orig_buffer m) else Some (hv_buffer m));
        buffer \<leftarrow> havoc_mutate e buffer;
        Some (True, m\<lparr>hv_buffer := buffer, hv_steps_done := hv_steps_done m + 1\<rparr>) })"

definition havoc_drop :: "havoc \<Rightarrow> havoc option" where
  "havoc_drop m = do {
     buffer \<leftarrow> copy_from_slice (hv_buffer m) (hv_orig_buffer m);
     Some (m\<lparr>hv_buffer := buffer\<rparr>) }"

section \<open>Nop, CombineMutator and FlipOnce\<close>

record nop =
  nop_steps :: nat
  nop_steps_done :: nat

definition nop_new :: "nat \<Rightarrow> nop" where
  "nop_new steps = \<lparr>nop_steps = steps, nop_steps_done = 0\<rparr>"

definition nop_next :: "nop \<Rightarrow> (bool \<times> nop) option" where
  "nop_next m = Some (if nop_steps m = 0 then (False, m)
     else (True, m\<lparr>nop_steps := nop_steps m - 1\<rparr>))"

record combine_mutator =
  cm_steps :: nat
  cm_steps_done :: nat
  cm_msks :: "u8 list list"
  cm_buffer :: "u8 list"
  cm_buffer_original :: "u8 list"
  cm_one_shot :: bool

definition combine_new :: "u8 list \<Rightarrow> u8 list list \<Rightarrow> bool \<Rightarrow> combine_mutator" where
  "combine_new buffer msks one_shot = \<lparr>cm_steps = length msks, cm_steps_done = 0, cm_msks = msks,
     cm_buffer = buffer, cm_buffer_original = buffer, cm_one_shot = one_shot\<rparr>"

text \<open>\<^verbatim>\<open>Vec::pop\<close> takes the last mask.\<close>

definition combine_next :: "combine_mutator \<Rightarrow> (bool \<times> combine_mutator) option" where
  "combine_next m = do {
     buffer \<leftarrow> copy_from_slice (cm_buffer m) (cm_buffer_original m);
     if cm_msks m = [] then Some (False, m\<lparr>cm_buffer := buffer\<rparr>)
     else do {
       let msk = last (cm_msks m);
       let copy_len = min (length buffer) (length msk);
       buffer \<leftarrow> copy_to_slice buffer 0 (take copy_len msk);
       Some (True, m\<lparr>cm_msks := butlast (cm_msks m), cm_steps_done := cm_steps_done m + 1,
                     cm_buffer := buffer\<rparr>) } }"

definition combine_drop :: "combine_mutator \<Rightarrow> combine_mutator option" where
  "combine_drop m = do {
     buffer \<leftarrow> copy_from_slice (cm_buffer m) (cm_buffer_original m);
     Some (m\<lparr>cm_buffer := buffer\<rparr>) }"

record flip_once =
  fo_buffer :: "u8 list"
  fo_done :: bool

definition flip_once_new :: "u8 list \<Rightarrow> flip_once" where
  "flip_once_new buffer = \<lparr>fo_buffer = buffer, fo_done = False\<rparr>"

definition flip_once_next :: "flip_once \<Rightarrow> (bool \<times> flip_once) option" where
  "flip_once_next m = Some (if fo_done m then (False, m)
     else (True, \<lparr>fo_buffer = map NOT (fo_buffer m), fo_done = True\<rparr>))"

definition flip_once_drop :: "flip_once \<Rightarrow> flip_once option" where
  "flip_once_drop m = Some (if fo_done m then m\<lparr>fo_buffer := map NOT (fo_buffer m)\<rparr> else m)"

section \<open>Trait objects and the timeout wrapper\<close>

text \<open>
  The phases handle mutators through the trait \<^verbatim>\<open>Mutator\<close>; \<open>any_mutator\<close> is the sum of its
  implementations. \<^verbatim>\<open>WithTimeout\<close> wraps a mutator, its timeout and the time of the first call.
\<close>

datatype any_mutator =
    M_RandomBit random_bit | M_RandomByte random_byte | M_FlipByte flip_byte | M_FlipBit flip_bit_mut
  | M_U8Counter u8_counter | M_Havoc havoc | M_Nop nop | M_Combine combine_mutator
  | M_FlipOnce flip_once | M_WithTimeout any_mutator nat "nat option"

definition with_timeout_new :: "any_mutator \<Rightarrow> nat \<Rightarrow> any_mutator" where
  "with_timeout_new m timeout = M_WithTimeout m timeout None"

abbreviation lift_next :: "('a \<Rightarrow> any_mutator) \<Rightarrow> (bool \<times> 'a) option \<Rightarrow> (bool \<times> any_mutator) option" where
  "lift_next C r \<equiv> map_option (map_prod id C) r"

primrec mut_next :: "env \<Rightarrow> any_mutator \<Rightarrow> (bool \<times> any_mutator) option" where
  "mut_next e (M_RandomBit m) = lift_next M_RandomBit (random_bit_next e m)"
| "mut_next e (M_RandomByte m) = lift_next M_RandomByte (random_byte_next e m)"
| "mut_next e (M_FlipByte m) = lift_next M_FlipByte (flip_byte_next m)"
| "mut_next e (M_FlipBit m) = lift_next M_FlipBit (flip_bit_next m)"
| "mut_next e (M_U8Counter m) = lift_next M_U8Counter (u8_counter_next m)"
| "mut_next e (M_Havoc m) = lift_next M_Havoc (havoc_next e m)"
| "mut_next e (M_Nop m) = lift_next M_Nop (nop_next m)"
| "mut_next e (M_Combine m) = lift_next M_Combine (combine_next m)"
| "mut_next e (M_FlipOnce m) = lift_next M_FlipOnce (flip_once_next m)"
| "mut_next e (M_WithTimeout m timeout start_ts) =
    (let start = (case start_ts of None \<Rightarrow> e_now e | Some t \<Rightarrow> t) in
     if e_now2 e - start > timeout then Some (False, M_WithTimeout m timeout (Some start))
     else lift_next (\<lambda>m'. M_WithTimeout m' timeout (Some start)) (mut_next e m))"

primrec mut_drop :: "any_mutator \<Rightarrow> any_mutator option" where
  "mut_drop (M_RandomBit m) = map_option M_RandomBit (random_bit_drop m)"
| "mut_drop (M_RandomByte m) = map_option M_RandomByte (random_byte_drop m)"
| "mut_drop (M_FlipByte m) = map_option M_FlipByte (flip_byte_drop m)"
| "mut_drop (M_FlipBit m) = map_option M_FlipBit (flip_bit_drop m)"
| "mut_drop (M_U8Counter m) = map_option M_U8Counter (u8_counter_drop m)"
| "mut_drop (M_Havoc m) = map_option M_Havoc (havoc_drop m)"
| "mut_drop (M_Nop m) = Some (M_Nop m)"
| "mut_drop (M_Combine m) = map_option M_Combine (combine_drop m)"
| "mut_drop (M_FlipOnce m) = map_option M_FlipOnce (flip_once_drop m)"
| "mut_drop (M_WithTimeout m timeout start_ts) =
    map_option (\<lambda>m'. M_WithTimeout m' timeout start_ts) (mut_drop m)"

text \<open>The buffer the mutator borrows; \<^verbatim>\<open>Nop\<close> borrows none.\<close>

primrec mut_buffer :: "any_mutator \<Rightarrow> u8 list" where
  "mut_buffer (M_RandomBit m) = rbit_buffer m"
| "mut_buffer (M_RandomByte m) = rbyte_buffer m"
| "mut_buffer (M_FlipByte m) = fbyte_buffer m"
| "mut_buffer (M_FlipBit m) = fbit_buffer m"
| "mut_buffer (M_U8Counter m) = ctr_buffer m"
| "mut_buffer (M_Havoc m) = hv_buffer m"
| "mut_buffer (M_Nop m) = []"
| "mut_buffer (M_Combine m) = cm_buffer m"
| "mut_buffer (M_FlipOnce m) = fo_buffer m"
| "mut_buffer (M_WithTimeout m timeout start_ts) = mut_buffer m"

primrec mut_type :: "any_mutator \<Rightarrow> mutator_type" where
  "mut_type (M_RandomBit m) = MT_RandomBit 1"
| "mut_type (M_RandomByte m) = MT_RandomByte (length (rbyte_saved_bytes m))"
| "mut_type (M_FlipByte m) = MT_FlipByte"
| "mut_type (M_FlipBit m) = MT_FlipBit"
| "mut_type (M_U8Counter m) = MT_U8Counter"
| "mut_type (M_Havoc m) = MT_Havoc"
| "mut_type (M_Nop m) = MT_Nop"
| "mut_type (M_Combine m) = MT_Combine"
| "mut_type (M_FlipOnce m) = MT_FlipOnce"
| "mut_type (M_WithTimeout m timeout start_ts) = mut_type m"

primrec needs_sync :: "any_mutator \<Rightarrow> bool" where
  "needs_sync (M_RandomBit m) = False"
| "needs_sync (M_RandomByte m) = False"
| "needs_sync (M_FlipByte m) = False"
| "needs_sync (M_FlipBit m) = False"
| "needs_sync (M_U8Counter m) = False"
| "needs_sync (M_Havoc m) = False"
| "needs_sync (M_Nop m) = True"
| "needs_sync (M_Combine m) = True"
| "needs_sync (M_FlipOnce m) = False"
| "needs_sync (M_WithTimeout m timeout start_ts) = needs_sync m"

primrec one_shot :: "any_mutator \<Rightarrow> bool" where
  "one_shot (M_RandomBit m) = False"
| "one_shot (M_RandomByte m) = False"
| "one_shot (M_FlipByte m) = False"
| "one_shot (M_FlipBit m) = False"
| "one_shot (M_U8Counter m) = False"
| "one_shot (M_Havoc m) = False"
| "one_shot (M_Nop m) = False"
| "one_shot (M_Combine m) = cm_one_shot m"
| "one_shot (M_FlipOnce m) = False"
| "one_shot (M_WithTimeout m timeout start_ts) = one_shot m"

primrec steps_total :: "any_mutator \<Rightarrow> nat" where
  "steps_total (M_RandomBit m) = rbit_max_step m"
| "steps_total (M_RandomByte m) = rbyte_max_step m"
| "steps_total (M_FlipByte m) = length (fbyte_buffer m)"
| "steps_total (M_FlipBit m) = fbit_size_in_bits m"
| "steps_total (M_U8Counter m) = length (ctr_buffer m) * 2 ^ 8"
| "steps_total (M_Havoc m) = hv_steps_total m"
| "steps_total (M_Nop m) = nop_steps m"
| "steps_total (M_Combine m) = cm_steps m"
| "steps_total (M_FlipOnce m) = 1"
| "steps_total (M_WithTimeout m timeout start_ts) = steps_total m"

primrec steps_done :: "any_mutator \<Rightarrow> nat" where
  "steps_done (M_RandomBit m) = rbit_current_step m"
| "steps_done (M_RandomByte m) = rbyte_current_step m"
| "steps_done (M_FlipByte m) = fbyte_next_idx m"
| "steps_done (M_FlipBit m) = fbit_next_bit m"
| "steps_done (M_U8Counter m) = ctr_next_byte m"
| "steps_done (M_Havoc m) = hv_steps_done m"
| "steps_done (M_Nop m) = nop_steps_done m"
| "steps_done (M_Combine m) = cm_steps_done m"
| "steps_done (M_FlipOnce m) = (if fo_done m then 1 else 0)"
| "steps_done (M_WithTimeout m timeout start_ts) = steps_done m"

text \<open>The subtraction panics (or wraps, in a release build) when more steps are done than there are.\<close>

definition steps_left :: "any_mutator \<Rightarrow> nat option" where
  "steps_left m = (if steps_done m \<le> steps_total m then Some (steps_total m - steps_done m) else None)"

text \<open>
  Durations are nanoseconds, at most \<^verbatim>\<open>Duration::MAX\<close>; \<^verbatim>\<open>saturating_mul\<close> takes a \<^verbatim>\<open>u32\<close>.
\<close>

definition DURATION_MAX :: nat where
  "DURATION_MAX = (2 ^ 64 - 1) * 1000000000 + 999999999"

definition estimate_runtime :: "any_mutator \<Rightarrow> nat \<Rightarrow> nat" where
  "estimate_runtime m avg_exec_time =
     min DURATION_MAX (avg_exec_time * (if steps_total m < 2 ^ 32 then steps_total m else 2 ^ 32 - 1))"

text \<open>
  The loop \<^verbatim>\<open>for _ in mutator { .. }\<close> that runs the target once per yield: the number of yields and
  the state in which the loop ends, by exhaustion or by leaving the loop after the last of the
  given calls.
\<close>

fun drive :: "('e \<Rightarrow> 'm \<Rightarrow> (bool \<times> 'm) option) \<Rightarrow> 'e list \<Rightarrow> 'm \<Rightarrow> (nat \<times> 'm) option" where
  "drive nxt [] m = Some (0, m)"
| "drive nxt (e # es) m = do {
     (y, m') \<leftarrow> nxt e m;
     if y then map_option (apfst Suc) (drive nxt es m') else Some (0, m') }"

section \<open>The contract of a mutator\<close>

text \<open>
  \<open>inv b0 m\<close>: the mutator \<open>m\<close> borrows a buffer whose original contents is \<open>b0\<close>; \<open>ok m e\<close>: the
  draws \<open>e\<close> are in the ranges the mutator asks for; \<open>left m\<close>: the number of mutations left.
\<close>

locale mutator =
  fixes nxt :: "'e \<Rightarrow> 'm \<Rightarrow> (bool \<times> 'm) option"
    and drp :: "'m \<Rightarrow> 'm option"
    and buf :: "'m \<Rightarrow> u8 list"
    and inv :: "u8 list \<Rightarrow> 'm \<Rightarrow> bool"
    and ok :: "'m \<Rightarrow> 'e \<Rightarrow> bool"
    and left :: "'m \<Rightarrow> nat"
  assumes nxt_total: "inv b0 m \<Longrightarrow> ok m e \<Longrightarrow> \<exists>y m'. nxt e m = Some (y, m')"
    and nxt_inv: "inv b0 m \<Longrightarrow> ok m e \<Longrightarrow> nxt e m = Some (y, m') \<Longrightarrow> inv b0 m'"
    and nxt_ok: "inv b0 m \<Longrightarrow> ok m e \<Longrightarrow> nxt e m = Some (y, m') \<Longrightarrow> ok m' = ok m"
    and nxt_left: "inv b0 m \<Longrightarrow> ok m e \<Longrightarrow> nxt e m = Some (True, m') \<Longrightarrow> left m = Suc (left m')"
    and drp_restores: "inv b0 m \<Longrightarrow> \<exists>m'. drp m = Some m' \<and> buf m' = b0"
begin

lemma nxt_yield:
  assumes "inv b0 m" "ok m e" "nxt e m = Some (True, m')"
  shows "inv b0 m'" "ok m' = ok m" "left m = Suc (left m')"
  using nxt_inv [OF assms] nxt_ok [OF assms] nxt_left [OF assms] by blast+

text \<open>Driving a mutator never panics, yields at most \<open>left m\<close> times and keeps the invariant.\<close>

lemma drive_inv:
  "inv b0 m \<Longrightarrow> \<forall>e\<in>set es. ok m e \<Longrightarrow>
   \<exists>n m'. drive nxt es m = Some (n, m') \<and> inv b0 m' \<and> n \<le> left m \<and> n \<le> length es"
proof (induction es arbitrary: m)
  case Nil
  then show ?case by simp
next
  case (Cons e es)
  then obtain y m1 where 1: "nxt e m = Some (y, m1)" using nxt_total [of b0 m e] by auto
  show ?case
  proof (cases y)
    case True
    have m1: "inv b0 m1" "ok m1 = ok m" "left m = Suc (left m1)"
      by (rule nxt_yield [of b0 m e m1], use 1 True Cons.prems in simp_all)+
    have "\<forall>e\<in>set es. ok m1 e" using Cons.prems(2) by (simp add: m1(2))
    from Cons.IH [OF m1(1) this] obtain n m' where "drive nxt es m1 = Some (n, m')" "inv b0 m'"
      "n \<le> left m1" "n \<le> length es" by blast
    with 1 True m1(3) show ?thesis by simp
  next
    case False
    with 1 Cons.prems nxt_inv [of b0 m e y m1] show ?thesis by auto
  qed
qed

lemma drive_drop:
  assumes "inv b0 m" "\<forall>e\<in>set es. ok m e"
  shows "\<exists>n m' m''. drive nxt es m = Some (n, m') \<and> n \<le> left m \<and> drp m' = Some m'' \<and> buf m'' = b0"
  using drive_inv [OF assms] drp_restores by blast

end

text \<open>A mutator that stops only when no mutation is left, with the buffer restored.\<close>

locale exhaustive_mutator = mutator +
  assumes stops: "inv b0 m \<Longrightarrow> ok m e \<Longrightarrow> nxt e m = Some (False, m') \<Longrightarrow> left m = 0 \<and> buf m' = b0"
begin

lemma drive_all:
  "inv b0 m \<Longrightarrow> \<forall>e\<in>set es. ok m e \<Longrightarrow> left m < length es \<Longrightarrow>
   \<exists>m'. drive nxt es m = Some (left m, m') \<and> buf m' = b0"
proof (induction es arbitrary: m)
  case Nil
  then show ?case by simp
next
  case (Cons e es)
  then obtain y m1 where 1: "nxt e m = Some (y, m1)" using nxt_total [of b0 m e] by auto
  show ?case
  proof (cases y)
    case True
    have m1: "inv b0 m1" "ok m1 = ok m" "left m = Suc (left m1)"
      by (rule nxt_yield [of b0 m e m1], use 1 True Cons.prems in simp_all)+
    have "\<forall>e\<in>set es. ok m1 e" using Cons.prems(2) by (simp add: m1(2))
    from Cons.IH [OF m1(1) this] Cons.prems(3) m1(3)
    obtain m' where "drive nxt es m1 = Some (left m1, m')" "buf m' = b0" by auto
    with 1 True m1(3) show ?thesis by simp
  next
    case False
    with 1 Cons.prems stops [of b0 m e m1] show ?thesis by auto
  qed
qed

end

text \<open>The two laws a mutator has to be shown to satisfy, one for each of its operations.\<close>

lemma exhaustive_mutatorI:
  assumes step: "\<And>b0 m e. J b0 m \<Longrightarrow> ok m e \<Longrightarrow> case nxt e m of None \<Rightarrow> False
      | Some (y, m') \<Rightarrow> J b0 m' \<and> ok m' = ok m \<and>
          (if y then left m = Suc (left m') else left m = 0 \<and> buf m' = b0)"
    and drp: "\<And>b0 m. J b0 m \<Longrightarrow> case drp m of None \<Rightarrow> False | Some m' \<Rightarrow> buf m' = b0"
  shows "exhaustive_mutator nxt drp buf J ok left"
proof
  fix b0 m e y m'
  assume i: "J b0 m"
  from drp [OF i] show "\<exists>m'. drp m = Some m' \<and> buf m' = b0" by (auto split: option.splits)
  assume k: "ok m e"
  from step [OF i k] show "\<exists>y m'. nxt e m = Some (y, m')" by (auto split: option.splits)
  { assume "nxt e m = Some (y, m')" with step [OF i k] show "J b0 m'" "ok m' = ok m" by simp_all }
  { assume "nxt e m = Some (True, m')" with step [OF i k] show "left m = Suc (left m')" by simp }
  { assume "nxt e m = Some (False, m')" with step [OF i k] show "left m = 0 \<and> buf m' = b0" by simp }
qed

lemma exhaustive_mutatorI_any:
  assumes step: "\<And>b0 m e. J b0 m \<Longrightarrow> case nxt e m of None \<Rightarrow> False
      | Some (y, m') \<Rightarrow> J b0 m' \<and>
          (if y then left m = Suc (left m') else left m = 0 \<and> buf m' = b0)"
    and drp: "\<And>b0 m. J b0 m \<Longrightarrow> case drp m of None \<Rightarrow> False | Some m' \<Rightarrow> buf m' = b0"
  shows "exhaustive_mutator nxt drp buf J (\<lambda>_ _. True) left"
proof (rule exhaustive_mutatorI)
  fix b0 m e
  assume "J b0 m"
  from step [OF this, of e] show "case nxt e m of None \<Rightarrow> False
      | Some (y, m') \<Rightarrow> J b0 m' \<and> (\<lambda>_. True) = (\<lambda>_. True) \<and>
          (if y then left m = Suc (left m') else left m = 0 \<and> buf m' = b0)"
    by (cases "nxt e m") auto
qed (rule drp)

section \<open>Every mutator meets the contract\<close>

definition mutated_at :: "u8 list \<Rightarrow> nat option \<Rightarrow> u8 \<Rightarrow> u8 list \<Rightarrow> bool" where
  "mutated_at o1 lst saved b = (case lst of None \<Rightarrow> b = o1
     | Some i \<Rightarrow> i < length b \<and> b[i := saved] = o1)"

lemma mutated_at_revert [simp]: "mutated_at o1 lst saved b \<Longrightarrow> revert_byte lst saved b = Some o1"
  by (auto simp: mutated_at_def revert_byte_def split: option.splits)

lemma mutated_at_length: "mutated_at o1 lst saved b \<Longrightarrow> length b = length o1"
  by (auto simp: mutated_at_def split: option.splits)

lemma mutated_at_None [simp]: "mutated_at o1 None saved b \<longleftrightarrow> b = o1"
  by (simp add: mutated_at_def)

lemma mutated_at_Some [simp]: "i < length o1 \<Longrightarrow> mutated_at o1 (Some i) (o1 ! i) (o1[i := x])"
  by (simp add: mutated_at_def)

definition mutated_slice :: "u8 list \<Rightarrow> nat option \<Rightarrow> u8 list \<Rightarrow> u8 list \<Rightarrow> bool" where
  "mutated_slice o1 lst saved b = (case lst of None \<Rightarrow> b = o1
     | Some i \<Rightarrow> copy_to_slice b i saved = Some o1)"

lemma mutated_slice_revert [simp]: "mutated_slice o1 lst saved b \<Longrightarrow> revert_slice lst saved b = Some o1"
  by (auto simp: mutated_slice_def revert_slice_def split: option.splits)

lemma length_copy_to_slice: "copy_to_slice b i s = Some b' \<Longrightarrow> length b' = length b"
  by (auto simp: copy_to_slice_def split: if_splits)

lemma mutated_slice_length: "mutated_slice o1 lst saved b \<Longrightarrow> length b = length o1"
  by (auto simp: mutated_slice_def dest: length_copy_to_slice split: option.splits)

lemma copy_to_slice_back:
  assumes "i + n \<le> length b" "length s = n"
  obtains b' where "copy_to_slice b i s = Some b'" "copy_to_slice b' i (take n (drop i b)) = Some b"
proof
  show "copy_to_slice b i s = Some (take i b @ s @ drop (i + n) b)"
    using assms by (simp add: copy_to_slice_def)
  show "copy_to_slice (take i b @ s @ drop (i + n) b) i (take n (drop i b)) = Some b"
    using assms by (simp add: copy_to_slice_def)
      (metis add.commute append_take_drop_id drop_drop)
qed

definition rbit_inv :: "u8 list \<Rightarrow> random_bit \<Rightarrow> bool" where
  "rbit_inv o1 m \<longleftrightarrow> mutated_at o1 (rbit_last_idx m) (rbit_saved_byte m) (rbit_buffer m) \<and>
     rbit_current_step m \<le> rbit_max_step m \<and> o1 \<noteq> []"

interpretation rbit: exhaustive_mutator random_bit_next random_bit_drop rbit_buffer rbit_inv
  "\<lambda>m e. e_idx e < length (rbit_buffer m)" "\<lambda>m. rbit_max_step m - rbit_current_step m"
  by (rule exhaustive_mutatorI)
    (auto simp: rbit_inv_def random_bit_next_def random_bit_drop_def Let_def mutated_at_length)

definition rbyte_inv :: "u8 list \<Rightarrow> random_byte \<Rightarrow> bool" where
  "rbyte_inv o1 m \<longleftrightarrow> mutated_slice o1 (rbyte_last_idx m) (rbyte_saved_bytes m) (rbyte_buffer m) \<and>
     rbyte_current_step m \<le> rbyte_max_step m \<and> length (rbyte_saved_bytes m) \<le> length o1"

abbreviation rbyte_ok :: "random_byte \<Rightarrow> env \<Rightarrow> bool" where
  "rbyte_ok m e \<equiv> e_idx e \<le> length (rbyte_buffer m) - length (rbyte_saved_bytes m)"

lemma random_byte_step:
  assumes inv: "rbyte_inv o1 m" and ok: "rbyte_ok m e"
  shows "case random_byte_next e m of None \<Rightarrow> False
      | Some (y, m') \<Rightarrow> rbyte_inv o1 m' \<and> rbyte_ok m' = rbyte_ok m \<and>
          (if y then rbyte_max_step m - rbyte_current_step m =
             Suc (rbyte_max_step m' - rbyte_current_step m')
           else rbyte_max_step m - rbyte_current_step m = 0 \<and> rbyte_buffer m' = o1)"
proof -
  let ?n = "length (rbyte_saved_bytes m)" and ?i = "e_idx e"
  let ?s = "map2 (XOR) (take ?n (drop ?i o1)) (map (e_bytes e) [0..<?n])"
  have m: "mutated_slice o1 (rbyte_last_idx m) (rbyte_saved_bytes m) (rbyte_buffer m)"
    and n: "rbyte_current_step m \<le> rbyte_max_step m" "?n \<le> length o1"
    using inv by (simp_all add: rbyte_inv_def)
  have l: "length (rbyte_buffer m) = length o1" by (rule mutated_slice_length [OF m])
  have s: "?i + ?n \<le> length o1" "length ?s = ?n" using ok l n by auto
  then obtain b' where b': "copy_to_slice o1 ?i ?s = Some b'"
    "copy_to_slice b' ?i (take ?n (drop ?i o1)) = Some o1"
    by (rule copy_to_slice_back)
  have "length b' = length o1" by (rule length_copy_to_slice [OF b'(1)])
  with b' s n ok l show ?thesis
    by (auto simp: random_byte_next_def Let_def mutated_slice_revert [OF m] rbyte_inv_def
        mutated_slice_def)
qed

interpretation rbyte: exhaustive_mutator random_byte_next random_byte_drop rbyte_buffer rbyte_inv
  rbyte_ok "\<lambda>m. rbyte_max_step m - rbyte_current_step m"
  by (rule exhaustive_mutatorI, erule (1) random_byte_step)
    (auto simp: rbyte_inv_def random_byte_drop_def)

definition fbyte_inv :: "u8 list \<Rightarrow> flip_byte \<Rightarrow> bool" where
  "fbyte_inv o1 m \<longleftrightarrow> mutated_at o1 (fbyte_last_idx m) (fbyte_orig_byte m) (fbyte_buffer m) \<and>
     fbyte_next_idx m \<le> length o1"

interpretation fbyte: exhaustive_mutator "\<lambda>_::env. flip_byte_next" flip_byte_drop fbyte_buffer fbyte_inv
  "\<lambda>_ _. True" "\<lambda>m. length (fbyte_buffer m) - fbyte_next_idx m"
  by (rule exhaustive_mutatorI_any)
    (auto simp: fbyte_inv_def flip_byte_next_def flip_byte_drop_def Let_def mutated_at_length)

definition fbit_inv :: "u8 list \<Rightarrow> flip_bit_mut \<Rightarrow> bool" where
  "fbit_inv o1 m \<longleftrightarrow> mutated_at o1 (fbit_last_byte_idx m) (fbit_last_byte_orig_value m) (fbit_buffer m) \<and>
     fbit_next_bit m \<le> fbit_size_in_bits m \<and> fbit_size_in_bits m = length o1 * 8"

interpretation fbit: exhaustive_mutator "\<lambda>_::env. flip_bit_next" flip_bit_drop fbit_buffer fbit_inv
  "\<lambda>_ _. True" "\<lambda>m. fbit_size_in_bits m - fbit_next_bit m"
  by (rule exhaustive_mutatorI_any)
    (auto simp: fbit_inv_def flip_bit_next_def flip_bit_drop_def Let_def mutated_at_length
      less_mult_imp_div_less)

definition ctr_inv :: "u8 list \<Rightarrow> u8_counter \<Rightarrow> bool" where
  "ctr_inv o1 m \<longleftrightarrow> mutated_at o1 (ctr_last_byte_idx m) (ctr_last_byte_orig_value m) (ctr_buffer m) \<and>
     ctr_next_byte m \<le> length o1 \<and> (ctr_next_byte m = length o1 \<longrightarrow> ctr_ctr m = 0)"

definition ctr_left :: "u8_counter \<Rightarrow> nat" where
  "ctr_left m = (length (ctr_buffer m) - ctr_next_byte m) * 256 - unat (ctr_ctr m)"

lemma u8_checked_add_1:
  "u8_checked_add c 1 = (if unat c = 255 then None else Some (c + 1))"
  "unat c \<noteq> 255 \<Longrightarrow> unat (c + 1) = unat c + 1"
proof -
  have b: "unat c < 256" using unsigned_less [of c, where 'a = nat] by simp
  then show "u8_checked_add c 1 = (if unat c = 255 then None else Some (c + 1))"
    by (auto simp: u8_checked_add_def Let_def word_less_nat_alt unat_word_ariths word_unat_eq_iff mod_eq_self_iff_div_eq_0)
  show "unat c \<noteq> 255 \<Longrightarrow> unat (c + 1) = unat c + 1"
    using b by (simp add: unat_word_ariths)
qed

lemma u8_counter_step:
  assumes "ctr_inv o1 m"
  shows "case u8_counter_next m of None \<Rightarrow> False
      | Some (y, m') \<Rightarrow> ctr_inv o1 m' \<and>
          (if y then ctr_left m = Suc (ctr_left m') else ctr_left m = 0 \<and> ctr_buffer m' = o1)"
proof -
  have b: "unat (ctr_ctr m) < 256" using unsigned_less [of "ctr_ctr m", where 'a = nat] by simp
  have l: "length (ctr_buffer m) = length o1"
    using assms by (auto simp: ctr_inv_def dest: mutated_at_length)
  obtain k where "ctr_next_byte m + k = length o1" using assms by (auto simp: ctr_inv_def le_iff_add)
  with assms b l show ?thesis
    by (cases k) (auto simp: u8_counter_next_def ctr_inv_def Let_def ctr_left_def u8_checked_add_1)
qed

interpretation ctr: exhaustive_mutator "\<lambda>_::env. u8_counter_next" u8_counter_drop ctr_buffer ctr_inv
  "\<lambda>_ _. True" ctr_left
  by (rule exhaustive_mutatorI_any, erule u8_counter_step)
    (auto simp: ctr_inv_def u8_counter_drop_def)

definition havoc_inv :: "u8 list \<Rightarrow> havoc \<Rightarrow> bool" where
  "havoc_inv o1 m \<longleftrightarrow> length (hv_buffer m) = length o1 \<and> hv_orig_buffer m = o1 \<and> o1 \<noteq> [] \<and>
     hv_steps_total m = hv_max_stacks m * hv_repetitions m \<and> hv_steps_done m \<le> hv_steps_total m"

lemma havoc_of_u8_total: "\<exists>ty. havoc_of_u8 (x mod 4) = Some ty"
proof -
  have "unat (x mod 4) < 4" by (simp add: unat_mod)
  then have "unat (x mod 4) \<in> {0, 1, 2, 3}" by auto
  then show ?thesis by (auto simp: havoc_of_u8_def word_unat_eq_iff)
qed

lemma havoc_mutate_total:
  assumes "buffer \<noteq> []"
  obtains b where "havoc_mutate e buffer = Some b" "length b = length buffer"
proof -
  obtain ty where "havoc_of_u8 (e_u8 e mod 4) = Some ty" using havoc_of_u8_total by blast
  with assms that show ?thesis by (cases ty) (simp_all add: havoc_mutate_def Let_def)
qed

lemma havoc_step:
  assumes "havoc_inv o1 m"
  shows "case havoc_next e m of None \<Rightarrow> False
      | Some (y, m') \<Rightarrow> havoc_inv o1 m' \<and>
          (if y then hv_steps_total m - hv_steps_done m = Suc (hv_steps_total m' - hv_steps_done m')
           else hv_steps_total m - hv_steps_done m = 0 \<and> hv_buffer m' = o1)"
proof -
  define b0 where "b0 = (if hv_steps_done m > 0 \<and> hv_steps_done m mod hv_max_stacks m = 0
      then o1 else hv_buffer m)"
  have inv: "length (hv_buffer m) = length o1" "hv_orig_buffer m = o1" "o1 \<noteq> []"
    "hv_steps_total m = hv_max_stacks m * hv_repetitions m" "hv_steps_done m \<le> hv_steps_total m"
    using assms by (simp_all add: havoc_inv_def)
  have "b0 \<noteq> []" "length b0 = length o1" using inv by (auto simp: b0_def)
  then obtain b where b: "havoc_mutate e b0 = Some b" "length b = length o1"
    using havoc_mutate_total [of b0 e] by metis
  show ?thesis
  proof (cases "hv_steps_done m = hv_steps_total m")
    case True
    then show ?thesis using inv by (simp add: havoc_next_def copy_from_slice_def havoc_inv_def)
  next
    case False
    then have g: "hv_steps_done m < hv_steps_total m" using inv by simp
    then have s: "hv_steps_done m > 0 \<longrightarrow> hv_max_stacks m \<noteq> 0" using inv(4) by (cases "hv_max_stacks m") auto
    have "havoc_next e m = Some (True, m\<lparr>hv_buffer := b, hv_steps_done := hv_steps_done m + 1\<rparr>)"
      using False s b(1) inv(1,2) by (auto simp: havoc_next_def copy_from_slice_def b0_def split: if_splits)
    then show ?thesis using g inv b(2) by (simp add: havoc_inv_def)
  qed
qed

interpretation havoc: exhaustive_mutator havoc_next havoc_drop hv_buffer havoc_inv
  "\<lambda>_ _. True" "\<lambda>m. hv_steps_total m - hv_steps_done m"
  by (rule exhaustive_mutatorI_any, erule havoc_step)
    (auto simp: havoc_inv_def havoc_drop_def copy_from_slice_def)

interpretation nop: exhaustive_mutator "\<lambda>_::env. nop_next" Some "\<lambda>_. []" "\<lambda>b _. b = []"
  "\<lambda>_ _. True" nop_steps
  by (rule exhaustive_mutatorI_any) (auto simp: nop_next_def)

definition combine_inv :: "u8 list \<Rightarrow> combine_mutator \<Rightarrow> bool" where
  "combine_inv o1 m \<longleftrightarrow> length (cm_buffer m) = length o1 \<and> cm_buffer_original m = o1 \<and>
     cm_steps m = cm_steps_done m + length (cm_msks m)"

interpretation combine: exhaustive_mutator "\<lambda>_::env. combine_next" combine_drop cm_buffer combine_inv
  "\<lambda>_ _. True" "\<lambda>m. length (cm_msks m)"
  by (rule exhaustive_mutatorI_any)
    (auto simp: combine_inv_def combine_next_def combine_drop_def copy_from_slice_def
      copy_to_slice_def Let_def)

definition flip_once_inv :: "u8 list \<Rightarrow> flip_once \<Rightarrow> bool" where
  "flip_once_inv o1 m \<longleftrightarrow> fo_buffer m = (if fo_done m then map NOT o1 else o1)"

interpretation flip_once: mutator "\<lambda>_::env. flip_once_next" flip_once_drop fo_buffer flip_once_inv
  "\<lambda>_ _. True" "\<lambda>m. if fo_done m then 0 else 1"
  by unfold_locales
    (auto simp: flip_once_inv_def flip_once_next_def flip_once_drop_def o_def split: if_splits)

section \<open>Trait objects meet the contract\<close>

primrec mut_inv :: "u8 list \<Rightarrow> any_mutator \<Rightarrow> bool" where
  "mut_inv b (M_RandomBit m) = rbit_inv b m"
| "mut_inv b (M_RandomByte m) = rbyte_inv b m"
| "mut_inv b (M_FlipByte m) = fbyte_inv b m"
| "mut_inv b (M_FlipBit m) = fbit_inv b m"
| "mut_inv b (M_U8Counter m) = ctr_inv b m"
| "mut_inv b (M_Havoc m) = havoc_inv b m"
| "mut_inv b (M_Nop m) = (b = [])"
| "mut_inv b (M_Combine m) = combine_inv b m"
| "mut_inv b (M_FlipOnce m) = flip_once_inv b m"
| "mut_inv b (M_WithTimeout m timeout start_ts) = mut_inv b m"

text \<open>\<^verbatim>\<open>gen_range\<close> returns an index in the range it is given.\<close>

primrec draws_ok :: "any_mutator \<Rightarrow> env \<Rightarrow> bool" where
  "draws_ok (M_RandomBit m) e = (e_idx e < length (rbit_buffer m))"
| "draws_ok (M_RandomByte m) e = rbyte_ok m e"
| "draws_ok (M_FlipByte m) e = True"
| "draws_ok (M_FlipBit m) e = True"
| "draws_ok (M_U8Counter m) e = True"
| "draws_ok (M_Havoc m) e = True"
| "draws_ok (M_Nop m) e = True"
| "draws_ok (M_Combine m) e = True"
| "draws_ok (M_FlipOnce m) e = True"
| "draws_ok (M_WithTimeout m timeout start_ts) e = draws_ok m e"

text \<open>The number of mutations still to come.\<close>

primrec mutations_left :: "any_mutator \<Rightarrow> nat" where
  "mutations_left (M_RandomBit m) = rbit_max_step m - rbit_current_step m"
| "mutations_left (M_RandomByte m) = rbyte_max_step m - rbyte_current_step m"
| "mutations_left (M_FlipByte m) = length (fbyte_buffer m) - fbyte_next_idx m"
| "mutations_left (M_FlipBit m) = fbit_size_in_bits m - fbit_next_bit m"
| "mutations_left (M_U8Counter m) = ctr_left m"
| "mutations_left (M_Havoc m) = hv_steps_total m - hv_steps_done m"
| "mutations_left (M_Nop m) = nop_steps m"
| "mutations_left (M_Combine m) = length (cm_msks m)"
| "mutations_left (M_FlipOnce m) = (if fo_done m then 0 else 1)"
| "mutations_left (M_WithTimeout m timeout start_ts) = mutations_left m"

primrec stops_exhausted :: "any_mutator \<Rightarrow> bool" where
  "stops_exhausted (M_RandomBit m) = True"
| "stops_exhausted (M_RandomByte m) = True"
| "stops_exhausted (M_FlipByte m) = True"
| "stops_exhausted (M_FlipBit m) = True"
| "stops_exhausted (M_U8Counter m) = True"
| "stops_exhausted (M_Havoc m) = True"
| "stops_exhausted (M_Nop m) = True"
| "stops_exhausted (M_Combine m) = True"
| "stops_exhausted (M_FlipOnce m) = False"
| "stops_exhausted (M_WithTimeout m timeout start_ts) = False"

definition mut_step_ok :: "u8 list \<Rightarrow> any_mutator \<Rightarrow> env \<Rightarrow> bool" where
  "mut_step_ok b m e = (case mut_next e m of None \<Rightarrow> False
     | Some (y, m') \<Rightarrow> mut_inv b m' \<and> draws_ok m' = draws_ok m \<and>
         stops_exhausted m' = stops_exhausted m \<and>
         (y \<longrightarrow> mutations_left m = Suc (mutations_left m')) \<and>
         (\<not> y \<and> stops_exhausted m \<longrightarrow> mutations_left m = 0 \<and> mut_buffer m' = b))"

text \<open>A constructor \<open>C\<close> of the trait object inherits the contract of the implementation it wraps.\<close>

lemma mut_step_okI:
  assumes ax: "exhaustive_mutator nxt drp buf J ok left"
    and eqs: "\<And>m. mut_next e (C m) = lift_next C (nxt e m)" "\<And>b m. mut_inv b (C m) = J b m"
      "\<And>m. draws_ok (C m) = ok m" "\<And>m. mutations_left (C m) = left m"
      "\<And>m. mut_buffer (C m) = buf m" "\<And>m. stops_exhausted (C m)"
    and pre: "mut_inv b (C m)" "draws_ok (C m) e"
  shows "mut_step_ok b (C m) e"
proof -
  have m: "mutator nxt drp buf J ok left" using ax by (simp add: exhaustive_mutator_def)
  have j: "J b m" "ok m e" using pre by (simp_all add: eqs)
  obtain y m' where n: "nxt e m = Some (y, m')" using mutator.nxt_total [OF m j] by blast
  have "J b m'" "ok m' = ok m"
    using mutator.nxt_inv [OF m j n] mutator.nxt_ok [OF m j n] by blast+
  moreover have "y \<longrightarrow> left m = Suc (left m')" using mutator.nxt_left [OF m j] n by auto
  moreover have "\<not> y \<longrightarrow> left m = 0 \<and> buf m' = b"
    using exhaustive_mutator.stops [OF ax j] n by auto
  ultimately show ?thesis by (simp add: mut_step_ok_def eqs n)
qed

lemma mut_step: "mut_inv b m \<Longrightarrow> draws_ok m e \<Longrightarrow> mut_step_ok b m e"
proof (induction m)
  case (M_RandomBit m)
  then show ?case
    by (intro mut_step_okI [OF rbit.exhaustive_mutator_axioms]) (simp_all add: fun_eq_iff)
next
  case (M_RandomByte m)
  then show ?case
    by (intro mut_step_okI [OF rbyte.exhaustive_mutator_axioms]) (simp_all add: fun_eq_iff)
next
  case (M_FlipByte m)
  then show ?case
    by (intro mut_step_okI [OF fbyte.exhaustive_mutator_axioms]) (simp_all add: fun_eq_iff)
next
  case (M_FlipBit m)
  then show ?case
    by (intro mut_step_okI [OF fbit.exhaustive_mutator_axioms]) (simp_all add: fun_eq_iff)
next
  case (M_U8Counter m)
  then show ?case
    by (intro mut_step_okI [OF ctr.exhaustive_mutator_axioms]) (simp_all add: fun_eq_iff)
next
  case (M_Havoc m)
  then show ?case
    by (intro mut_step_okI [OF havoc.exhaustive_mutator_axioms]) (simp_all add: fun_eq_iff)
next
  case (M_Nop m)
  then show ?case
    by (intro mut_step_okI [OF nop.exhaustive_mutator_axioms]) (simp_all add: fun_eq_iff)
next
  case (M_Combine m)
  then show ?case
    by (intro mut_step_okI [OF combine.exhaustive_mutator_axioms]) (simp_all add: fun_eq_iff)
next
  case (M_FlipOnce m)
  then show ?case
    by (auto simp: mut_step_ok_def flip_once_next_def flip_once_inv_def fun_eq_iff)
next
  case (M_WithTimeout m timeout start_ts)
  then have "mut_step_ok b m e" by simp
  then show ?case using M_WithTimeout.prems
    by (auto simp: mut_step_ok_def Let_def fun_eq_iff split: option.splits)
qed

lemma mut_drop_restores: "mut_inv b m \<Longrightarrow> \<exists>m'. mut_drop m = Some m' \<and> mut_buffer m' = b"
proof (induction m)
  case (M_WithTimeout m timeout start_ts)
  then show ?case by fastforce
qed (use rbit.drp_restores rbyte.drp_restores fbyte.drp_restores fbit.drp_restores
    ctr.drp_restores havoc.drp_restores combine.drp_restores flip_once.drp_restores in fastforce)+

interpretation any: mutator mut_next mut_drop mut_buffer mut_inv draws_ok mutations_left
proof
  fix b m e y m'
  assume i: "mut_inv b m"
  show "\<exists>m'. mut_drop m = Some m' \<and> mut_buffer m' = b" by (rule mut_drop_restores [OF i])
  assume "draws_ok m e"
  note s = mut_step [OF i this, unfolded mut_step_ok_def]
  show "\<exists>y m'. mut_next e m = Some (y, m')" using s by (auto split: option.splits)
  { assume "mut_next e m = Some (y, m')" with s show "mut_inv b m'" "draws_ok m' = draws_ok m" by simp_all }
  { assume "mut_next e m = Some (True, m')" with s show "mutations_left m = Suc (mutations_left m')" by simp }
qed

section \<open>Deterministic mutators\<close>

lemma drive_snoc:
  "drive nxt es m = Some (length es, m1) \<Longrightarrow> nxt e m1 = Some (True, m2) \<Longrightarrow>
   drive nxt (es @ [e]) m = Some (Suc (length es), m2)"
proof (induction es arbitrary: m)
  case (Cons e' es)
  then obtain y m' where y: "nxt e' m = Some (y, m')" by (cases "nxt e' m") auto
  with Cons.prems have "y" by (auto split: if_splits)
  with y Cons show ?case by (auto simp: apfst_def map_prod_def split: prod.splits)
qed simp

lemma drive_replicate_step:
  assumes "drive (\<lambda>_ :: unit. f) (replicate k ()) m = Some (k, m1)" "f m1 = Some (True, m2)"
  shows "drive (\<lambda>_ :: unit. f) (replicate (Suc k) ()) m = Some (Suc k, m2)"
  using drive_snoc [of "\<lambda>_ :: unit. f" "replicate k ()" m m1 "()" m2] assms
  by (simp add: replicate_append_same)

lemma flip_byte_run:
  "k \<le> length b \<Longrightarrow> \<exists>m. drive (\<lambda>_ :: unit. flip_byte_next) (replicate k ()) (flip_byte_new b) = Some (k, m) \<and>
     fbyte_next_idx m = k \<and> mutated_at b (fbyte_last_idx m) (fbyte_orig_byte m) (fbyte_buffer m) \<and>
     (\<forall>j. k = Suc j \<longrightarrow> fbyte_buffer m = b[j := b ! j XOR 0xff])"
proof (induction k)
  case 0
  then show ?case by (simp add: flip_byte_new_def)
next
  case (Suc k)
  then obtain m where m: "drive (\<lambda>_ :: unit. flip_byte_next) (replicate k ()) (flip_byte_new b) = Some (k, m)"
    "fbyte_next_idx m = k" "mutated_at b (fbyte_last_idx m) (fbyte_orig_byte m) (fbyte_buffer m)" by auto
  let ?m = "m\<lparr>fbyte_orig_byte := b ! k, fbyte_buffer := b[k := b ! k XOR 0xff],
      fbyte_last_idx := Some k, fbyte_next_idx := k + 1\<rparr>"
  have "flip_byte_next m = Some (True, ?m)"
    using m(2,3) Suc.prems by (simp add: flip_byte_next_def Let_def)
  from drive_replicate_step [OF m(1) this] show ?case using Suc.prems by (intro exI [of _ ?m]) simp
qed

lemma flip_bit_run:
  "k \<le> length b * 8 \<Longrightarrow> \<exists>m. drive (\<lambda>_ :: unit. flip_bit_next) (replicate k ()) (flip_bit_new b) = Some (k, m) \<and>
     fbit_next_bit m = k \<and> fbit_size_in_bits m = length b * 8 \<and>
     mutated_at b (fbit_last_byte_idx m) (fbit_last_byte_orig_value m) (fbit_buffer m) \<and>
     (\<forall>j. k = Suc j \<longrightarrow> fbit_buffer m = b[j div 8 := b ! (j div 8) XOR push_bit (j mod 8) 1])"
proof (induction k)
  case 0
  then show ?case by (simp add: flip_bit_new_def)
next
  case (Suc k)
  then obtain m where m: "drive (\<lambda>_ :: unit. flip_bit_next) (replicate k ()) (flip_bit_new b) = Some (k, m)"
    "fbit_next_bit m = k" "fbit_size_in_bits m = length b * 8"
    "mutated_at b (fbit_last_byte_idx m) (fbit_last_byte_orig_value m) (fbit_buffer m)" by auto
  let ?m = "m\<lparr>fbit_last_byte_orig_value := b ! (k div 8), fbit_last_byte_idx := Some (k div 8),
      fbit_buffer := b[k div 8 := b ! (k div 8) XOR push_bit (k mod 8) 1], fbit_next_bit := k + 1\<rparr>"
  have l: "k div 8 < length b" using Suc.prems by (simp add: less_mult_imp_div_less)
  then have "flip_bit_next m = Some (True, ?m)"
    using m(2,3,4) Suc.prems by (simp add: flip_bit_next_def Let_def)
  from drive_replicate_step [OF m(1) this] show ?case using l m(3) by (intro exI [of _ ?m]) simp
qed

lemma u8_counter_run:
  "k \<le> length b * 256 \<Longrightarrow> \<exists>m. drive (\<lambda>_ :: unit. u8_counter_next) (replicate k ()) (u8_counter_new b) = Some (k, m) \<and>
     ctr_next_byte m = k div 256 \<and> ctr_ctr m = of_nat (k mod 256) \<and>
     mutated_at b (ctr_last_byte_idx m) (ctr_last_byte_orig_value m) (ctr_buffer m) \<and>
     (\<forall>j. k = Suc j \<longrightarrow> ctr_buffer m = b[j div 256 := b ! (j div 256) XOR of_nat (j mod 256)])"
proof (induction k)
  case 0
  then show ?case by (simp add: u8_counter_new_def)
next
  case (Suc k)
  then obtain m where m: "drive (\<lambda>_ :: unit. u8_counter_next) (replicate k ()) (u8_counter_new b) = Some (k, m)"
    "ctr_next_byte m = k div 256" "ctr_ctr m = of_nat (k mod 256)"
    "mutated_at b (ctr_last_byte_idx m) (ctr_last_byte_orig_value m) (ctr_buffer m)" by auto
  have l: "k div 256 < length b" using Suc.prems by (simp add: less_mult_imp_div_less)
  have u: "unat (of_nat (k mod 256) :: u8) = k mod 256" by (simp add: unat_of_nat)
  let ?m0 = "m\<lparr>ctr_last_byte_orig_value := b ! (k div 256), ctr_last_byte_idx := Some (k div 256),
      ctr_buffer := b[k div 256 := b ! (k div 256) XOR of_nat (k mod 256)]\<rparr>"
  let ?m = "if k mod 256 = 255 then ?m0\<lparr>ctr_ctr := 0, ctr_next_byte := k div 256 + 1\<rparr>
      else ?m0\<lparr>ctr_ctr := of_nat (k mod 256) + 1\<rparr>"
  have "u8_counter_next m = Some (True, ?m)"
    using m(2,3,4) l u by (simp add: u8_counter_next_def Let_def u8_checked_add_1)
  from drive_replicate_step [OF m(1) this] show ?case
    using l m(2) by (intro exI [of _ ?m]) (auto simp: div_Suc mod_Suc)
qed

section \<open>Properties\<close>

interpretation any_exhaustive: exhaustive_mutator mut_next mut_drop mut_buffer
  "\<lambda>b m. mut_inv b m \<and> stops_exhausted m" draws_ok mutations_left
proof (rule exhaustive_mutatorI)
  fix b m e
  assume "mut_inv b m \<and> stops_exhausted m" "draws_ok m e"
  then show "case mut_next e m of None \<Rightarrow> False | Some (y, m') \<Rightarrow>
      (mut_inv b m' \<and> stops_exhausted m') \<and> draws_ok m' = draws_ok m \<and>
      (if y then mutations_left m = Suc (mutations_left m') else mutations_left m = 0 \<and> mut_buffer m' = b)"
    using mut_step [of b m e] by (auto simp: mut_step_ok_def split: option.splits)
next
  fix b m
  assume "mut_inv b m \<and> stops_exhausted m"
  then show "case mut_drop m of None \<Rightarrow> False | Some m' \<Rightarrow> mut_buffer m' = b"
    using mut_drop_restores [of b m] by auto
qed

text \<open>The mutators the constructors make on a buffer \<open>b\<close>.\<close>

inductive mut_created :: "u8 list \<Rightarrow> any_mutator \<Rightarrow> bool" where
  "b \<noteq> [] \<Longrightarrow> random_bit_new 1 b steps = Some m \<Longrightarrow> mut_created b (M_RandomBit m)"
| "random_byte_new N b steps = Some m \<Longrightarrow> mut_created b (M_RandomByte m)"
| "mut_created b (M_FlipByte (flip_byte_new b))"
| "mut_created b (M_FlipBit (flip_bit_new b))"
| "mut_created b (M_U8Counter (u8_counter_new b))"
| "b \<noteq> [] \<Longrightarrow> mut_created b (M_Havoc (havoc_new b max_stacks repetitions))"
| "mut_created [] (M_Nop (nop_new steps))"
| "mut_created b (M_Combine (combine_new b msks once))"
| "mut_created b (M_FlipOnce (flip_once_new b))"
| "mut_created b m \<Longrightarrow> mut_created b (with_timeout_new m timeout)"

lemma mut_created_inv:
  "mut_created b m \<Longrightarrow> mut_inv b m \<and> mutations_left m = steps_total m \<and> steps_done m = 0"
  by (induction rule: mut_created.induct)
    (auto simp: random_bit_new_def random_byte_new_def flip_byte_new_def flip_bit_new_def
      u8_counter_new_def havoc_new_def nop_new_def combine_new_def flip_once_new_def
      with_timeout_new_def rbit_inv_def rbyte_inv_def fbyte_inv_def fbit_inv_def ctr_inv_def
      havoc_inv_def combine_inv_def flip_once_inv_def mutated_slice_def ctr_left_def
      split: if_splits)

text \<open>
  C3: Whatever mutator a phase creates on a mask, however often it calls \<^verbatim>\<open>next\<close> and wherever it
  leaves the loop (exhausted, timed out or aborted), no call panics, the mutator yields at most
  \<^verbatim>\<open>steps_total\<close> times, and dropping it gives the mask its original contents.
\<close>

theorem mutator_drop_restores_buffer:
  assumes "mut_created b m" "\<forall>e\<in>set es. draws_ok m e"
  shows "\<exists>n m' m''. drive mut_next es m = Some (n, m') \<and> n \<le> steps_total m \<and>
    mut_drop m' = Some m'' \<and> mut_buffer m'' = b"
  using any.drive_drop [of b m es] mut_created_inv [OF assms(1)] assms(2) by auto

theorem mutator_drop_restores_buffer_witness:
  "\<exists>n m' m''. drive mut_next
      [\<lparr>e_idx = 0, e_usize = 9, e_u8 = 0, e_bytes = (\<lambda>_. 7), e_now = 0, e_now2 = 1\<rparr>,
       \<lparr>e_idx = 0, e_usize = 1, e_u8 = 2, e_bytes = (\<lambda>_. 7), e_now = 0, e_now2 = 100\<rparr>]
      (with_timeout_new (M_Havoc (havoc_new [1, 2, 3] 16 4)) 50) = Some (n, m') \<and> n \<le> 64 \<and>
    mut_drop m' = Some m'' \<and> mut_buffer m'' = [1, 2, 3]"
proof -
  have c: "mut_created [1, 2, 3] (with_timeout_new (M_Havoc (havoc_new [1, 2, 3] 16 4)) 50)"
    by (intro mut_created.intros) simp
  have s: "steps_total (with_timeout_new (M_Havoc (havoc_new [1, 2, 3] 16 4)) 50) = 64"
    by (simp add: with_timeout_new_def havoc_new_def)
  show ?thesis
    using mutator_drop_restores_buffer [OF c, of "[\<lparr>e_idx = 0, e_usize = 9, e_u8 = 0, e_bytes = (\<lambda>_. 7), e_now = 0, e_now2 = 1\<rparr>,
       \<lparr>e_idx = 0, e_usize = 1, e_u8 = 2, e_bytes = (\<lambda>_. 7), e_now = 0, e_now2 = 100\<rparr>]"]
    unfolding s by (simp add: with_timeout_new_def)
qed

text \<open>
  C25: Except for \<^verbatim>\<open>FlipOnce\<close> and a mutator with a timeout, the loop over a new mutator runs exactly
  \<^verbatim>\<open>steps_total\<close> times, and already the call of \<^verbatim>\<open>next\<close> that ends it restores the mask.
\<close>

theorem mutator_exhausts:
  assumes "mut_created b m" "stops_exhausted m" "\<forall>e\<in>set es. draws_ok m e" "steps_total m < length es"
  shows "\<exists>m'. drive mut_next es m = Some (steps_total m, m') \<and> mut_buffer m' = b"
  using any_exhaustive.drive_all [of b m es] mut_created_inv [OF assms(1)] assms(2-4) by auto

theorem mutator_exhausts_witness:
  "\<exists>m'. drive mut_next
      (replicate 3 \<lparr>e_idx = 1, e_usize = 0, e_u8 = 0, e_bytes = (\<lambda>_. 7), e_now = 0, e_now2 = 0\<rparr>)
      (M_RandomByte \<lparr>rbyte_buffer = [4, 5, 6], rbyte_current_step = 0, rbyte_max_step = 2,
         rbyte_last_idx = None, rbyte_saved_bytes = [0, 0]\<rparr>) = Some (2, m') \<and> mut_buffer m' = [4, 5, 6]"
proof -
  let ?m = "\<lparr>rbyte_buffer = [4, 5, 6], rbyte_current_step = 0, rbyte_max_step = 2,
         rbyte_last_idx = None, rbyte_saved_bytes = [0, 0]\<rparr>"
  have "random_byte_new 2 [4, 5, 6] 2 = Some ?m" by (simp add: random_byte_new_def numeral_2_eq_2)
  then have c: "mut_created [4, 5, 6] (M_RandomByte ?m)" by (rule mut_created.intros)
  show ?thesis
    using mutator_exhausts [OF c, of "replicate 3 \<lparr>e_idx = 1, e_usize = 0, e_u8 = 0,
        e_bytes = (\<lambda>_. 7), e_now = 0, e_now2 = 0\<rparr>"] by simp
qed

text \<open>
  C26: The deterministic mutators enumerate their mutations one at a time, each on the original
  mask: yield \<open>k\<close> of \<^verbatim>\<open>FlipByte\<close> inverts byte \<open>k\<close>, yield \<open>k\<close> of \<^verbatim>\<open>FlipBit\<close> flips bit \<open>k\<close>, and yield
  \<open>k\<close> of \<^verbatim>\<open>U8Counter\<close> xors byte \<open>k div 256\<close> with the value \<open>k mod 256\<close>.
\<close>

theorem deterministic_mutations:
  "(k < length b \<longrightarrow> (\<exists>m. drive (\<lambda>_ :: unit. flip_byte_next) (replicate (Suc k) ()) (flip_byte_new b)
      = Some (Suc k, m) \<and> fbyte_buffer m = b[k := b ! k XOR 0xff])) \<and>
   (k < length b * 8 \<longrightarrow> (\<exists>m. drive (\<lambda>_ :: unit. flip_bit_next) (replicate (Suc k) ()) (flip_bit_new b)
      = Some (Suc k, m) \<and> fbit_buffer m = b[k div 8 := b ! (k div 8) XOR push_bit (k mod 8) 1])) \<and>
   (k < length b * 256 \<longrightarrow> (\<exists>m. drive (\<lambda>_ :: unit. u8_counter_next) (replicate (Suc k) ()) (u8_counter_new b)
      = Some (Suc k, m) \<and> ctr_buffer m = b[k div 256 := b ! (k div 256) XOR of_nat (k mod 256)]))"
  using flip_byte_run [of "Suc k" b] flip_bit_run [of "Suc k" b] u8_counter_run [of "Suc k" b]
  by (auto simp del: replicate_Suc)

theorem deterministic_mutations_witness:
  "(\<exists>m. drive (\<lambda>_ :: unit. flip_byte_next) (replicate 1 ()) (flip_byte_new [1, 2]) = Some (1, m) \<and>
      fbyte_buffer m = [0xfe, 2]) \<and>
   (\<exists>m. drive (\<lambda>_ :: unit. flip_bit_next) (replicate 11 ()) (flip_bit_new [1, 2]) = Some (11, m) \<and>
      fbit_buffer m = [1, 6]) \<and>
   (\<exists>m. drive (\<lambda>_ :: unit. u8_counter_next) (replicate 261 ()) (u8_counter_new [1, 2]) = Some (261, m) \<and>
      ctr_buffer m = [1, 6])"
  using deterministic_mutations [of 0 "[1, 2]"] deterministic_mutations [of 10 "[1, 2]"]
    deterministic_mutations [of 260 "[1, 2]"]
  by (simp del: replicate_Suc drive.simps)

end
