(* ===== verification/Mutation_Cache_Entry.thy ===== *)
theory Mutation_Cache_Entry
  imports FT_Prelude
begin

text \<open>
  Entries of the mutation cache (\<^verbatim>\<open>fuzztruction_shared/src/mutation_cache_entry.rs\<close>): a header, the
  \<^verbatim>\<open>MutationCacheEntryMetadata\<close>, followed in memory by the mutation mask and its padding.

  An entry is its metadata and the bytes that follow it in its allocation (\<open>mce_mem\<close>). The
  layout of the metadata in memory is decided by the compiler and by the crate \<^verbatim>\<open>llvm_stackmap\<close>;
  it is the parameter \<open>L\<close> of the definitions: the size of the header and the functions between a
  header and its bytes. A read or write outside an allocation is \<^term>\<open>None\<close>, as is a panic.
\<close>

section \<open>Data\<close>

text \<open>The instructions of \<^verbatim>\<open>llvm_stackmap::LLVMInstruction\<close> that the sources name, and the rest.\<close>

datatype llvm_instruction =
    LI_Br | LI_Switch | LI_IndirectBr | LI_ICmp | LI_Select | LI_Load | LI_Store | LI_Call
  | LI_InjectedCall | LI_CustomPatchPoint | LI_Other u8

datatype location_type = LT_Register | LT_Direct | LT_Indirect | LT_Constant | LT_ConstantIndex

record location =
  loc_type :: location_type
  loc_size :: u16
  dwarf_regnum :: u16
  offset_or_constant :: u32

datatype mce_flag = F_None | F_TracingEnabled | F_Disable

definition flag_u8 :: "mce_flag \<Rightarrow> u8" where
  "flag_u8 f = (case f of F_None \<Rightarrow> 0 | F_TracingEnabled \<Rightarrow> push_bit 0 1 | F_Disable \<Rightarrow> push_bit 1 1)"

record mce_metadata =
  md_id :: u64
  md_llvm_instruction :: llvm_instruction
  md_vma :: u64
  md_flags :: u8
  md_spill_slot :: location
  md_target_value_size_bits :: u32
  md_read_pos_bits :: u32
  md_msk_len :: u32

record mce =
  mce_md :: mce_metadata
  mce_mem :: "u8 list"

record layout =
  md_size :: nat
  md_enc :: "mce_metadata \<Rightarrow> u8 list"
  md_dec :: "u8 list \<Rightarrow> mce_metadata"
  content_size :: nat

definition MAX_MASK_LEN :: nat where
  "MAX_MASK_LEN = 1024 * 1024 * 64"

section \<open>Construction and cloning\<close>

definition div_ceil :: "nat \<Rightarrow> nat \<Rightarrow> nat" where
  "div_ceil a b = (a + b - 1) div b"

text \<open>The allocation sizes are brought to a multiple of 8, with at least one byte of padding.\<close>

definition align8 :: "nat \<Rightarrow> nat" where
  "align8 n = n + (8 - n mod 8)"

definition mce_new :: "layout \<Rightarrow> u64 \<Rightarrow> llvm_instruction \<Rightarrow> u64 \<Rightarrow> u8 \<Rightarrow> location \<Rightarrow> u32 \<Rightarrow> u32 \<Rightarrow> mce option" where
  "mce_new L i llvm_instr vma flags spill_slot target_value_size_bits msk_len = do {
     require (unat msk_len < MAX_MASK_LEN);
     let target_value_size_byte = div_ceil (unat target_value_size_bits) 8;
     let padded_msk_len = unat msk_len + (if msk_len > 0 then 8 else 0);
     let alloc_size = md_size L + unat msk_len + (if msk_len > 0 then target_value_size_byte else 0);
     let alloc_size = align8 alloc_size;
     let mem = replicate (alloc_size - md_size L) 0;
     require (padded_msk_len \<le> length mem);
     Some \<lparr>mce_md = \<lparr>md_id = i, md_llvm_instruction = llvm_instr, md_vma = vma, md_flags = flags,
             md_spill_slot = spill_slot, md_target_value_size_bits = target_value_size_bits,
             md_read_pos_bits = 0, md_msk_len = msk_len\<rparr>,
           mce_mem = replicate padded_msk_len 0 @ drop padded_msk_len mem\<rparr> }"

definition target_value_size_byte :: "mce \<Rightarrow> nat" where
  "target_value_size_byte e = div_ceil (unat (md_target_value_size_bits (mce_md e))) 8"

definition msk_len :: "mce \<Rightarrow> nat" where
  "msk_len e = unat (md_msk_len (mce_md e))"

definition size_wo_overflow_padding :: "layout \<Rightarrow> mce \<Rightarrow> nat" where
  "size_wo_overflow_padding L e = md_size L + msk_len e"

definition mce_size :: "layout \<Rightarrow> mce \<Rightarrow> nat" where
  "mce_size L e =
     (let ret = size_wo_overflow_padding L e;
          ret = (if msk_len e > 0 then ret + target_value_size_byte e else ret)
      in align8 ret)"

text \<open>\<open>mce_size L e\<close> bytes are copied, header included.\<close>

definition clone_into_box :: "layout \<Rightarrow> mce \<Rightarrow> mce option" where
  "clone_into_box L e = do {
     require (mce_size L e \<le> md_size L + length (mce_mem e));
     Some (e\<lparr>mce_mem := take (mce_size L e - md_size L) (mce_mem e)\<rparr>) }"

definition clone_with_new_msk :: "layout \<Rightarrow> mce \<Rightarrow> u32 \<Rightarrow> mce option" where
  "clone_with_new_msk L e new_msk_len = do {
     require (unat new_msk_len \<le> MAX_MASK_LEN \<and> new_msk_len > 0);
     let new_size = md_size L + unat new_msk_len;
     let new_size = (if new_msk_len > 0 then new_size + 8 else new_size);
     let new_size = align8 new_size;
     let mem = replicate (new_size - md_size L) 0;
     let bytes_to_copy = size_wo_overflow_padding L e -
           (if msk_len e > unat new_msk_len then msk_len e - unat new_msk_len else 0);
     let n = bytes_to_copy - md_size L;
     require (n \<le> length (mce_mem e) \<and> n \<le> length mem);
     Some \<lparr>mce_md = (mce_md e)\<lparr>md_msk_len := new_msk_len\<rparr>,
           mce_mem = take n (mce_mem e) @ drop n mem\<rparr> }"

section \<open>Accessors and flags\<close>

definition mce_id :: "mce \<Rightarrow> u64" where
  "mce_id e = md_id (mce_md e)"

definition set_flag :: "mce_flag \<Rightarrow> mce \<Rightarrow> mce" where
  "set_flag f e = e\<lparr>mce_md := (mce_md e)\<lparr>md_flags := md_flags (mce_md e) OR flag_u8 f\<rparr>\<rparr>"

definition unset_flag :: "mce_flag \<Rightarrow> mce \<Rightarrow> mce" where
  "unset_flag f e = e\<lparr>mce_md := (mce_md e)\<lparr>md_flags := md_flags (mce_md e) AND NOT (flag_u8 f)\<rparr>\<rparr>"

definition reset_flags :: "mce \<Rightarrow> mce" where
  "reset_flags e = e\<lparr>mce_md := (mce_md e)\<lparr>md_flags := flag_u8 F_None\<rparr>\<rparr>"

definition is_flag_set :: "mce_flag \<Rightarrow> mce \<Rightarrow> bool" where
  "is_flag_set f e \<longleftrightarrow> md_flags (mce_md e) AND flag_u8 f > 0"

definition mce_enable_tracing :: "mce \<Rightarrow> mce" where
  "mce_enable_tracing = set_flag F_TracingEnabled"

definition mce_disable_tracing :: "mce \<Rightarrow> mce" where
  "mce_disable_tracing = unset_flag F_TracingEnabled"

definition mce_enable :: "mce \<Rightarrow> mce" where
  "mce_enable = unset_flag F_Disable"

definition mce_disable :: "mce \<Rightarrow> mce" where
  "mce_disable = set_flag F_Disable"

definition mce_enabled :: "mce \<Rightarrow> bool" where
  "mce_enabled e \<longleftrightarrow> \<not> is_flag_set F_Disable e"

definition get_msk_as_slice :: "mce \<Rightarrow> u8 list" where
  "get_msk_as_slice e = take (msk_len e) (mce_mem e)"

definition get_padding_as_slice :: "mce \<Rightarrow> u8 list option" where
  "get_padding_as_slice e = (if msk_len e > 0
     then Some (take (target_value_size_byte e) (drop (msk_len e) (mce_mem e))) else None)"

text \<open>Writing through the mutable slice.\<close>

definition write_msk :: "u8 list \<Rightarrow> mce \<Rightarrow> mce option" where
  "write_msk bs e = do {
     require (length bs = msk_len e \<and> msk_len e \<le> length (mce_mem e));
     Some (e\<lparr>mce_mem := bs @ drop (msk_len e) (mce_mem e)\<rparr>) }"

definition mce_eq :: "mce \<Rightarrow> mce \<Rightarrow> bool" where
  "mce_eq a b \<longleftrightarrow> mce_md a = mce_md b \<and> get_msk_as_slice a = get_msk_as_slice b"

definition is_nop :: "mce \<Rightarrow> bool" where
  "is_nop e = (let msk = get_msk_as_slice e in if msk = [] then True else list_all (\<lambda>v. v = 0) msk)"

definition try_u16 :: "u32 \<Rightarrow> u16 option" where
  "try_u16 w = (if unat w < 2 ^ 16 then Some (ucast w) else None)"

definition chunk_size_bits :: "mce \<Rightarrow> u16 option" where
  "chunk_size_bits e = (case md_llvm_instruction (mce_md e) of
      LI_Br \<Rightarrow> do { ret \<leftarrow> try_u16 (md_target_value_size_bits (mce_md e)); require (ret = 1); Some ret }
    | LI_Load \<Rightarrow> try_u16 (md_target_value_size_bits (mce_md e))
    | LI_Store \<Rightarrow> try_u16 (md_target_value_size_bits (mce_md e))
    | LI_InjectedCall \<Rightarrow> try_u16 (md_target_value_size_bits (mce_md e))
    | LI_CustomPatchPoint \<Rightarrow> try_u16 (md_target_value_size_bits (mce_md e))
    | LI_Switch \<Rightarrow> try_u16 (md_target_value_size_bits (mce_md e))
    | LI_Select \<Rightarrow> try_u16 (md_target_value_size_bits (mce_md e))
    | LI_ICmp \<Rightarrow> try_u16 (md_target_value_size_bits (mce_md e))
    | LI_Call \<Rightarrow> do { ret \<leftarrow> try_u16 (md_target_value_size_bits (mce_md e)); require (ret = 1); Some ret }
    | _ \<Rightarrow> None)"

definition chunk_size_bytes :: "mce \<Rightarrow> u16 option" where
  "chunk_size_bytes e = do {
     bits \<leftarrow> chunk_size_bits e;
     Some (if bits mod 8 > 0 then bits div 8 + 1 else bits div 8) }"

section \<open>Well-formed entries\<close>

text \<open>
  What the code relies on of the layout: a header of \<open>md_size\<close> bytes, a multiple of the alignment,
  that reads back as it was written.
\<close>

definition layout_ok :: "layout \<Rightarrow> bool" where
  "layout_ok L \<longleftrightarrow> 8 dvd md_size L \<and> 0 < md_size L \<and> 8 dvd content_size L \<and>
     (\<forall>m. length (md_enc L m) = md_size L) \<and> (\<forall>m. md_dec L (md_enc L m) = m)"

text \<open>An entry lies in its allocation: the \<open>mce_size\<close> bytes the code copies are there.\<close>

definition mce_wf :: "layout \<Rightarrow> mce \<Rightarrow> bool" where
  "mce_wf L e \<longleftrightarrow> mce_size L e \<le> md_size L + length (mce_mem e)"

text \<open>An entry of exactly the bytes it occupies, as \<^verbatim>\<open>clone_into_box\<close> returns it.\<close>

definition mce_exact :: "layout \<Rightarrow> mce \<Rightarrow> bool" where
  "mce_exact L e \<longleftrightarrow> mce_size L e = md_size L + length (mce_mem e)"

definition trim :: "layout \<Rightarrow> mce \<Rightarrow> mce" where
  "trim L e = e\<lparr>mce_mem := take (mce_size L e - md_size L) (mce_mem e)\<rparr>"

lemma align8_bounds: "n < align8 n" "align8 n \<le> n + 8"
  by (simp_all add: align8_def)

lemma align8_eq: "align8 n = 8 * (n div 8 + 1)"
  unfolding align8_def by presburger

lemma align8_dvd [simp]: "8 dvd align8 n"
  by (simp add: align8_eq)

lemma align8_mono: "m \<le> n \<Longrightarrow> align8 m \<le> align8 n"
  by (simp add: align8_eq div_le_mono)

lemma mce_size_dvd [simp]: "8 dvd mce_size L e"
  by (simp add: mce_size_def Let_def)

lemma mce_size_bounds:
  "md_size L + msk_len e < mce_size L e"
  "0 < msk_len e \<Longrightarrow> md_size L + msk_len e + target_value_size_byte e < mce_size L e"
  using align8_bounds(1) [of "md_size L + msk_len e"]
    align8_bounds(1) [of "md_size L + msk_len e + target_value_size_byte e"]
  by (auto simp: mce_size_def Let_def size_wo_overflow_padding_def)

lemma mce_size_md: "mce_md a = mce_md b \<Longrightarrow> mce_size L a = mce_size L b"
  by (simp add: mce_size_def Let_def size_wo_overflow_padding_def msk_len_def target_value_size_byte_def)

lemma mce_size_mem [simp]: "mce_size L (e\<lparr>mce_mem := bs\<rparr>) = mce_size L e"
  by (rule mce_size_md) simp

lemma mce_exact_wf: "mce_exact L e \<Longrightarrow> mce_wf L e"
  by (simp add: mce_exact_def mce_wf_def)

lemma trim_simps [simp]:
  "mce_md (trim L e) = mce_md e" "mce_size L (trim L e) = mce_size L e" "mce_id (trim L e) = mce_id e"
  "msk_len (trim L e) = msk_len e"
  by (simp_all add: trim_def mce_id_def msk_len_def)

lemma clone_into_box_wf: "mce_wf L e \<Longrightarrow> clone_into_box L e = Some (trim L e)"
  by (simp add: clone_into_box_def mce_wf_def trim_def)

lemma trim_exact: "mce_wf L e \<Longrightarrow> mce_exact L (trim L e)"
  using mce_size_bounds(1) [of L e] by (simp add: mce_exact_def mce_wf_def trim_def)

lemma trim_id: "mce_exact L e \<Longrightarrow> trim L e = e"
  by (simp add: trim_def mce_exact_def)

lemma trim_msk: "get_msk_as_slice (trim L e) = get_msk_as_slice e"
proof -
  have "msk_len e \<le> mce_size L e - md_size L" using mce_size_bounds(1) [of L e] by simp
  then show ?thesis by (simp add: get_msk_as_slice_def msk_len_def trim_def min_absorb1)
qed

lemma length_get_msk: "mce_wf L e \<Longrightarrow> length (get_msk_as_slice e) = msk_len e"
  using mce_size_bounds(1) [of L e] by (simp add: get_msk_as_slice_def mce_wf_def)

section \<open>Flags\<close>

lemma bit_flag_u8:
  "\<not> bit (flag_u8 F_None) n" "bit (flag_u8 F_TracingEnabled) n \<longleftrightarrow> n = 0" "bit (flag_u8 F_Disable) n \<longleftrightarrow> n = 1"
proof -
  have "flag_u8 F_TracingEnabled = 2 ^ 0" "flag_u8 F_Disable = 2 ^ 1"
    by (simp_all add: flag_u8_def push_bit_eq_mult)
  then show "bit (flag_u8 F_TracingEnabled) n \<longleftrightarrow> n = 0" "bit (flag_u8 F_Disable) n \<longleftrightarrow> n = 1"
    using bit_exp_u8 [of 0 n] bit_exp_u8 [of 1 n] by simp_all
qed (simp add: flag_u8_def)

lemma is_flag_set_bit:
  "is_flag_set F_TracingEnabled e \<longleftrightarrow> bit (md_flags (mce_md e)) 0"
  "is_flag_set F_Disable e \<longleftrightarrow> bit (md_flags (mce_md e)) 1"
  by (auto simp: is_flag_set_def word_gt_0 u8_nonzero_bit bit_and_iff bit_flag_u8)

lemma bit_set_flags:
  "bit (md_flags (mce_md (set_flag f e))) n \<longleftrightarrow> bit (md_flags (mce_md e)) n \<or> bit (flag_u8 f) n"
  "bit (md_flags (mce_md (unset_flag f e))) n \<longleftrightarrow> bit (md_flags (mce_md e)) n \<and> \<not> bit (flag_u8 f) n"
  using bit_imp_le_length [of "md_flags (mce_md e)" n]
  by (auto simp: set_flag_def unset_flag_def bit_or_iff bit_and_iff bit_not_iff)

section \<open>Resizing a mask\<close>

lemma clone_with_new_msk_eq:
  assumes wf: "mce_wf L e" and n: "0 < new_len" "unat new_len \<le> MAX_MASK_LEN"
  shows "clone_with_new_msk L e new_len = Some \<lparr>mce_md = (mce_md e)\<lparr>md_msk_len := new_len\<rparr>,
     mce_mem = take (unat new_len) (get_msk_as_slice e) @
       replicate (align8 (md_size L + unat new_len + 8) - md_size L - min (msk_len e) (unat new_len)) 0\<rparr>"
proof -
  let ?k = "min (msk_len e) (unat new_len)"
  let ?m = "align8 (md_size L + unat new_len + 8) - md_size L"
  have c: "size_wo_overflow_padding L e -
      (if msk_len e > unat new_len then msk_len e - unat new_len else 0) - md_size L = ?k"
    by (auto simp: size_wo_overflow_padding_def)
  have l: "?k \<le> length (mce_mem e)"
    using wf mce_size_bounds(1) [of L e] by (simp add: mce_wf_def)
  have m: "?k \<le> ?m" using align8_bounds(1) [of "md_size L + unat new_len + 8"] by simp
  have "clone_with_new_msk L e new_len = Some \<lparr>mce_md = (mce_md e)\<lparr>md_msk_len := new_len\<rparr>,
     mce_mem = take ?k (mce_mem e) @ drop ?k (replicate ?m 0)\<rparr>"
    using n l m unfolding clone_with_new_msk_def Let_def c by simp
  moreover have "take ?k (mce_mem e) = take (unat new_len) (get_msk_as_slice e)"
    by (simp add: get_msk_as_slice_def min.commute)
  ultimately show ?thesis by simp
qed

lemma clone_with_new_msk_ok:
  assumes "mce_wf L e" "0 < new_len" "unat new_len \<le> MAX_MASK_LEN" "target_value_size_byte e \<le> 8"
  shows "\<exists>e'. clone_with_new_msk L e new_len = Some e' \<and> mce_wf L e' \<and>
    mce_md e' = (mce_md e)\<lparr>md_msk_len := new_len\<rparr> \<and>
    get_msk_as_slice e' = take (unat new_len) (get_msk_as_slice e @ replicate (unat new_len - msk_len e) 0) \<and>
    get_padding_as_slice e' = Some (replicate (target_value_size_byte e) 0)"
proof -
  let ?n = "unat new_len" and ?k = "min (msk_len e) (unat new_len)"
  define r where "r = align8 (md_size L + ?n + 8) - md_size L - ?k"
  define e' where "e' = \<lparr>mce_md = (mce_md e)\<lparr>md_msk_len := new_len\<rparr>,
     mce_mem = take ?n (get_msk_as_slice e) @ replicate r 0\<rparr>"
  have c: "clone_with_new_msk L e new_len = Some e'"
    unfolding e'_def r_def by (rule clone_with_new_msk_eq [OF assms(1-3)])
  have lm: "length (take ?n (get_msk_as_slice e)) = ?k" "length (get_msk_as_slice e) = msk_len e"
    using length_get_msk [OF assms(1)] by simp_all
  have md: "mce_md e' = (mce_md e)\<lparr>md_msk_len := new_len\<rparr>"
    and mem: "mce_mem e' = take ?n (get_msk_as_slice e) @ replicate r 0"
    by (simp_all add: e'_def)
  have ml: "msk_len e' = ?n" "target_value_size_byte e' = target_value_size_byte e"
    by (simp_all add: msk_len_def target_value_size_byte_def md)
  have n0: "0 < ?n" using assms(2) by (simp add: word_gt_0 unat_gt_0)
  have r: "?n + 8 < r + ?k" "md_size L + (r + ?k) = align8 (md_size L + ?n + 8)"
    using align8_bounds(1) [of "md_size L + ?n + 8"] by (simp_all add: r_def)
  have "mce_size L e' = align8 (md_size L + ?n + target_value_size_byte e)"
    using n0 by (simp add: mce_size_def size_wo_overflow_padding_def Let_def ml)
  also have "\<dots> \<le> align8 (md_size L + ?n + 8)" using assms(4) by (simp add: align8_mono)
  also have "\<dots> = md_size L + length (mce_mem e')" unfolding mem length_append lm(1) r(2) [symmetric] by simp
  finally have wf: "mce_wf L e'" by (simp add: mce_wf_def)
  have msk: "get_msk_as_slice e' = take ?n (get_msk_as_slice e @ replicate (?n - msk_len e) 0)"
    unfolding get_msk_as_slice_def [of e'] ml mem using r(1) lm by (auto simp: min_def)
  have "take (target_value_size_byte e) (drop ?n (mce_mem e')) = replicate (target_value_size_byte e) 0"
    unfolding mem using lm r(1) assms(4) by (simp add: min_def)
  then have "get_padding_as_slice e' = Some (replicate (target_value_size_byte e) 0)"
    using n0 by (simp add: get_padding_as_slice_def ml)
  with c wf md msk show ?thesis by simp
qed

section \<open>A layout\<close>

text \<open>
  A layout that meets the assumptions, for the concrete examples: every field of the header is
  stored in eight bytes.
\<close>

definition li_code :: "llvm_instruction \<Rightarrow> u64" where
  "li_code i = (case i of LI_Br \<Rightarrow> 256 | LI_Switch \<Rightarrow> 257 | LI_IndirectBr \<Rightarrow> 258 | LI_ICmp \<Rightarrow> 259
     | LI_Select \<Rightarrow> 260 | LI_Load \<Rightarrow> 261 | LI_Store \<Rightarrow> 262 | LI_Call \<Rightarrow> 263 | LI_InjectedCall \<Rightarrow> 264
     | LI_CustomPatchPoint \<Rightarrow> 265 | LI_Other w \<Rightarrow> ucast w)"

definition li_decode :: "u64 \<Rightarrow> llvm_instruction" where
  "li_decode w = (if w = 256 then LI_Br else if w = 257 then LI_Switch else if w = 258 then LI_IndirectBr
     else if w = 259 then LI_ICmp else if w = 260 then LI_Select else if w = 261 then LI_Load
     else if w = 262 then LI_Store else if w = 263 then LI_Call else if w = 264 then LI_InjectedCall
     else if w = 265 then LI_CustomPatchPoint else LI_Other (ucast w))"

definition lt_code :: "location_type \<Rightarrow> u64" where
  "lt_code l = (case l of LT_Register \<Rightarrow> 1 | LT_Direct \<Rightarrow> 2 | LT_Indirect \<Rightarrow> 3 | LT_Constant \<Rightarrow> 4
     | LT_ConstantIndex \<Rightarrow> 5)"

definition lt_decode :: "u64 \<Rightarrow> location_type" where
  "lt_decode w = (if w = 1 then LT_Register else if w = 2 then LT_Direct else if w = 3 then LT_Indirect
     else if w = 4 then LT_Constant else LT_ConstantIndex)"

definition ref_enc :: "mce_metadata \<Rightarrow> u8 list" where
  "ref_enc m = concat (map to_le_bytes
     [md_id m, li_code (md_llvm_instruction m), md_vma m, ucast (md_flags m),
      lt_code (loc_type (md_spill_slot m)), ucast (loc_size (md_spill_slot m)),
      ucast (dwarf_regnum (md_spill_slot m)), ucast (offset_or_constant (md_spill_slot m)),
      ucast (md_target_value_size_bits m), ucast (md_read_pos_bits m), ucast (md_msk_len m)])"

definition ref_dec :: "u8 list \<Rightarrow> mce_metadata" where
  "ref_dec bs = (let w = map from_le_bytes (chunks8 bs) in
     \<lparr>md_id = w ! 0, md_llvm_instruction = li_decode (w ! 1), md_vma = w ! 2, md_flags = ucast (w ! 3),
      md_spill_slot = \<lparr>loc_type = lt_decode (w ! 4), loc_size = ucast (w ! 5),
        dwarf_regnum = ucast (w ! 6), offset_or_constant = ucast (w ! 7)\<rparr>,
      md_target_value_size_bits = ucast (w ! 8), md_read_pos_bits = ucast (w ! 9),
      md_msk_len = ucast (w ! 10)\<rparr>)"

definition ref_layout :: layout where
  "ref_layout = \<lparr>md_size = 88, md_enc = ref_enc, md_dec = ref_dec, content_size = 3200040\<rparr>"

lemma chunks8_concat_le: "chunks8 (concat (map to_le_bytes ws)) = map to_le_bytes ws"
  by (induction ws) (simp_all add: chunks8_append)

lemma ucast_up_down:
  "ucast (ucast (x :: u8) :: u64) = x" "ucast (ucast (y :: u16) :: u64) = y"
  "ucast (ucast (z :: u32) :: u64) = z"
  by (rule bit_word_eqI; simp add: bit_ucast_iff)+

lemma li_decode_code [simp]: "li_decode (li_code i) = i"
proof (cases i)
  case (LI_Other w)
  have "unat (ucast w :: u64) < 256"
    unfolding unsigned_ucast_eq
    by (rule le_less_trans [OF take_bit_nat_less_eq_self])
      (use unsigned_less [of w, where 'a = nat] in simp)
  then have "(ucast w :: u64) \<notin> {256, 257, 258, 259, 260, 261, 262, 263, 264, 265}"
    by (auto simp: word_unat_eq_iff)
  then show ?thesis by (simp add: LI_Other li_code_def li_decode_def ucast_up_down)
qed (simp_all add: li_code_def li_decode_def)

lemma lt_decode_code [simp]: "lt_decode (lt_code l) = l"
  by (cases l) (simp_all add: lt_code_def lt_decode_def)

lemma ref_dec_enc: "ref_dec (ref_enc m) = m"
  unfolding ref_dec_def ref_enc_def chunks8_concat_le
  by (simp add: Let_def ucast_up_down o_def)

lemma ref_layout_ok: "layout_ok ref_layout"
  by (simp add: layout_ok_def ref_layout_def ref_dec_enc) (simp add: ref_enc_def)

section \<open>Properties\<close>

text \<open>
  C20: Resizing the mask of an entry keeps its id and metadata, keeps the part of the old mask that
  fits, fills the new part and the padding behind the mask with zeros, and stays inside the new
  allocation, when the mutated value has at most eight bytes.
\<close>

theorem clone_with_new_msk_correct:
  assumes "mce_wf L e" "0 < new_len" "unat new_len \<le> MAX_MASK_LEN" "target_value_size_byte e \<le> 8"
  shows "\<exists>e'. clone_with_new_msk L e new_len = Some e' \<and> mce_wf L e' \<and>
    mce_md e' = (mce_md e)\<lparr>md_msk_len := new_len\<rparr> \<and>
    get_msk_as_slice e' = take (unat new_len) (get_msk_as_slice e @ replicate (unat new_len - msk_len e) 0) \<and>
    get_padding_as_slice e' = Some (replicate (target_value_size_byte e) 0)"
  by (rule clone_with_new_msk_ok [OF assms])

text \<open>The entry of a load of a 32-bit value, with a mask of four bytes.\<close>

definition sample_mce :: "u64 \<Rightarrow> mce" where
  "sample_mce i = \<lparr>mce_md = \<lparr>md_id = i, md_llvm_instruction = LI_Load, md_vma = 0x401000, md_flags = 0,
      md_spill_slot = \<lparr>loc_type = LT_Direct, loc_size = 8, dwarf_regnum = 6, offset_or_constant = 16\<rparr>,
      md_target_value_size_bits = 32, md_read_pos_bits = 0, md_msk_len = 4\<rparr>,
     mce_mem = [1, 2, 3, 4] @ replicate 12 0\<rparr>"

lemma sample_mce_facts:
  "mce_exact ref_layout (sample_mce i)" "mce_wf ref_layout (sample_mce i)" "mce_id (sample_mce i) = i"
  "target_value_size_byte (sample_mce i) = 4" "msk_len (sample_mce i) = 4"
  "get_msk_as_slice (sample_mce i) = [1, 2, 3, 4]" "mce_size ref_layout (sample_mce i) = 104"
  by (simp_all add: sample_mce_def mce_exact_def mce_wf_def mce_size_def size_wo_overflow_padding_def
      msk_len_def target_value_size_byte_def ref_layout_def align8_def div_ceil_def mce_id_def
      get_msk_as_slice_def)

theorem clone_with_new_msk_correct_witness:
  "\<exists>e'. clone_with_new_msk ref_layout (sample_mce 7) 6 = Some e' \<and> mce_wf ref_layout e' \<and>
    get_msk_as_slice e' = [1, 2, 3, 4, 0, 0] \<and> get_padding_as_slice e' = Some [0, 0, 0, 0]"
proof -
  have "unat (6 :: u32) \<le> MAX_MASK_LEN" "(0 :: u32) < 6" by (simp_all add: MAX_MASK_LEN_def)
  moreover have "replicate 2 (0 :: u8) = [0, 0]" "replicate 4 (0 :: u8) = [0, 0, 0, 0]"
    by (simp_all add: eval_nat_numeral)
  ultimately show ?thesis
    using clone_with_new_msk_correct [of ref_layout "sample_mce 7" 6] by (auto simp: sample_mce_facts)
qed

text \<open>
  The flags of an entry are independent: setting or clearing one changes \<^verbatim>\<open>is_flag_set\<close> for that
  flag only, and \<^verbatim>\<open>reset_flags\<close> clears both; mask, size and id of the entry stay.
\<close>

theorem flags_correct:
  "is_flag_set F_TracingEnabled (mce_enable_tracing e) \<and> \<not> is_flag_set F_TracingEnabled (mce_disable_tracing e) \<and>
   mce_enabled (mce_enable_tracing e) = mce_enabled e \<and> mce_enabled (mce_disable_tracing e) = mce_enabled e \<and>
   mce_enabled (mce_enable e) \<and> \<not> mce_enabled (mce_disable e) \<and>
   is_flag_set F_TracingEnabled (mce_enable e) = is_flag_set F_TracingEnabled e \<and>
   is_flag_set F_TracingEnabled (mce_disable e) = is_flag_set F_TracingEnabled e \<and>
   mce_enabled (reset_flags e) \<and> \<not> is_flag_set F_TracingEnabled (reset_flags e) \<and>
   map (\<lambda>g. (mce_id (g e), mce_size L (g e), get_msk_as_slice (g e))) [set_flag f, unset_flag f, reset_flags]
     = replicate 3 (mce_id e, mce_size L e, get_msk_as_slice e)"
proof -
  have "map (\<lambda>g. (mce_id (g e), mce_size L (g e), get_msk_as_slice (g e))) [set_flag f, unset_flag f, reset_flags]
     = replicate 3 (mce_id e, mce_size L e, get_msk_as_slice e)"
    by (simp add: set_flag_def unset_flag_def reset_flags_def mce_id_def mce_size_def Let_def
        size_wo_overflow_padding_def msk_len_def target_value_size_byte_def get_msk_as_slice_def
        numeral_3_eq_3)
  moreover have "mce_enabled (reset_flags e)" "\<not> is_flag_set F_TracingEnabled (reset_flags e)"
    by (simp_all add: mce_enabled_def is_flag_set_bit reset_flags_def flag_u8_def)
  ultimately show ?thesis
    by (auto simp: mce_enabled_def is_flag_set_bit mce_enable_tracing_def mce_disable_tracing_def
        mce_enable_def mce_disable_def bit_set_flags bit_flag_u8)
qed

end
