(* ===== verification/Mutation_Cache_Content.thy ===== *)
theory Mutation_Cache_Content
  imports Mutation_Cache_Entry
begin

text \<open>
  The shared memory of the mutation cache (\<^verbatim>\<open>fuzztruction_shared/src/mutation_cache_content.rs\<close>): a
  table of descriptors (offsets) and a byte buffer into which the entries are copied one behind
  the other. Removing an entry only clears its descriptor; after more than 500 removals the
  buffer is consolidated.

  The buffer is a list of bytes, and an entry is read from it through the layout \<open>L\<close>, so the
  lemmas show that no operation damages the bytes of an entry it should keep: the content is
  abstracted by the list of its entries.
\<close>

section \<open>Operations\<close>

record content =
  total_size :: nat
  current_data_size :: nat
  next_free_slot :: nat
  pending_deletions :: nat
  invalidate :: bool
  entry_tbl :: "nat option list"
  cdata :: "u8 list"

definition PENDING_DELETIONS_LIMIT :: nat where
  "PENDING_DELETIONS_LIMIT = 500"

text \<open>The entry at an offset of the buffer: its header and the bytes up to its size.\<close>

definition md_at :: "layout \<Rightarrow> u8 list \<Rightarrow> nat \<Rightarrow> mce_metadata" where
  "md_at L d off = md_dec L (take (md_size L) (drop off d))"

definition entry_ref :: "layout \<Rightarrow> u8 list \<Rightarrow> nat \<Rightarrow> mce" where
  "entry_ref L d off = trim L \<lparr>mce_md = md_at L d off, mce_mem = drop (off + md_size L) d\<rparr>"

text \<open>The bytes of an entry, and a raw copy into the buffer.\<close>

definition entry_bytes :: "layout \<Rightarrow> mce \<Rightarrow> u8 list" where
  "entry_bytes L e = md_enc L (mce_md e) @ take (mce_size L e - md_size L) (mce_mem e)"

definition write_at :: "u8 list \<Rightarrow> nat \<Rightarrow> u8 list \<Rightarrow> u8 list" where
  "write_at d off bs = take off d @ bs @ drop (off + length bs) d"

text \<open>
  \<^verbatim>\<open>init\<close> finds the memory zeroed or with old contents; the fields it does not set keep their value.
\<close>

definition content_init :: "layout \<Rightarrow> nat \<Rightarrow> content \<Rightarrow> content option" where
  "content_init L sz c = do {
     require (sz \<ge> content_size L);
     Some (c\<lparr>current_data_size := 0, total_size := sz, next_free_slot := 0,
             entry_tbl := map (\<lambda>_. None) (entry_tbl c)\<rparr>) }"

definition content_update :: "nat \<Rightarrow> content \<Rightarrow> content" where
  "content_update sz c = c\<lparr>total_size := sz\<rparr>"

definition space_left :: "layout \<Rightarrow> content \<Rightarrow> nat" where
  "space_left L c = total_size c - content_size L - current_data_size c"

definition total_used_bytes :: "layout \<Rightarrow> content \<Rightarrow> nat" where
  "total_used_bytes L c = content_size L + current_data_size c"

definition content_clear :: "content \<Rightarrow> content" where
  "content_clear c = c\<lparr>invalidate := True, current_data_size := 0, next_free_slot := 0,
     entry_tbl := map (\<lambda>_. None) (entry_tbl c)\<rparr>"

definition entries_raw :: "content \<Rightarrow> nat list" where
  "entries_raw c = map the (filter (\<lambda>e. e \<noteq> None) (entry_tbl c))"

definition content_entries :: "layout \<Rightarrow> content \<Rightarrow> mce list" where
  "content_entries L c = map (entry_ref L (cdata c)) (entries_raw c)"

text \<open>
  \<^verbatim>\<open>push\<close> panics when there is no descriptor table entry to look at, and returns \<^verbatim>\<open>None\<close> (here: \<^term>\<open>False\<close>)
  when the entry does not fit; copying reads \<open>mce_size\<close> bytes of the entry.
\<close>

definition content_push :: "layout \<Rightarrow> mce \<Rightarrow> content \<Rightarrow> (bool \<times> content) option" where
  "content_push L e c = do {
     require (next_free_slot c < length (entry_tbl c));
     if mce_size L e > space_left L c then Some (False, c)
     else do {
       let off = current_data_size c;
       let max_slot_idx = length (entry_tbl c) - 1;
       if entry_tbl c ! next_free_slot c = None then do {
         require (mce_wf L e);
         let c = c\<lparr>entry_tbl := (entry_tbl c)[next_free_slot c := Some off],
                   next_free_slot := min (next_free_slot c + 1) max_slot_idx\<rparr>;
         Some (True, c\<lparr>cdata := write_at (cdata c) off (entry_bytes L e),
                       current_data_size := current_data_size c + mce_size L e,
                       invalidate := True\<rparr>) }
       else Some (False, c) } }"

fun push_all :: "layout \<Rightarrow> mce list \<Rightarrow> content \<Rightarrow> content option" where
  "push_all L [] c = Some c"
| "push_all L (e # es) c = do { (_, c') \<leftarrow> content_push L e c; push_all L es c' }"

definition consolidate :: "layout \<Rightarrow> content \<Rightarrow> content option" where
  "consolidate L c = do {
     let c = c\<lparr>invalidate := True\<rparr>;
     es \<leftarrow> those (map (clone_into_box L) (content_entries L c));
     push_all L es (content_clear c) }"

text \<open>The index of the first descriptor whose entry has the given id.\<close>

fun find_descriptor :: "layout \<Rightarrow> u8 list \<Rightarrow> u64 \<Rightarrow> nat \<Rightarrow> nat option list \<Rightarrow> nat option" where
  "find_descriptor L d i idx [] = None"
| "find_descriptor L d i idx (None # tbl) = find_descriptor L d i (idx + 1) tbl"
| "find_descriptor L d i idx (Some off # tbl) =
    (if mce_id (entry_ref L d off) = i then Some idx else find_descriptor L d i (idx + 1) tbl)"

definition content_remove :: "layout \<Rightarrow> u64 \<Rightarrow> content \<Rightarrow> content option" where
  "content_remove L i c = do {
     idx \<leftarrow> find_descriptor L (cdata c) i 0 (entry_tbl c);
     let c = c\<lparr>invalidate := True, entry_tbl := (entry_tbl c)[idx := None],
               pending_deletions := pending_deletions c + 1\<rparr>;
     if pending_deletions c > PENDING_DELETIONS_LIMIT
     then consolidate L (c\<lparr>pending_deletions := 0\<rparr>)
     else Some c }"

definition is_invalidated :: "content \<Rightarrow> bool" where
  "is_invalidated c = invalidate c"

definition clear_invalidated :: "content \<Rightarrow> content" where
  "clear_invalidated c = c\<lparr>invalidate := False\<rparr>"

section \<open>Reading entries back\<close>

text \<open>An entry reads only the bytes it occupies.\<close>

definition size_at :: "layout \<Rightarrow> u8 list \<Rightarrow> nat \<Rightarrow> nat" where
  "size_at L d off = mce_size L (entry_ref L d off)"

lemma entry_ref_simps [simp]:
  "mce_md (entry_ref L d off) = md_at L d off"
  "mce_id (entry_ref L d off) = md_id (md_at L d off)"
  by (simp_all add: entry_ref_def mce_id_def)

lemma take_drop_cong:
  "take n d = take n d' \<Longrightarrow> off + k \<le> n \<Longrightarrow> take k (drop off d) = take k (drop off d')"
proof -
  assume a: "take n d = take n d'" "off + k \<le> n"
  have "take k (drop off x) = drop off (take (off + k) (take n x))" for x :: "'a list"
    using a(2) by (simp add: min_absorb1 take_drop add.commute)
  then show ?thesis using a(1) by metis
qed

lemma entry_ref_cong:
  assumes "take n d = take n d'" "off + size_at L d off \<le> n"
  shows "entry_ref L d' off = entry_ref L d off"
proof -
  have s: "size_at L d off = mce_size L \<lparr>mce_md = md_at L d off, mce_mem = drop (off + md_size L) d\<rparr>"
    by (simp add: size_at_def entry_ref_def)
  have "md_size L < size_at L d off"
    using mce_size_bounds(1) [of L "entry_ref L d off"] by (simp add: size_at_def)
  then have md: "md_at L d' off = md_at L d off"
    unfolding md_at_def using take_drop_cong [OF assms(1), of off "md_size L"] assms(2) by simp
  have "mce_size L \<lparr>mce_md = md_at L d off, mce_mem = drop (off + md_size L) d'\<rparr> = size_at L d off"
    unfolding s by (rule mce_size_md) simp
  moreover have "take (size_at L d off - md_size L) (drop (off + md_size L) d') =
      take (size_at L d off - md_size L) (drop (off + md_size L) d)"
    using take_drop_cong [OF assms(1), of "off + md_size L" "size_at L d off - md_size L"]
      assms(2) \<open>md_size L < _\<close> by simp
  ultimately show ?thesis unfolding entry_ref_def trim_def md using s by simp
qed

lemma length_entry_bytes:
  "layout_ok L \<Longrightarrow> mce_wf L e \<Longrightarrow> length (entry_bytes L e) = mce_size L e"
  using mce_size_bounds(1) [of L e] by (simp add: entry_bytes_def layout_ok_def mce_wf_def)

lemma entry_ref_written:
  assumes L: "layout_ok L" and wf: "mce_wf L e" and off: "off \<le> length d"
  shows "entry_ref L (write_at d off (entry_bytes L e)) off = trim L e"
proof -
  let ?d = "write_at d off (entry_bytes L e)"
  let ?t = "take (mce_size L e - md_size L) (mce_mem e)"
  let ?r = "drop (off + length (entry_bytes L e)) d"
  have d: "drop off ?d = md_enc L (mce_md e) @ ?t @ ?r"
    using off by (simp add: write_at_def entry_bytes_def)
  have e: "length (md_enc L (mce_md e)) = md_size L" "md_dec L (md_enc L (mce_md e)) = mce_md e"
    using L by (simp_all add: layout_ok_def)
  have md: "md_at L ?d off = mce_md e" unfolding md_at_def d by (simp add: e)
  have m: "drop (off + md_size L) ?d = ?t @ ?r"
    using d e(1) by (metis add.commute append_eq_conv_conj drop_drop)
  have lt: "length ?t = mce_size L e - md_size L" using wf by (simp add: mce_wf_def)
  have "mce_size L \<lparr>mce_md = mce_md e, mce_mem = ?t @ ?r\<rparr> = mce_size L e" by (rule mce_size_md) simp
  then show ?thesis unfolding entry_ref_def trim_def md m using lt by simp
qed

section \<open>The invariant\<close>

text \<open>The live entries lie one behind the other between \<open>lo\<close> and \<open>hi\<close>.\<close>

fun chain :: "layout \<Rightarrow> u8 list \<Rightarrow> nat \<Rightarrow> nat list \<Rightarrow> nat \<Rightarrow> bool" where
  "chain L d lo [] hi = (lo \<le> hi)"
| "chain L d lo (x # xs) hi = (lo \<le> x \<and> chain L d (x + size_at L d x) xs hi)"

definition content_inv :: "layout \<Rightarrow> content \<Rightarrow> bool" where
  "content_inv L c \<longleftrightarrow>
     content_size L + length (cdata c) = total_size c \<and> current_data_size c \<le> length (cdata c) \<and>
     next_free_slot c < length (entry_tbl c) \<and>
     (\<forall>i < length (entry_tbl c). next_free_slot c < i \<longrightarrow> entry_tbl c ! i = None) \<and>
     (entry_tbl c ! next_free_slot c = None \<or> Suc (next_free_slot c) = length (entry_tbl c)) \<and>
     chain L (cdata c) 0 (entries_raw c) (current_data_size c)"

lemma chain_le: "chain L d lo xs hi \<Longrightarrow> lo \<le> hi"
proof (induction xs arbitrary: lo)
  case (Cons x xs)
  then have "x + size_at L d x \<le> hi" by (intro Cons.IH) simp
  with Cons.prems show ?case by simp
qed simp

lemma chain_mono: "chain L d lo xs hi \<Longrightarrow> lo' \<le> lo \<Longrightarrow> chain L d lo' xs hi"
  by (cases xs) auto

lemma chain_remove: "chain L d lo (xs @ y # ys) hi \<Longrightarrow> chain L d lo (xs @ ys) hi"
  by (induction xs arbitrary: lo) (auto intro: chain_mono)

lemma chain_snoc: "chain L d lo xs hi \<Longrightarrow> chain L d lo (xs @ [hi]) (hi + size_at L d hi)"
  by (induction xs arbitrary: lo) auto

lemma chain_bound: "chain L d lo xs hi \<Longrightarrow> x \<in> set xs \<Longrightarrow> x + size_at L d x \<le> hi"
proof (induction xs arbitrary: lo)
  case (Cons y ys)
  then show ?case using chain_le [of L d "y + size_at L d y" ys hi] by auto
qed simp

lemma chain_cong:
  assumes "take hi d = take hi d'" "chain L d lo xs hi"
  shows "chain L d' lo xs hi \<and> map (entry_ref L d') xs = map (entry_ref L d) xs"
  using assms(2)
proof (induction xs arbitrary: lo)
  case (Cons x xs)
  have "x + size_at L d x \<le> hi" by (rule chain_bound [OF Cons.prems]) simp
  then have "entry_ref L d' x = entry_ref L d x" by (rule entry_ref_cong [OF assms(1)])
  with Cons.prems Cons.IH [of "x + size_at L d x"] show ?case by (simp add: size_at_def)
qed simp

lemma entry_ref_exact:
  assumes "off + size_at L d off \<le> length d"
  shows "mce_exact L (entry_ref L d off)"
  unfolding entry_ref_def
proof (rule trim_exact)
  let ?e = "\<lparr>mce_md = md_at L d off, mce_mem = drop (off + md_size L) d\<rparr>"
  have "size_at L d off = mce_size L ?e" by (simp add: size_at_def entry_ref_def)
  then show "mce_wf L ?e" using assms by (simp add: mce_wf_def)
qed

lemma content_entries_exact:
  assumes "content_inv L c" "e \<in> set (content_entries L c)"
  shows "mce_exact L e"
proof -
  obtain x where x: "x \<in> set (entries_raw c)" "e = entry_ref L (cdata c) x"
    using assms(2) by (auto simp: content_entries_def)
  have "x + size_at L (cdata c) x \<le> current_data_size c"
    by (rule chain_bound [of L _ 0, OF _ x(1)]) (use assms(1) in \<open>simp add: content_inv_def\<close>)
  then show ?thesis unfolding x(2) by (intro entry_ref_exact) (use assms(1) in \<open>simp add: content_inv_def\<close>)
qed

lemma chain_sum:
  "chain L d lo xs hi \<Longrightarrow> lo + sum_list (map (\<lambda>x. mce_size L (entry_ref L d x)) xs) \<le> hi"
proof (induction xs arbitrary: lo)
  case (Cons x xs)
  then have "x + size_at L d x + sum_list (map (\<lambda>x. mce_size L (entry_ref L d x)) xs) \<le> hi"
    by (intro Cons.IH) simp
  with Cons.prems show ?case by (simp add: size_at_def)
qed simp

section \<open>Pushing\<close>

definition slots :: "content \<Rightarrow> nat" where
  "slots c = (if entry_tbl c ! next_free_slot c = None then length (entry_tbl c) - next_free_slot c else 0)"

lemma filter_None_tail:
  "(\<And>i. i < length tbl \<Longrightarrow> k \<le> i \<Longrightarrow> tbl ! i = None) \<Longrightarrow> filter (\<lambda>e. e \<noteq> None) (drop k tbl) = []"
  by (auto simp: filter_empty_conv in_set_conv_nth)

lemma entries_raw_push:
  assumes "n < length tbl" "\<And>i. i < length tbl \<Longrightarrow> n \<le> i \<Longrightarrow> tbl ! i = None"
  shows "filter (\<lambda>e. e \<noteq> None) (tbl[n := Some x]) = filter (\<lambda>e. e \<noteq> None) tbl @ [Some x]"
proof -
  have n: "filter (\<lambda>e. e \<noteq> None) (drop (Suc n) tbl) = []" "filter (\<lambda>e. e \<noteq> None) (drop n tbl) = []"
    using filter_None_tail [of tbl "Suc n"] filter_None_tail [of tbl n] assms by auto
  have "filter (\<lambda>e. e \<noteq> None) tbl = filter (\<lambda>e. e \<noteq> None) (take n tbl @ drop n tbl)" by simp
  also have "\<dots> = filter (\<lambda>e. e \<noteq> None) (take n tbl)" unfolding filter_append n by simp
  finally have "filter (\<lambda>e. e \<noteq> None) tbl = filter (\<lambda>e. e \<noteq> None) (take n tbl)" .
  moreover have "filter (\<lambda>e. e \<noteq> None) (tbl[n := Some x]) = filter (\<lambda>e. e \<noteq> None) (take n tbl) @ [Some x]"
    unfolding upd_conv_take_nth_drop [OF assms(1)] filter_append using n(1) by simp
  ultimately show ?thesis by simp
qed

text \<open>The content after a push that fits.\<close>

definition pushed :: "layout \<Rightarrow> mce \<Rightarrow> content \<Rightarrow> content" where
  "pushed L e c = c\<lparr>entry_tbl := (entry_tbl c)[next_free_slot c := Some (current_data_size c)],
     next_free_slot := min (next_free_slot c + 1) (length (entry_tbl c) - 1),
     cdata := write_at (cdata c) (current_data_size c) (entry_bytes L e),
     current_data_size := current_data_size c + mce_size L e, invalidate := True\<rparr>"

lemma content_push_cases:
  assumes "content_inv L c" "mce_wf L e"
  shows "content_push L e c =
    (if mce_size L e \<le> space_left L c \<and> 0 < slots c then Some (True, pushed L e c) else Some (False, c))"
  using assms by (auto simp: content_push_def content_inv_def slots_def pushed_def Let_def)

lemma pushed_simps [simp]:
  "total_size (pushed L e c) = total_size c" "length (entry_tbl (pushed L e c)) = length (entry_tbl c)"
  "current_data_size (pushed L e c) = current_data_size c + mce_size L e"
  "pending_deletions (pushed L e c) = pending_deletions c" "invalidate (pushed L e c)"
  by (simp_all add: pushed_def)

lemma pushed_inv:
  assumes L: "layout_ok L" and inv: "content_inv L c" and wf: "mce_wf L e"
    and fits: "mce_size L e \<le> space_left L c" "0 < slots c"
  shows "content_inv L (pushed L e c)" "content_entries L (pushed L e c) = content_entries L c @ [trim L e]"
    "slots (pushed L e c) = slots c - 1"
proof -
  let ?n = "next_free_slot c" and ?t = "entry_tbl c" and ?o = "current_data_size c"
  let ?d = "cdata c" and ?b = "entry_bytes L e"
  let ?d' = "write_at ?d ?o ?b"
  have i: "content_size L + length ?d = total_size c" "?o \<le> length ?d" "?n < length ?t"
    "\<And>i. i < length ?t \<Longrightarrow> ?n < i \<Longrightarrow> ?t ! i = None" "chain L ?d 0 (entries_raw c) ?o"
    using inv by (simp_all add: content_inv_def)
  have free: "?t ! ?n = None" using fits(2) by (auto simp: slots_def split: if_splits)
  then have none: "\<And>i. i < length ?t \<Longrightarrow> ?n \<le> i \<Longrightarrow> ?t ! i = None" using i(4) by (auto simp: le_less)
  have lb: "length ?b = mce_size L e" by (rule length_entry_bytes [OF L wf])
  have fit: "?o + mce_size L e \<le> length ?d" using fits(1) i(1,2) mce_size_bounds(1) [of L e] by (simp add: space_left_def)
  have ld: "length ?d' = length ?d" using fit lb by (simp add: write_at_def)
  have tk: "take ?o ?d = take ?o ?d'" using i(2) by (simp add: write_at_def)
  have raw: "entries_raw (pushed L e c) = entries_raw c @ [?o]"
    using entries_raw_push [OF i(3) none, of ?o] by (simp add: entries_raw_def pushed_def)
  have new: "entry_ref L ?d' ?o = trim L e" by (rule entry_ref_written [OF L wf i(2)])
  have old: "chain L ?d' 0 (entries_raw c) ?o" "map (entry_ref L ?d') (entries_raw c) = content_entries L c"
    using chain_cong [OF tk i(5)] by (simp_all add: content_entries_def)
  show "content_entries L (pushed L e c) = content_entries L c @ [trim L e]"
    using raw new old(2) by (simp add: content_entries_def pushed_def)
  have ch: "chain L ?d' 0 (entries_raw c @ [?o]) (?o + mce_size L e)"
    using chain_snoc [OF old(1)] by (simp add: size_at_def new)
  show "content_inv L (pushed L e c)"
    using i(1-4) fit ld raw ch free unfolding content_inv_def
    by (auto simp: pushed_def nth_list_update min_def)
  show "slots (pushed L e c) = slots c - 1"
    using i(3,4) free by (auto simp: slots_def pushed_def nth_list_update min_def)
qed

lemma push_all_fits:
  assumes L: "layout_ok L"
  shows "content_inv L c \<Longrightarrow> \<forall>e\<in>set es. mce_wf L e \<Longrightarrow> sum_list (map (mce_size L) es) \<le> space_left L c \<Longrightarrow>
    length es \<le> slots c \<Longrightarrow>
    \<exists>c'. push_all L es c = Some c' \<and> content_inv L c' \<and>
      content_entries L c' = content_entries L c @ map (trim L) es \<and>
      current_data_size c' = current_data_size c + sum_list (map (mce_size L) es) \<and>
      total_size c' = total_size c \<and> length (entry_tbl c') = length (entry_tbl c) \<and>
      pending_deletions c' = pending_deletions c \<and> (invalidate c \<longrightarrow> invalidate c') \<and>
      slots c' = slots c - length es"
proof (induction es arbitrary: c)
  case (Cons e es)
  let ?c = "pushed L e c"
  have fits: "mce_size L e \<le> space_left L c" "0 < slots c" "mce_wf L e" using Cons.prems by auto
  have p: "content_push L e c = Some (True, ?c)"
    using content_push_cases [OF Cons.prems(1) fits(3)] fits by simp
  note inv = pushed_inv [OF L Cons.prems(1) fits(3) fits(1,2)]
  have "sum_list (map (mce_size L) es) \<le> space_left L ?c"
    using Cons.prems(3) fits(1) by (simp add: space_left_def)
  moreover have "length es \<le> slots ?c" using Cons.prems(4) inv(3) by simp
  ultimately obtain c' where "push_all L es ?c = Some c'" "content_inv L c'"
    "content_entries L c' = content_entries L ?c @ map (trim L) es"
    "current_data_size c' = current_data_size ?c + sum_list (map (mce_size L) es)"
    "total_size c' = total_size ?c" "length (entry_tbl c') = length (entry_tbl ?c)"
    "pending_deletions c' = pending_deletions ?c" "invalidate c'" "slots c' = slots ?c - length es"
    using Cons.IH [OF inv(1)] Cons.prems(2) by auto
  with p inv(2,3) show ?case by simp
qed simp

section \<open>Clearing, consolidating and removing\<close>

lemma entries_raw_clear [simp]: "entries_raw (content_clear c) = []"
  by (simp add: entries_raw_def content_clear_def filter_map o_def)

lemma content_clear_inv:
  assumes "content_inv L c"
  shows "content_inv L (content_clear c)" "content_entries L (content_clear c) = []"
    "slots (content_clear c) = length (entry_tbl c)"
    "space_left L (content_clear c) = length (cdata c)"
proof -
  have "0 < length (entry_tbl c)" using assms by (auto simp: content_inv_def)
  then show "content_inv L (content_clear c)"
    using assms entries_raw_clear [of c] by (auto simp: content_inv_def content_clear_def)
  show "content_entries L (content_clear c) = []" by (simp add: content_entries_def)
  show "slots (content_clear c) = length (entry_tbl c)"
    using \<open>0 < length (entry_tbl c)\<close> by (simp add: slots_def content_clear_def)
  show "space_left L (content_clear c) = length (cdata c)"
    using assms by (auto simp: content_inv_def space_left_def content_clear_def)
qed

lemma those_map_Some: "(\<And>x. x \<in> set xs \<Longrightarrow> f x = Some (g x)) \<Longrightarrow> those (map f xs) = Some (map g xs)"
  by (induction xs) auto

lemma length_entries_raw: "length (entries_raw c) \<le> length (entry_tbl c)"
  by (simp add: entries_raw_def)

lemma consolidate_ok:
  assumes L: "layout_ok L" and inv: "content_inv L c"
  shows "\<exists>c'. consolidate L c = Some c' \<and> content_inv L c' \<and> content_entries L c' = content_entries L c \<and>
    current_data_size c' = sum_list (map (mce_size L) (content_entries L c)) \<and>
    current_data_size c' \<le> current_data_size c \<and> total_size c' = total_size c \<and>
    length (entry_tbl c') = length (entry_tbl c) \<and> pending_deletions c' = pending_deletions c \<and>
    invalidate c' \<and> slots c' = length (entry_tbl c) - length (content_entries L c)"
proof -
  let ?c = "c\<lparr>invalidate := True\<rparr>" and ?es = "content_entries L c"
  have inv1: "content_inv L ?c" "content_entries L ?c = ?es"
    using inv by (simp_all add: content_inv_def content_entries_def entries_raw_def)
  have ex: "\<forall>e\<in>set ?es. mce_exact L e" using content_entries_exact [OF inv] by blast
  have t: "map (trim L) ?es = ?es" using ex by (simp add: map_idI trim_id)
  have wf: "\<forall>e\<in>set ?es. mce_wf L e" using ex mce_exact_wf by blast
  have cl: "those (map (clone_into_box L) ?es) = Some ?es"
    using those_map_Some [of ?es "clone_into_box L" "trim L"] wf t by (simp add: clone_into_box_wf)
  have sum: "sum_list (map (mce_size L) ?es) \<le> current_data_size c"
    using chain_sum [of L "cdata c" 0 "entries_raw c" "current_data_size c"] inv
    by (simp add: content_inv_def content_entries_def o_def)
  also have "\<dots> \<le> space_left L (content_clear ?c)"
    using content_clear_inv(4) [OF inv1(1)] inv by (simp add: content_inv_def)
  finally have sp: "sum_list (map (mce_size L) ?es) \<le> space_left L (content_clear ?c)" .
  have sl: "length ?es \<le> slots (content_clear ?c)"
    using content_clear_inv(3) [OF inv1(1)] length_entries_raw [of c] by (simp add: content_entries_def)
  from push_all_fits [OF L content_clear_inv(1) [OF inv1(1)] wf sp sl] t sum
  show ?thesis
    by (auto simp: consolidate_def Let_def inv1(2) cl content_clear_inv(2,3) [OF inv1(1)])
      (simp_all add: content_clear_def)
qed

fun remove_id :: "u64 \<Rightarrow> mce list \<Rightarrow> mce list" where
  "remove_id i [] = []"
| "remove_id i (e # es) = (if mce_id e = i then es else e # remove_id i es)"

lemma find_descriptor_Some:
  "find_descriptor L d i k tbl = Some idx \<Longrightarrow>
   \<exists>pre off post. tbl = pre @ Some off # post \<and> idx = k + length pre \<and>
     map (entry_ref L d) (map the (filter (\<lambda>e. e \<noteq> None) (pre @ post))) =
     remove_id i (map (entry_ref L d) (map the (filter (\<lambda>e. e \<noteq> None) tbl)))"
proof (induction L d i k tbl rule: find_descriptor.induct)
  case (2 L d i idx' tbl)
  then obtain pre off post where "tbl = pre @ Some off # post" "idx = idx' + 1 + length pre"
    "map (entry_ref L d) (map the (filter (\<lambda>e. e \<noteq> None) (pre @ post))) =
     remove_id i (map (entry_ref L d) (map the (filter (\<lambda>e. e \<noteq> None) tbl)))" by auto
  then show ?case by (intro exI [of _ "None # pre"]) auto
next
  case (3 L d i idx' off tbl)
  show ?case
  proof (cases "mce_id (entry_ref L d off) = i")
    case True
    with 3 show ?thesis by (intro exI [of _ "[]"]) auto
  next
    case False
    with 3 obtain pre off' post where "tbl = pre @ Some off' # post" "idx = idx' + 1 + length pre"
      "map (entry_ref L d) (map the (filter (\<lambda>e. e \<noteq> None) (pre @ post))) =
       remove_id i (map (entry_ref L d) (map the (filter (\<lambda>e. e \<noteq> None) tbl)))" by auto
    with False show ?thesis by (intro exI [of _ "Some off # pre"]) auto
  qed
qed simp

lemma find_descriptor_None:
  "find_descriptor L d i k tbl = None \<longleftrightarrow>
     i \<notin> mce_id ` set (map (entry_ref L d) (map the (filter (\<lambda>e. e \<noteq> None) tbl)))"
  by (induction L d i k tbl rule: find_descriptor.induct) auto

lemma slots_entries:
  assumes "content_inv L c"
  shows "slots c \<le> length (entry_tbl c) - length (entries_raw c)"
proof (cases "entry_tbl c ! next_free_slot c = None")
  case True
  let ?n = "next_free_slot c" and ?t = "entry_tbl c"
  have "filter (\<lambda>e. e \<noteq> None) (drop ?n ?t) = []"
    using assms True by (intro filter_None_tail) (auto simp: content_inv_def le_less)
  then have "filter (\<lambda>e. e \<noteq> None) ?t = filter (\<lambda>e. e \<noteq> None) (take ?n ?t)"
    by (metis append_Nil2 append_take_drop_id filter_append)
  then have "length (entries_raw c) \<le> ?n"
    using length_filter_le [of "\<lambda>e. e \<noteq> None" "take ?n ?t"] by (simp add: entries_raw_def)
  with True show ?thesis by (simp add: slots_def)
qed (auto simp: slots_def)

text \<open>Clearing a descriptor removes its entry and keeps the others.\<close>

lemma drop_descriptor:
  fixes p :: nat
  assumes inv: "content_inv L c" and tbl: "entry_tbl c = pre @ Some off # post"
  defines "c' \<equiv> c\<lparr>invalidate := True, entry_tbl := pre @ None # post, pending_deletions := p\<rparr>"
  shows "content_inv L c'" "slots c \<le> slots c'"
proof -
  have raw: "entries_raw c = map the (filter (\<lambda>e. e \<noteq> None) pre) @ off # map the (filter (\<lambda>e. e \<noteq> None) post)"
    "entries_raw c' = map the (filter (\<lambda>e. e \<noteq> None) pre) @ map the (filter (\<lambda>e. e \<noteq> None) post)"
    by (simp_all add: entries_raw_def tbl c'_def)
  have ch: "chain L (cdata c) 0 (entries_raw c') (current_data_size c)"
    unfolding raw(2) by (rule chain_remove [of _ _ _ _ off]) (use inv raw(1) in \<open>simp add: content_inv_def\<close>)
  have nth: "(pre @ None # post) ! i = (if i = length pre then None else (pre @ Some off # post) ! i)" for i
    by (auto simp: nth_append nth_Cons split: nat.splits)
  show "content_inv L c'"
    using inv ch unfolding content_inv_def c'_def tbl by (auto simp: nth)
  show "slots c \<le> slots c'"
    by (simp add: slots_def c'_def tbl nth)
qed

lemma content_remove_ok:
  assumes L: "layout_ok L" and inv: "content_inv L c" and i: "i \<in> mce_id ` set (content_entries L c)"
  shows "\<exists>c'. content_remove L i c = Some c' \<and> content_inv L c' \<and>
    content_entries L c' = remove_id i (content_entries L c) \<and> invalidate c' \<and>
    space_left L c \<le> space_left L c' \<and> slots c \<le> slots c' \<and>
    total_size c' = total_size c \<and> length (entry_tbl c') = length (entry_tbl c)"
proof -
  obtain idx where f: "find_descriptor L (cdata c) i 0 (entry_tbl c) = Some idx"
    using i find_descriptor_None [of L "cdata c" i 0 "entry_tbl c"]
    by (fastforce simp: content_entries_def entries_raw_def)
  obtain pre off post where t: "entry_tbl c = pre @ Some off # post" "idx = length pre"
    and es: "map (entry_ref L (cdata c)) (map the (filter (\<lambda>e. e \<noteq> None) (pre @ post))) =
       remove_id i (content_entries L c)"
    using find_descriptor_Some [OF f] by (auto simp: content_entries_def entries_raw_def)
  let ?p = "pending_deletions c + 1"
  let ?c = "\<lambda>p. c\<lparr>invalidate := True, entry_tbl := pre @ None # post, pending_deletions := p\<rparr>"
  note d = drop_descriptor [OF inv t(1)]
  have e1: "content_entries L (?c p) = remove_id i (content_entries L c)" for p
    using es by (simp add: content_entries_def entries_raw_def)
  have r: "content_remove L i c = (if ?p > PENDING_DELETIONS_LIMIT then consolidate L (?c 0) else Some (?c ?p))"
    using f t by (simp add: content_remove_def Let_def)
  show ?thesis
  proof (cases "?p > PENDING_DELETIONS_LIMIT")
    case False
    with r d [of ?p] e1 [of ?p] t(1) show ?thesis by (simp add: space_left_def)
  next
    case True
    from consolidate_ok [OF L d(1) [of 0]] obtain c' where c': "consolidate L (?c 0) = Some c'" "content_inv L c'"
      "content_entries L c' = remove_id i (content_entries L c)" "current_data_size c' \<le> current_data_size c"
      "total_size c' = total_size c" "length (entry_tbl c') = length (entry_tbl c)" "invalidate c'"
      "slots c' = length (entry_tbl c) - length (content_entries L (?c 0))"
      by (auto simp: e1 t(1))
    have "slots c \<le> slots c'"
      using d(2) [of 0] slots_entries [OF d(1) [of 0]] c'(8) t(1) by (simp add: content_entries_def)
    with r True c' show ?thesis by (simp add: space_left_def)
  qed
qed

lemma content_remove_missing:
  "i \<notin> mce_id ` set (content_entries L c) \<Longrightarrow> content_remove L i c = None"
  using find_descriptor_None [of L "cdata c" i 0 "entry_tbl c"]
  by (fastforce simp: content_remove_def content_entries_def entries_raw_def)

section \<open>The contract of the store\<close>

text \<open>
  The loops of the clients: removing a list of ids one after the other, and pushing a list of
  entries without looking at the result.
\<close>

fun remove_ids :: "(u64 \<Rightarrow> 's \<Rightarrow> 's option) \<Rightarrow> u64 list \<Rightarrow> 's \<Rightarrow> 's option" where
  "remove_ids rm [] s = Some s"
| "remove_ids rm (i # is) s = do { s' \<leftarrow> rm i s; remove_ids rm is s' }"

fun push_each :: "(mce \<Rightarrow> 's \<Rightarrow> (bool \<times> 's) option) \<Rightarrow> mce list \<Rightarrow> 's \<Rightarrow> 's option" where
  "push_each psh [] s = Some s"
| "push_each psh (e # es) s = do { (_, s') \<leftarrow> psh e s; push_each psh es s' }"

text \<open>Removing the ids of the entries that satisfy \<open>Q\<close>, on lists.\<close>

fun removable :: "u64 list \<Rightarrow> mce list \<Rightarrow> bool" where
  "removable [] es = True"
| "removable (i # is) es = (i \<in> mce_id ` set es \<and> removable is (remove_id i es))"

lemma removable_Cons_keep:
  "mce_id e \<notin> set is \<Longrightarrow> removable is es \<Longrightarrow> removable is (e # es)"
  by (induction "is" arbitrary: es) auto

lemma removable_filter: "removable (map mce_id (filter (\<lambda>e. Q (mce_id e)) es)) es"
proof (induction es)
  case (Cons e es)
  show ?case
  proof (cases "Q (mce_id e)")
    case False
    then have "mce_id e \<notin> set (map mce_id (filter (\<lambda>e. Q (mce_id e)) es))" by auto
    with Cons False show ?thesis by (simp add: removable_Cons_keep)
  qed (simp add: Cons)
qed simp

lemma foldl_remove_keep:
  "mce_id e \<notin> set is \<Longrightarrow> foldl (\<lambda>es i. remove_id i es) (e # es) is = e # foldl (\<lambda>es i. remove_id i es) es is"
  by (induction "is" arbitrary: es) auto

lemma foldl_remove_filter:
  "foldl (\<lambda>es i. remove_id i es) es (map mce_id (filter (\<lambda>e. Q (mce_id e)) es)) =
     filter (\<lambda>e. \<not> Q (mce_id e)) es"
proof (induction es)
  case (Cons e es)
  show ?case
  proof (cases "Q (mce_id e)")
    case False
    then have "mce_id e \<notin> set (map mce_id (filter (\<lambda>e. Q (mce_id e)) es))" by auto
    with Cons False show ?thesis by (simp add: foldl_remove_keep)
  qed (simp add: Cons)
qed simp

text \<open>
  What the mutation cache relies on: the state is a list of entries; \<open>fits es s\<close> says that there is
  room for \<open>es\<close>; pushing appends, removing takes out the first entry with the id and frees room.
\<close>

locale entry_store =
  fixes L :: layout
    and entries :: "'s \<Rightarrow> mce list"
    and push :: "mce \<Rightarrow> 's \<Rightarrow> (bool \<times> 's) option"
    and remove :: "u64 \<Rightarrow> 's \<Rightarrow> 's option"
    and clear :: "'s \<Rightarrow> 's"
    and inv :: "'s \<Rightarrow> bool"
    and fits :: "mce list \<Rightarrow> 's \<Rightarrow> bool"
  assumes push_ok: "inv s \<Longrightarrow> mce_wf L e \<Longrightarrow> fits (e # es) s \<Longrightarrow>
      \<exists>s'. push e s = Some (True, s') \<and> inv s' \<and> entries s' = entries s @ [trim L e] \<and> fits es s'"
    and push_full: "inv s \<Longrightarrow> mce_wf L e \<Longrightarrow> \<not> fits [e] s \<Longrightarrow> push e s = Some (False, s)"
    and remove_ok: "inv s \<Longrightarrow> i \<in> mce_id ` set (entries s) \<Longrightarrow>
      \<exists>s'. remove i s = Some s' \<and> inv s' \<and> entries s' = remove_id i (entries s) \<and> (\<forall>es. fits es s \<longrightarrow> fits es s')"
    and remove_missing: "inv s \<Longrightarrow> i \<notin> mce_id ` set (entries s) \<Longrightarrow> remove i s = None"
    and clear_ok: "inv s \<Longrightarrow> inv (clear s) \<and> entries (clear s) = []"
    and entries_exact: "inv s \<Longrightarrow> e \<in> set (entries s) \<Longrightarrow> mce_exact L e"
begin

lemma remove_ids_removable:
  "inv s \<Longrightarrow> removable is (entries s) \<Longrightarrow>
   \<exists>s'. remove_ids remove is s = Some s' \<and> inv s' \<and>
     entries s' = foldl (\<lambda>es i. remove_id i es) (entries s) is \<and> (\<forall>es. fits es s \<longrightarrow> fits es s')"
proof (induction "is" arbitrary: s)
  case (Cons i "is")
  then obtain s1 where s1: "remove i s = Some s1" "inv s1" "entries s1 = remove_id i (entries s)"
    "\<forall>es. fits es s \<longrightarrow> fits es s1" using remove_ok [of s i] by auto
  with Cons.IH [of s1] Cons.prems(2) obtain s' where "remove_ids remove is s1 = Some s'" "inv s'"
    "entries s' = foldl (\<lambda>es i. remove_id i es) (entries s1) is" "\<forall>es. fits es s1 \<longrightarrow> fits es s'" by auto
  with s1 show ?case by auto
qed auto

text \<open>Removing every entry whose id satisfies \<open>Q\<close>, by the ids read before the first removal.\<close>

lemma remove_filter:
  assumes "inv s"
  shows "\<exists>s'. remove_ids remove (map mce_id (filter (\<lambda>e. Q (mce_id e)) (entries s))) s = Some s' \<and> inv s' \<and>
    entries s' = filter (\<lambda>e. \<not> Q (mce_id e)) (entries s) \<and> (\<forall>es. fits es s \<longrightarrow> fits es s')"
  using remove_ids_removable [OF assms removable_filter] by (simp add: foldl_remove_filter)

lemma push_each_fits:
  "inv s \<Longrightarrow> \<forall>e\<in>set es. mce_wf L e \<Longrightarrow> fits es s \<Longrightarrow>
   \<exists>s'. push_each push es s = Some s' \<and> inv s' \<and> entries s' = entries s @ map (trim L) es"
proof (induction es arbitrary: s)
  case (Cons e es)
  then obtain s1 where s1: "push e s = Some (True, s1)" "inv s1" "entries s1 = entries s @ [trim L e]"
    "fits es s1" using push_ok [of s e es] by auto
  with Cons.IH [of s1] Cons.prems show ?case by auto
qed auto

lemma push_each_total:
  "inv s \<Longrightarrow> \<forall>e\<in>set es. mce_wf L e \<Longrightarrow>
   \<exists>s'. push_each push es s = Some s' \<and> inv s' \<and> (\<exists>ks. set ks \<subseteq> set es \<and> entries s' = entries s @ map (trim L) ks)"
proof (induction es arbitrary: s)
  case (Cons e es)
  show ?case
  proof (cases "fits [e] s")
    case True
    then obtain s1 where s1: "push e s = Some (True, s1)" "inv s1" "entries s1 = entries s @ [trim L e]"
      using push_ok [of s e "[]"] Cons.prems by auto
    with Cons.IH [of s1] Cons.prems obtain s' ks where "push_each push es s1 = Some s'" "inv s'"
      "set ks \<subseteq> set es" "entries s' = entries s1 @ map (trim L) ks" by auto
    with s1 show ?thesis by (intro exI [of _ s'] conjI exI [of _ "e # ks"]) auto
  next
    case False
    then have "push e s = Some (False, s)" using push_full [of s e] Cons.prems by simp
    with Cons.IH [of s] Cons.prems show ?thesis by auto
  qed
qed auto

end

definition content_fits :: "layout \<Rightarrow> mce list \<Rightarrow> content \<Rightarrow> bool" where
  "content_fits L es c \<longleftrightarrow> sum_list (map (mce_size L) es) \<le> space_left L c \<and> length es \<le> slots c"

interpretation cc: entry_store L "content_entries L" "content_push L" "content_remove L" content_clear
  "\<lambda>c. layout_ok L \<and> content_inv L c" "content_fits L" for L
proof
  fix c e es
  assume i: "layout_ok L \<and> content_inv L c" and w: "mce_wf L e" and f: "content_fits L (e # es) c"
  from f have f1: "mce_size L e \<le> space_left L c" "0 < slots c" by (auto simp: content_fits_def)
  note p = pushed_inv [OF conjunct1 [OF i] conjunct2 [OF i] w f1]
  have "content_fits L es (pushed L e c)" using f p(3) by (auto simp: content_fits_def space_left_def)
  with p i f1 w show "\<exists>c'. content_push L e c = Some (True, c') \<and> (layout_ok L \<and> content_inv L c') \<and>
      content_entries L c' = content_entries L c @ [trim L e] \<and> content_fits L es c'"
    by (intro exI [of _ "pushed L e c"]) (simp add: content_push_cases)
next
  fix c i
  assume i: "layout_ok L \<and> content_inv L c" "i \<in> mce_id ` set (content_entries L c)"
  from content_remove_ok [OF conjunct1 [OF i(1)] conjunct2 [OF i(1)] i(2)] i(1)
  show "\<exists>c'. content_remove L i c = Some c' \<and> (layout_ok L \<and> content_inv L c') \<and>
      content_entries L c' = remove_id i (content_entries L c) \<and>
      (\<forall>es. content_fits L es c \<longrightarrow> content_fits L es c')"
    by (auto simp: content_fits_def)
qed (auto simp: content_push_cases content_fits_def content_remove_missing content_clear_inv
    content_entries_exact)

text \<open>An empty content of 512 bytes with three descriptors, and one with an entry.\<close>

definition sample_content :: content where
  "sample_content = \<lparr>total_size = 3200552, current_data_size = 0, next_free_slot = 0,
     pending_deletions = 0, invalidate = False, entry_tbl = [None, None, None], cdata = replicate 512 0\<rparr>"

definition sample_content1 :: content where
  "sample_content1 = pushed ref_layout (sample_mce 7) sample_content"

lemma sample_content_facts:
  "content_inv ref_layout sample_content" "content_entries ref_layout sample_content = []"
  "slots sample_content = 3" "space_left ref_layout sample_content = 512"
  by (auto simp: sample_content_def content_inv_def ref_layout_def content_entries_def entries_raw_def
      slots_def space_left_def nth_Cons less_Suc_eq numeral_3_eq_3 split: nat.splits)

lemma sample_content1_facts:
  "content_inv ref_layout sample_content1" "content_entries ref_layout sample_content1 = [sample_mce 7]"
  using pushed_inv [OF ref_layout_ok sample_content_facts(1) sample_mce_facts(2) [of 7]]
    sample_content_facts sample_mce_facts(1,7) [of 7]
  by (simp_all add: sample_content1_def trim_id)

section \<open>Properties\<close>

text \<open>
  C2: Pushing an entry into the shared memory either appends it to the entries, its mask and
  metadata read back unchanged and no byte of another entry damaged, or, when the buffer or the
  descriptor table is full, changes nothing; the invariant of the memory is kept.
\<close>

theorem content_push_correct:
  assumes "layout_ok L" "content_inv L c" "mce_wf L e"
  shows "case content_push L e c of
      None \<Rightarrow> False
    | Some (b, c') \<Rightarrow> content_inv L c' \<and>
        (if b then (\<exists>e'. content_entries L c' = content_entries L c @ [e'] \<and> mce_eq e' e) \<and> is_invalidated c'
         else c' = c \<and> (space_left L c < mce_size L e \<or> entry_tbl c ! (length (entry_tbl c) - 1) \<noteq> None))"
proof -
  have "mce_eq (trim L e) e" by (simp add: mce_eq_def trim_msk)
  moreover have "slots c = 0 \<Longrightarrow> entry_tbl c ! (length (entry_tbl c) - 1) \<noteq> None"
  proof -
    assume z: "slots c = 0"
    then have "entry_tbl c ! next_free_slot c \<noteq> None" "Suc (next_free_slot c) = length (entry_tbl c)"
      using assms(2) by (auto simp: slots_def content_inv_def split: if_splits)
    moreover from this(2) have "next_free_slot c = length (entry_tbl c) - 1" by linarith
    ultimately show ?thesis by simp
  qed
  ultimately show ?thesis
    using content_push_cases [OF assms(2,3)] pushed_inv [OF assms] assms(2)
    by (auto simp: is_invalidated_def)
qed

theorem content_push_correct_witness:
  "\<exists>e' c'. content_push ref_layout (sample_mce 8) sample_content1 = Some (True, c') \<and>
     content_entries ref_layout c' = [sample_mce 7, e'] \<and> mce_eq e' (sample_mce 8)"
proof -
  have "space_left ref_layout sample_content1 = 408" "entry_tbl sample_content1 ! 2 = None"
    "length (entry_tbl sample_content1) = 3"
    by (simp_all add: sample_content1_def sample_content_def space_left_def ref_layout_def pushed_def
        sample_mce_facts(7) [unfolded ref_layout_def])
  then show ?thesis
    using content_push_correct [OF ref_layout_ok sample_content1_facts(1) sample_mce_facts(2) [of 8]]
      sample_content1_facts(2) sample_mce_facts(7) [of 8]
    by (auto split: option.splits if_splits)
qed

text \<open>
  C21: Removing an id takes the first entry with that id out of the list and nothing else, also when
  the removal triggers the consolidation of the buffer; removing an id that is not there panics.
\<close>

theorem content_remove_correct:
  assumes "layout_ok L" "content_inv L c"
  shows "case content_remove L i c of
      None \<Rightarrow> i \<notin> mce_id ` set (content_entries L c)
    | Some c' \<Rightarrow> i \<in> mce_id ` set (content_entries L c) \<and> content_inv L c' \<and> is_invalidated c' \<and>
        content_entries L c' = remove_id i (content_entries L c)"
  using content_remove_ok [OF assms, of i] content_remove_missing [of i L c]
  by (cases "i \<in> mce_id ` set (content_entries L c)") (auto simp: is_invalidated_def)

theorem content_remove_correct_witness:
  "\<exists>c'. content_remove ref_layout 7 sample_content1 = Some c' \<and> content_entries ref_layout c' = []"
  using content_remove_correct [OF ref_layout_ok sample_content1_facts(1), of 7]
    sample_content1_facts(2) sample_mce_facts(3) [of 7]
  by (auto split: option.splits)

text \<open>
  C22: Consolidating keeps the entries in their order and leaves no gap: the buffer then holds
  exactly the bytes of the entries, and never more than before.
\<close>

theorem consolidate_correct:
  assumes "layout_ok L" "content_inv L c"
  shows "\<exists>c'. consolidate L c = Some c' \<and> content_inv L c' \<and> content_entries L c' = content_entries L c \<and>
    total_used_bytes L c' = content_size L + sum_list (map (mce_size L) (content_entries L c)) \<and>
    space_left L c \<le> space_left L c'"
  using consolidate_ok [OF assms] by (auto simp: total_used_bytes_def space_left_def)

theorem consolidate_correct_witness:
  "\<exists>c'. consolidate ref_layout sample_content1 = Some c' \<and>
     content_entries ref_layout c' = [sample_mce 7] \<and> total_used_bytes ref_layout c' = 3200144"
  using consolidate_correct [OF ref_layout_ok sample_content1_facts(1)]
    sample_content1_facts(2) sample_mce_facts(7) [of 7]
  by (auto simp: ref_layout_def)

end
