(* ===== verification/Mutation_Cache.thy ===== *)
theory Mutation_Cache
  imports Mutation_Cache_Content
begin

text \<open>
  The mutation cache (\<^verbatim>\<open>fuzztruction_shared/src/mutation_cache.rs\<close>): the handle through which the
  fuzzer and the agent use the memory of \<^theory_text>\<open>Mutation_Cache_Content\<close>, backed by a shared memory
  object or by the heap. The operations below are those on the content; opening and mapping
  the shared memory object is the operating system's work and enters as parameters.

  A snapshot of the content as bytes is a content record whose buffer is cut to the bytes copied:
  the header and the descriptor table are at the start of the memory, so every prefix the code
  copies contains them.
\<close>

section \<open>Data and life cycle\<close>

datatype mc_error = CacheOverflow | ShmNotFound | ShmError | OtherError

datatype backing_memory = ShmMemory string int | HeapMemory

record mcache =
  mc_backing :: backing_memory
  mc_content_size :: nat
  mc_content :: content

definition MUTATION_CACHE_DEFAULT_SIZE :: nat where
  "MUTATION_CACHE_DEFAULT_SIZE = 256 * 1024 * 1024"

definition MAX_MUTATION_CACHE_ENTRIES :: nat where
  "MAX_MUTATION_CACHE_ENTRIES = 200000"

text \<open>Zeroed memory of \<open>sz\<close> bytes, of which \<open>content_size\<close> are taken by the header.\<close>

definition zeroed_content :: "layout \<Rightarrow> nat \<Rightarrow> content" where
  "zeroed_content L sz = \<lparr>total_size = 0, current_data_size = 0, next_free_slot = 0,
     pending_deletions = 0, invalidate = False, entry_tbl = replicate MAX_MUTATION_CACHE_ENTRIES None,
     cdata = replicate (sz - content_size L) 0\<rparr>"

definition shm_name :: "mcache \<Rightarrow> string option" where
  "shm_name m = (case mc_backing m of ShmMemory name fd \<Rightarrow> Some name | HeapMemory \<Rightarrow> None)"

definition mc_bytes_used :: "layout \<Rightarrow> mcache \<Rightarrow> nat" where
  "mc_bytes_used L m = total_used_bytes L (mc_content m)"

definition mc_entries :: "layout \<Rightarrow> mcache \<Rightarrow> mce list" where
  "mc_entries L m = content_entries L (mc_content m)"

text \<open>
  \<open>fd\<close>, \<open>trunc\<close>, \<open>stat\<close> and \<open>mapped\<close> are the results of \<^verbatim>\<open>shm_open\<close>, \<^verbatim>\<open>ftruncate\<close>, \<^verbatim>\<open>fstat\<close> (the size of
  the object) and \<^verbatim>\<open>mmap\<close> (the content found there; none when it fails). The page-aligned
  mapping satisfies the assertion on the alignment.
\<close>

definition shm_open :: "layout \<Rightarrow> string \<Rightarrow> bool \<Rightarrow> int \<Rightarrow> bool \<Rightarrow> nat option \<Rightarrow> content option \<Rightarrow>
    (mc_error + mcache) option" where
  "shm_open L name create fd trunc stat mapped = do {
     require (\<not> create \<or> MUTATION_CACHE_DEFAULT_SIZE \<ge> content_size L);
     if fd < 0 then Some (Inl ShmError)
     else if create \<and> \<not> trunc then Some (Inl ShmError)
     else if \<not> create \<and> stat = None then Some (Inl ShmError)
     else do {
       let sz = (if create then MUTATION_CACHE_DEFAULT_SIZE else the stat);
       case mapped of None \<Rightarrow> Some (Inl ShmError)
       | Some c \<Rightarrow> do {
           c \<leftarrow> (if create then content_init L sz c else Some c);
           Some (Inr \<lparr>mc_backing = ShmMemory name fd, mc_content_size = sz, mc_content = c\<rparr>) } } }"

definition open_shm_from_env :: "layout \<Rightarrow> string option \<Rightarrow> int \<Rightarrow> bool \<Rightarrow> nat option \<Rightarrow> content option \<Rightarrow>
    (mc_error + mcache) option" where
  "open_shm_from_env L send_name fd trunc stat mapped = (case send_name of
     None \<Rightarrow> Some (Inl ShmNotFound)
   | Some name \<Rightarrow> shm_open L name False fd trunc stat mapped)"

definition mc_new :: "layout \<Rightarrow> mcache option" where
  "mc_new L = do {
     let sz = MUTATION_CACHE_DEFAULT_SIZE;
     require (sz > content_size L);
     c \<leftarrow> content_init L sz (zeroed_content L sz);
     Some \<lparr>mc_backing = HeapMemory, mc_content_size = sz, mc_content = c\<rparr> }"

section \<open>Loading and saving\<close>

text \<open>The bytes of a cache image: header and buffer.\<close>

definition image_len :: "layout \<Rightarrow> content \<Rightarrow> nat" where
  "image_len L img = content_size L + length (cdata img)"

definition load_bytes :: "layout \<Rightarrow> content \<Rightarrow> mcache \<Rightarrow> mcache option" where
  "load_bytes L img m = do {
     require (image_len L img \<le> mc_content_size m);
     let c = img\<lparr>cdata := cdata img @ drop (length (cdata img)) (cdata (mc_content m))\<rparr>;
     Some (m\<lparr>mc_content := content_update (mc_content_size m) c\<rparr>) }"

definition save_bytes_unconsolidated :: "layout \<Rightarrow> mcache \<Rightarrow> content option" where
  "save_bytes_unconsolidated L m = do {
     require (total_used_bytes L (mc_content m) \<le> mc_content_size m);
     Some ((mc_content m)\<lparr>cdata := take (current_data_size (mc_content m)) (cdata (mc_content m))\<rparr>) }"

definition save_bytes :: "layout \<Rightarrow> mcache \<Rightarrow> (content \<times> mcache) option" where
  "save_bytes L m = do {
     c \<leftarrow> consolidate L (mc_content m);
     let m = m\<lparr>mc_content := c\<rparr>;
     img \<leftarrow> save_bytes_unconsolidated L m;
     Some (img, m) }"

definition try_clone :: "layout \<Rightarrow> mcache \<Rightarrow> mcache option" where
  "try_clone L m = do {
     ret \<leftarrow> mc_new L;
     load_bytes L (mc_content m) ret }"

definition replace_content :: "layout \<Rightarrow> mcache \<Rightarrow> mcache \<Rightarrow> (mc_error + mcache) option" where
  "replace_content L m other =
     (if mc_content_size m < mc_content_size other then Some (Inl CacheOverflow)
      else map_option Inr (load_bytes L (mc_content other) m))"

section \<open>Entries\<close>

definition mc_push :: "layout \<Rightarrow> mce \<Rightarrow> mcache \<Rightarrow> (bool \<times> mcache) option" where
  "mc_push L e m = map_option (\<lambda>(b, c). (b, m\<lparr>mc_content := c\<rparr>)) (content_push L e (mc_content m))"

definition mc_remove :: "layout \<Rightarrow> u64 \<Rightarrow> mcache \<Rightarrow> mcache option" where
  "mc_remove L i m = map_option (\<lambda>c. m\<lparr>mc_content := c\<rparr>) (content_remove L i (mc_content m))"

definition mc_clear :: "mcache \<Rightarrow> mcache" where
  "mc_clear m = m\<lparr>mc_content := content_clear (mc_content m)\<rparr>"

definition mc_len :: "layout \<Rightarrow> mcache \<Rightarrow> nat" where
  "mc_len L m = length (mc_entries L m)"

definition mc_from_iter :: "layout \<Rightarrow> mce list \<Rightarrow> mcache option" where
  "mc_from_iter L es = do { ret \<leftarrow> mc_new L; push_each (mc_push L) es ret }"

definition retain_whitelisted :: "layout \<Rightarrow> u64 list \<Rightarrow> mcache \<Rightarrow> mcache option" where
  "retain_whitelisted L whitelist m =
     remove_ids (mc_remove L)
       (map mce_id (filter (\<lambda>e. mce_id e \<notin> set whitelist) (mc_entries L m))) m"

text \<open>
  \<^verbatim>\<open>Vec::retain\<close> with a closure that has a state of its own: the elements for which it returns true.
\<close>

fun vec_retain :: "('st \<Rightarrow> 'a \<Rightarrow> bool \<times> 'st) \<Rightarrow> 'st \<Rightarrow> 'a list \<Rightarrow> 'a list" where
  "vec_retain f st [] = []"
| "vec_retain f st (x # xs) = (let (b, st') = f st x in if b then x # vec_retain f st' xs else vec_retain f st' xs)"

definition retain :: "layout \<Rightarrow> ('st \<Rightarrow> mce \<Rightarrow> bool \<times> 'st) \<Rightarrow> 'st \<Rightarrow> mcache \<Rightarrow> mcache option" where
  "retain L f st m = retain_whitelisted L (map mce_id (vec_retain f st (mc_entries L m))) m"

definition purge_nop_entries :: "layout \<Rightarrow> mcache \<Rightarrow> mcache option" where
  "purge_nop_entries L m = retain_whitelisted L
     (map mce_id (filter (\<lambda>e. msk_len e > 0 \<and> list_ex (\<lambda>b. b \<noteq> 0) (get_msk_as_slice e)) (mc_entries L m))) m"

definition union_and_replace :: "layout \<Rightarrow> mcache \<Rightarrow> mcache \<Rightarrow> mcache option" where
  "union_and_replace L m other = do {
     let other_ids = set (map mce_id (mc_entries L other));
     m \<leftarrow> retain L (\<lambda>_ e. (mce_id e \<notin> other_ids, ())) () m;
     push_each (mc_push L) (mc_entries L other) m }"

definition remove_by_location_type :: "layout \<Rightarrow> location_type \<Rightarrow> mcache \<Rightarrow> mcache option" where
  "remove_by_location_type L ty m =
     retain L (\<lambda>_ e. (loc_type (md_spill_slot (mce_md e)) \<noteq> ty, ())) () m"

definition remove_const_type :: "layout \<Rightarrow> mcache \<Rightarrow> mcache option" where
  "remove_const_type L m = remove_by_location_type L LT_Constant m"

definition limit :: "layout \<Rightarrow> nat \<Rightarrow> mcache \<Rightarrow> mcache option" where
  "limit L mx m = retain L (\<lambda>lim e. if lim > 0 then (True, lim - 1) else (False, lim)) mx m"

definition assert_msks_len_not_zero :: "layout \<Rightarrow> mcache \<Rightarrow> mcache option" where
  "assert_msks_len_not_zero L m = do {
     require (list_all (\<lambda>e. msk_len e > 0) (mc_entries L m));
     Some m }"

definition total_msk_len :: "layout \<Rightarrow> mcache \<Rightarrow> nat" where
  "total_msk_len L m = foldl (\<lambda>s e. s + msk_len e) 0 (mc_entries L m)"

text \<open>
  Updating every entry in place (\<^verbatim>\<open>iter_mut().for_each\<close>): the entry at each offset is read, changed and
  its bytes are written back to the same place.
\<close>

definition update_at :: "layout \<Rightarrow> (mce \<Rightarrow> mce) \<Rightarrow> u8 list \<Rightarrow> nat \<Rightarrow> u8 list" where
  "update_at L f d off = write_at d off (entry_bytes L (f (entry_ref L d off)))"

definition for_each_mut :: "layout \<Rightarrow> (mce \<Rightarrow> mce) \<Rightarrow> mcache \<Rightarrow> mcache" where
  "for_each_mut L f m = m\<lparr>mc_content := (mc_content m)\<lparr>
     cdata := foldl (update_at L f) (cdata (mc_content m)) (entries_raw (mc_content m))\<rparr>\<rparr>"

definition mc_reset_flags :: "layout \<Rightarrow> mcache \<Rightarrow> mcache" where
  "mc_reset_flags L = for_each_mut L reset_flags"

definition mc_set_flag :: "layout \<Rightarrow> mce_flag \<Rightarrow> mcache \<Rightarrow> mcache" where
  "mc_set_flag L f = for_each_mut L (set_flag f)"

definition mc_unset_flag :: "layout \<Rightarrow> mce_flag \<Rightarrow> mcache \<Rightarrow> mcache" where
  "mc_unset_flag L f = for_each_mut L (unset_flag f)"

definition mc_enable_tracing :: "layout \<Rightarrow> mcache \<Rightarrow> mcache" where
  "mc_enable_tracing L = mc_set_flag L F_TracingEnabled"

definition mc_disable_tracing :: "layout \<Rightarrow> mcache \<Rightarrow> mcache" where
  "mc_disable_tracing L = mc_unset_flag L F_TracingEnabled"

section \<open>Invariant\<close>

definition mc_inv :: "layout \<Rightarrow> mcache \<Rightarrow> bool" where
  "mc_inv L m \<longleftrightarrow> layout_ok L \<and> content_inv L (mc_content m) \<and> mc_content_size m = total_size (mc_content m)"

definition mc_fits :: "layout \<Rightarrow> mce list \<Rightarrow> mcache \<Rightarrow> bool" where
  "mc_fits L es m = content_fits L es (mc_content m)"

lemma total_size_clear [simp]: "total_size (content_clear c) = total_size c"
  by (simp add: content_clear_def)

interpretation mc: entry_store L "mc_entries L" "mc_push L" "mc_remove L" mc_clear "mc_inv L" "mc_fits L" for L
proof
  fix m e es
  assume i: "mc_inv L m" and w: "mce_wf L e" and f: "mc_fits L (e # es) m"
  have ci: "layout_ok L" "content_inv L (mc_content m)" "content_fits L (e # es) (mc_content m)"
    using i f by (simp_all add: mc_inv_def mc_fits_def)
  have f1: "mce_size L e \<le> space_left L (mc_content m)" "0 < slots (mc_content m)"
    using ci(3) by (auto simp: content_fits_def)
  note p = pushed_inv [OF ci(1,2) w f1]
  have "content_fits L es (pushed L e (mc_content m))"
    using ci(3) p(3) by (auto simp: content_fits_def space_left_def)
  with p i f1 w ci show "\<exists>m'. mc_push L e m = Some (True, m') \<and> mc_inv L m' \<and>
      mc_entries L m' = mc_entries L m @ [trim L e] \<and> mc_fits L es m'"
    by (simp add: mc_push_def content_push_cases mc_inv_def mc_fits_def mc_entries_def)
next
  fix m i
  assume i: "mc_inv L m" "i \<in> mce_id ` set (mc_entries L m)"
  have ci: "layout_ok L" "content_inv L (mc_content m)" "i \<in> mce_id ` set (content_entries L (mc_content m))"
    using i by (simp_all add: mc_inv_def mc_entries_def)
  from content_remove_ok [OF ci] i(1)
  show "\<exists>m'. mc_remove L i m = Some m' \<and> mc_inv L m' \<and>
      mc_entries L m' = remove_id i (mc_entries L m) \<and> (\<forall>es. mc_fits L es m \<longrightarrow> mc_fits L es m')"
    by (auto simp: mc_remove_def mc_inv_def mc_entries_def mc_fits_def content_fits_def)
next
  fix m e
  assume "mc_inv L m" "mce_wf L e" "\<not> mc_fits L [e] m"
  then have "content_push L e (mc_content m) = Some (False, mc_content m)"
    by (simp add: mc_inv_def mc_fits_def content_fits_def content_push_cases Suc_le_eq)
  then show "mc_push L e m = Some (False, m)" by (simp add: mc_push_def)
next
  fix m i
  assume "i \<notin> mce_id ` set (mc_entries L m)"
  then show "mc_remove L i m = None" by (simp add: mc_remove_def mc_entries_def content_remove_missing)
next
  fix m
  assume i: "mc_inv L m"
  then show "mc_inv L (mc_clear m) \<and> mc_entries L (mc_clear m) = []"
    using content_clear_inv(1,2) [of L "mc_content m"] by (simp add: mc_inv_def mc_clear_def mc_entries_def)
  fix e
  assume "e \<in> set (mc_entries L m)"
  with i show "mce_exact L e"
    using content_entries_exact [of L "mc_content m" e] by (simp add: mc_inv_def mc_entries_def)
qed

section \<open>Retaining entries\<close>

lemma vec_retain_pure: "vec_retain (\<lambda>_ x. (f x, ())) () xs = filter f xs"
  by (induction xs) auto

lemma vec_retain_limit:
  "vec_retain (\<lambda>lim e. if lim > 0 then (True, lim - 1) else (False, lim)) n xs = take n xs"
proof (induction xs arbitrary: n)
  case (Cons x xs)
  have "vec_retain (\<lambda>lim e. if lim > 0 then (True, lim - 1) else (False, lim)) (0 :: nat) xs = []"
    using Cons [of 0] by simp
  then show ?case using Cons by (cases n) auto
qed simp

lemma set_vec_retain: "set (vec_retain f st xs) \<subseteq> set xs"
  by (induction xs arbitrary: st) (auto split: prod.splits)

lemma subseq_ids_filter:
  assumes "distinct (map mce_id es)" "ks = vec_retain f st es"
  shows "filter (\<lambda>e. mce_id e \<in> set (map mce_id ks)) es = ks"
  using assms
proof (induction es arbitrary: ks st)
  case (Cons e es)
  obtain b st' where f: "f st e = (b, st')" by fastforce
  let ?k = "vec_retain f st' es"
  have sub: "set ?k \<subseteq> set es" by (rule set_vec_retain)
  have e: "mce_id e \<notin> set (map mce_id es)" "distinct (map mce_id es)" using Cons.prems(1) by auto
  then have nk: "mce_id e \<notin> set (map mce_id ?k)" using sub by auto
  have ne: "mce_id x \<noteq> mce_id e" if "x \<in> set es" for x
    using e(1) that by (metis image_eqI list.set_map)
  have c: "filter (\<lambda>x. mce_id x = mce_id e \<or> mce_id x \<in> set (map mce_id ?k)) es =
      filter (\<lambda>x. mce_id x \<in> set (map mce_id ?k)) es"
    by (intro filter_cong refl) (simp add: ne)
  have ih: "filter (\<lambda>x. mce_id x \<in> set (map mce_id ?k)) es = ?k" by (rule Cons.IH [OF e(2) refl])
  have ks: "ks = (if b then e # ?k else ?k)" using Cons.prems(2) f by simp
  show ?case
  proof (cases b)
    case True
    then have "filter (\<lambda>x. mce_id x \<in> set (map mce_id ks)) (e # es) =
        e # filter (\<lambda>x. mce_id x = mce_id e \<or> mce_id x \<in> set (map mce_id ?k)) es"
      unfolding ks by simp
    then show ?thesis using True unfolding c ih ks by simp
  next
    case False
    with nk ih show ?thesis unfolding ks by simp
  qed
qed simp

lemma retain_whitelisted_ok:
  assumes "mc_inv L m"
  shows "\<exists>m'. retain_whitelisted L wl m = Some m' \<and> mc_inv L m' \<and>
    mc_entries L m' = filter (\<lambda>e. mce_id e \<in> set wl) (mc_entries L m) \<and>
    (\<forall>es. mc_fits L es m \<longrightarrow> mc_fits L es m')"
  using mc.remove_filter [OF assms, of "\<lambda>i. i \<notin> set wl"] by (simp add: retain_whitelisted_def)

lemma retain_ok:
  assumes "mc_inv L m" "distinct (map mce_id (mc_entries L m))"
  shows "\<exists>m'. retain L f st m = Some m' \<and> mc_inv L m' \<and>
    mc_entries L m' = vec_retain f st (mc_entries L m) \<and> (\<forall>es. mc_fits L es m \<longrightarrow> mc_fits L es m')"
  using retain_whitelisted_ok [OF assms(1), of "map mce_id (vec_retain f st (mc_entries L m))"]
    subseq_ids_filter [OF assms(2) refl, of f st]
  by (simp only: retain_def)

lemma retain_by_id_ok:
  assumes "mc_inv L m"
  shows "\<exists>m'. retain L (\<lambda>_ e. (Q (mce_id e), ())) () m = Some m' \<and> mc_inv L m' \<and>
    mc_entries L m' = filter (\<lambda>e. Q (mce_id e)) (mc_entries L m) \<and> (\<forall>es. mc_fits L es m \<longrightarrow> mc_fits L es m')"
proof -
  have "filter (\<lambda>e. mce_id e \<in> set (map mce_id (filter (\<lambda>e. Q (mce_id e)) es))) es =
      filter (\<lambda>e. Q (mce_id e)) es" for es
    by (intro filter_cong refl) auto
  then show ?thesis
    using retain_whitelisted_ok [OF assms, of "map mce_id (filter (\<lambda>e. Q (mce_id e)) (mc_entries L m))"]
    unfolding retain_def vec_retain_pure by simp
qed

section \<open>Updating in place\<close>

lemma drop_cong_ge: "drop n d = drop n d' \<Longrightarrow> n \<le> off \<Longrightarrow> drop off d = drop off d'"
  by (metis drop_drop le_add_diff_inverse2)

lemma entry_ref_drop_cong:
  assumes "drop n d = drop n d'" "n \<le> off"
  shows "entry_ref L d off = entry_ref L d' off"
proof -
  have "drop off d = drop off d'" "drop (off + md_size L) d = drop (off + md_size L) d'"
    using drop_cong_ge [OF assms(1)] assms(2) by simp_all
  then show ?thesis by (simp add: entry_ref_def md_at_def)
qed

lemma chain_drop_cong:
  assumes "drop n d = drop n d'" "n \<le> lo" "chain L d lo xs hi"
  shows "chain L d' lo xs hi \<and> map (entry_ref L d') xs = map (entry_ref L d) xs"
  using assms(2,3)
proof (induction xs arbitrary: lo)
  case (Cons x xs)
  have "entry_ref L d' x = entry_ref L d x"
    using entry_ref_drop_cong [OF assms(1), of x L] Cons.prems by simp
  moreover from this have "size_at L d' x = size_at L d x" by (simp add: size_at_def)
  ultimately show ?case using Cons.IH [of "x + size_at L d x"] Cons.prems by simp
qed simp

lemma update_chain:
  assumes L: "layout_ok L"
    and f: "\<And>e. mce_exact L e \<Longrightarrow> mce_exact L (f e) \<and> mce_size L (f e) = mce_size L e"
  shows "chain L d lo xs hi \<Longrightarrow> hi \<le> length d \<Longrightarrow>
    length (foldl (update_at L f) d xs) = length d \<and> take lo (foldl (update_at L f) d xs) = take lo d \<and>
    chain L (foldl (update_at L f) d xs) lo xs hi \<and>
    map (entry_ref L (foldl (update_at L f) d xs)) xs = map f (map (entry_ref L d) xs)"
proof (induction xs arbitrary: d lo)
  case (Cons x xs)
  let ?e = "entry_ref L d x" and ?d1 = "update_at L f d x"
  let ?s = "size_at L d x" and ?d' = "foldl (update_at L f) (update_at L f d x) xs"
  have b: "x + ?s \<le> hi" by (rule chain_bound [OF Cons.prems(1)]) simp
  then have ex: "mce_exact L ?e" using Cons.prems(2) by (intro entry_ref_exact) simp
  note fe = f [OF ex]
  have lb: "length (entry_bytes L (f ?e)) = ?s"
    using length_entry_bytes [OF L mce_exact_wf] fe by (simp add: size_at_def)
  have x: "x \<le> length d" using b Cons.prems(2) by simp
  have l1: "length ?d1 = length d" using b Cons.prems(2) lb by (simp add: update_at_def write_at_def)
  have t1: "take x ?d1 = take x d" using x by (simp add: update_at_def write_at_def)
  have d1: "drop (x + ?s) ?d1 = drop (x + ?s) d" using x lb by (simp add: update_at_def write_at_def)
  have e1: "entry_ref L ?d1 x = f ?e"
    using entry_ref_written [OF L _ x, of "f ?e"] fe by (simp add: update_at_def mce_exact_wf trim_id)
  have s1: "size_at L ?d1 x = ?s" using fe by (simp add: size_at_def e1)
  have c: "chain L d (x + ?s) xs hi" "lo \<le> x" using Cons.prems(1) by simp_all
  have c1: "chain L ?d1 (x + ?s) xs hi" "map (entry_ref L ?d1) xs = map (entry_ref L d) xs"
    using chain_drop_cong [OF d1 [symmetric] order_refl c(1)] by simp_all
  have ih: "length ?d' = length ?d1" "take (x + ?s) ?d' = take (x + ?s) ?d1"
    "chain L ?d' (x + ?s) xs hi" "map (entry_ref L ?d') xs = map f (map (entry_ref L ?d1) xs)"
    using Cons.IH [OF c1(1)] Cons.prems(2) l1 by simp_all
  have e': "entry_ref L ?d' x = f ?e"
    using entry_ref_cong [of "x + ?s" ?d1 ?d' x L] ih(2) s1 e1 by simp
  have "take lo ?d' = take lo d"
  proof -
    have "take x ?d' = take x ?d1" using ih(2) by (metis take_take min_def le_add1)
    with t1 have "take lo (take x ?d') = take lo (take x d)" by simp
    with c(2) show ?thesis by (simp add: min_absorb1)
  qed
  moreover have "size_at L ?d' x = ?s" using fe by (simp add: size_at_def e')
  ultimately show ?case using ih l1 c(2) c1(2) e' by simp
qed simp

lemma for_each_mut_ok:
  assumes inv: "mc_inv L m"
    and f: "\<And>e. mce_exact L e \<Longrightarrow> mce_exact L (f e) \<and> mce_size L (f e) = mce_size L e"
  shows "mc_inv L (for_each_mut L f m) \<and> mc_entries L (for_each_mut L f m) = map f (mc_entries L m)"
proof -
  let ?c = "mc_content m"
  have i: "layout_ok L" "chain L (cdata ?c) 0 (entries_raw ?c) (current_data_size ?c)"
    "current_data_size ?c \<le> length (cdata ?c)"
    using inv by (simp_all add: mc_inv_def content_inv_def)
  note u = update_chain [OF i(1) f i(2,3)]
  have r: "entries_raw (?c\<lparr>cdata := d\<rparr>) = entries_raw ?c" for d by (simp add: entries_raw_def)
  show ?thesis
    using u inv by (simp add: for_each_mut_def mc_inv_def content_inv_def mc_entries_def content_entries_def r)
qed

lemma flag_ops_size:
  "mce_size L (set_flag f e) = mce_size L e" "mce_size L (unset_flag f e) = mce_size L e"
  "mce_size L (reset_flags e) = mce_size L e"
  by (simp_all add: set_flag_def unset_flag_def reset_flags_def mce_size_def
      size_wo_overflow_padding_def msk_len_def target_value_size_byte_def Let_def)

lemma flag_ops_exact:
  "mce_exact L e \<Longrightarrow> mce_exact L (set_flag f e) \<and> mce_size L (set_flag f e) = mce_size L e"
  "mce_exact L e \<Longrightarrow> mce_exact L (unset_flag f e) \<and> mce_size L (unset_flag f e) = mce_size L e"
  "mce_exact L e \<Longrightarrow> mce_exact L (reset_flags e) \<and> mce_size L (reset_flags e) = mce_size L e"
  by (simp_all add: mce_exact_def flag_ops_size) (simp_all add: set_flag_def unset_flag_def reset_flags_def)

section \<open>Loading and saving\<close>

lemma load_ok:
  assumes inv: "content_inv L img" and L: "layout_ok L"
    and d: "take (current_data_size img) d = take (current_data_size img) (cdata img)"
    and sz: "content_size L + length d = sz" "current_data_size img \<le> length d"
  shows "content_inv L (img\<lparr>cdata := d, total_size := sz\<rparr>) \<and>
    content_entries L (img\<lparr>cdata := d, total_size := sz\<rparr>) = content_entries L img"
proof -
  have r: "entries_raw (img\<lparr>cdata := d, total_size := sz\<rparr>) = entries_raw img" by (simp add: entries_raw_def)
  have "chain L (cdata img) 0 (entries_raw img) (current_data_size img)"
    using inv by (simp add: content_inv_def)
  from chain_cong [OF d [symmetric] this] inv sz show ?thesis
    by (auto simp: content_inv_def content_entries_def r)
qed

lemma load_bytes_ok:
  assumes m: "mc_inv L m" and img: "content_inv L img'"
    and i: "img = img'\<lparr>cdata := take n (cdata img')\<rparr>" "current_data_size img' \<le> n"
    and sz: "image_len L img \<le> mc_content_size m"
  shows "\<exists>m'. load_bytes L img m = Some m' \<and> mc_inv L m' \<and> mc_content_size m' = mc_content_size m \<and>
    mc_entries L m' = content_entries L img'"
proof -
  let ?d = "cdata img @ drop (length (cdata img)) (cdata (mc_content m))"
  let ?s = "mc_content_size m"
  have mi: "layout_ok L" "content_size L + length (cdata (mc_content m)) = ?s"
    using m by (auto simp: mc_inv_def content_inv_def)
  have ci: "current_data_size img' \<le> length (cdata img')" using img by (simp add: content_inv_def)
  have "current_data_size img' \<le> length (cdata img)" using ci i by simp
  then have t: "take (current_data_size img') ?d = take (current_data_size img') (cdata img')"
    "current_data_size img' \<le> length ?d"
    using i by (simp_all add: min_absorb1)
  have l: "content_size L + length ?d = ?s" using mi(2) sz by (simp add: image_len_def)
  have "load_bytes L img m = Some (m\<lparr>mc_content := img'\<lparr>cdata := ?d, total_size := ?s\<rparr>\<rparr>)"
    using sz i by (simp add: load_bytes_def content_update_def Let_def)
  with load_ok [OF img mi(1) t(1) l t(2)] mi(1) show ?thesis by (simp add: mc_inv_def mc_entries_def)
qed

lemma mc_new_ok:
  assumes L: "layout_ok L" "content_size L < MUTATION_CACHE_DEFAULT_SIZE"
  shows "\<exists>m. mc_new L = Some m \<and> mc_inv L m \<and> mc_entries L m = [] \<and>
    mc_content_size m = MUTATION_CACHE_DEFAULT_SIZE \<and>
    slots (mc_content m) = MAX_MUTATION_CACHE_ENTRIES \<and>
    space_left L (mc_content m) = MUTATION_CACHE_DEFAULT_SIZE - content_size L"
proof -
  have n: "0 < MAX_MUTATION_CACHE_ENTRIES" by (simp add: MAX_MUTATION_CACHE_ENTRIES_def)
  show ?thesis
    using L n by (simp add: mc_new_def Let_def content_init_def zeroed_content_def mc_inv_def content_inv_def
        mc_entries_def content_entries_def entries_raw_def slots_def space_left_def map_replicate_const)
qed

text \<open>Two caches of 512 bytes of payload, one with an entry and one without.\<close>

definition sample_cache :: mcache where
  "sample_cache = \<lparr>mc_backing = HeapMemory, mc_content_size = 3200552, mc_content = sample_content1\<rparr>"

definition empty_cache :: mcache where
  "empty_cache = \<lparr>mc_backing = HeapMemory, mc_content_size = 3200552, mc_content = sample_content\<rparr>"

lemma sample_cache_facts:
  "mc_inv ref_layout sample_cache" "mc_entries ref_layout sample_cache = [sample_mce 7]"
  "mc_inv ref_layout empty_cache" "mc_entries ref_layout empty_cache = []"
  "mc_content_size sample_cache = mc_content_size empty_cache"
  using sample_content1_facts sample_content_facts ref_layout_ok
  by (simp_all add: sample_cache_def empty_cache_def mc_inv_def mc_entries_def)
    (simp_all add: sample_content1_def sample_content_def)

lemma sample_cache_fits: "mc_fits ref_layout [sample_mce 7] sample_cache"
proof -
  have "slots sample_content1 = 2"
    using pushed_inv(3) [OF ref_layout_ok sample_content_facts(1) sample_mce_facts(2) [of 7]]
      sample_content_facts(3,4) sample_mce_facts(7) [of 7] by (simp add: sample_content1_def)
  moreover have "space_left ref_layout sample_content1 = 408"
    using sample_mce_facts(7) [of 7]
    by (simp add: sample_content1_def sample_content_def space_left_def) (simp add: ref_layout_def)
  ultimately show ?thesis
    using sample_mce_facts(7) [of 7] by (simp add: mc_fits_def content_fits_def sample_cache_def)
qed

lemma save_load_ok:
  assumes "mc_inv L m" "mc_inv L m2" "mc_content_size m \<le> mc_content_size m2"
  shows "\<exists>img m' m3. save_bytes L m = Some (img, m') \<and> mc_entries L m' = mc_entries L m \<and>
    load_bytes L img m2 = Some m3 \<and> mc_inv L m3 \<and> mc_entries L m3 = mc_entries L m \<and>
    image_len L img = content_size L + sum_list (map (mce_size L) (mc_entries L m))"
proof -
  have i: "layout_ok L" "content_inv L (mc_content m)" "mc_content_size m = total_size (mc_content m)"
    using assms(1) by (simp_all add: mc_inv_def)
  obtain c where c: "consolidate L (mc_content m) = Some c" "content_inv L c"
    "content_entries L c = mc_entries L m" "total_size c = mc_content_size m"
    "current_data_size c = sum_list (map (mce_size L) (mc_entries L m))"
    using consolidate_ok [OF i(1,2)] i(3) by (auto simp: mc_entries_def)
  let ?img = "c\<lparr>cdata := take (current_data_size c) (cdata c)\<rparr>"
  have u: "total_used_bytes L c \<le> mc_content_size m" "current_data_size c \<le> length (cdata c)"
    using c(2,4) by (auto simp: total_used_bytes_def content_inv_def)
  then have s: "save_bytes L m = Some (?img, m\<lparr>mc_content := c\<rparr>)"
    using c(1) by (simp add: save_bytes_def save_bytes_unconsolidated_def Let_def)
  have il: "image_len L ?img = content_size L + current_data_size c" using u(2) by (simp add: image_len_def)
  then have "image_len L ?img \<le> mc_content_size m2" using u(1) assms(3) by (simp add: total_used_bytes_def)
  from load_bytes_ok [OF assms(2) c(2) refl order_refl this] s c(3,5) il show ?thesis
    by (auto simp: mc_entries_def)
qed

section \<open>Properties\<close>

text \<open>
  \<^verbatim>\<open>retain\<close> on a cache with distinct ids keeps exactly the entries its closure accepts, in order,
  so that the assertion at its end (as many entries as ids on the whitelist) holds; \<^verbatim>\<open>limit\<close> keeps the
  first entries.
\<close>

theorem retain_correct:
  assumes "mc_inv L m" "distinct (map mce_id (mc_entries L m))"
  shows "(\<exists>m'. retain L f st m = Some m' \<and> mc_inv L m' \<and>
      mc_entries L m' = vec_retain f st (mc_entries L m) \<and>
      mc_len L m' = length (map mce_id (vec_retain f st (mc_entries L m)))) \<and>
    (\<exists>m'. limit L n m = Some m' \<and> mc_inv L m' \<and> mc_entries L m' = take n (mc_entries L m))"
  using retain_ok [OF assms, of f st] retain_ok [OF assms, of "\<lambda>lim e. if lim > 0 then (True, lim - 1) else (False, lim)" n]
  by (auto simp: mc_len_def limit_def vec_retain_limit)

theorem retain_correct_witness:
  "(\<exists>m'. retain ref_layout (\<lambda>_ e. (mce_id e \<noteq> 7, ())) () sample_cache = Some m' \<and> mc_len ref_layout m' = 0) \<and>
   (\<exists>m'. limit ref_layout 1 sample_cache = Some m' \<and> mc_entries ref_layout m' = [sample_mce 7])"
proof -
  have "distinct (map mce_id (mc_entries ref_layout sample_cache))" by (simp add: sample_cache_facts)
  from retain_correct [OF sample_cache_facts(1) this, of "\<lambda>_ e. (mce_id e \<noteq> 7, ())" "()" 1]
  show ?thesis by (auto simp: sample_cache_facts sample_mce_facts)
qed

text \<open>
  C24: \<^verbatim>\<open>union_and_replace\<close> yields the entries of the first cache whose ids are not in the second,
  followed by all entries of the second, when there is room for them; so every id of the second cache
  now has the entry of the second cache.
\<close>

theorem union_and_replace_correct:
  assumes "mc_inv L m" "mc_inv L other" "mc_fits L (mc_entries L other) m"
  shows "\<exists>m'. union_and_replace L m other = Some m' \<and> mc_inv L m' \<and>
    mc_entries L m' = filter (\<lambda>e. mce_id e \<notin> mce_id ` set (mc_entries L other)) (mc_entries L m) @ mc_entries L other"
proof -
  let ?es = "mc_entries L other"
  have ex: "\<forall>e\<in>set ?es. mce_exact L e" using mc.entries_exact [OF assms(2)] by blast
  obtain m1 where m1: "retain L (\<lambda>_ e. (mce_id e \<notin> set (map mce_id ?es), ())) () m = Some m1" "mc_inv L m1"
    "mc_entries L m1 = filter (\<lambda>e. mce_id e \<notin> set (map mce_id ?es)) (mc_entries L m)" "mc_fits L ?es m1"
    using retain_by_id_ok [OF assms(1), of "\<lambda>i. i \<notin> set (map mce_id ?es)"] assms(3) by auto
  have "\<forall>e\<in>set ?es. mce_wf L e" using ex mce_exact_wf by blast
  moreover have "map (trim L) ?es = ?es" using ex by (simp add: map_idI trim_id)
  ultimately show ?thesis
    using m1 mc.push_each_fits [OF m1(2) _ m1(4)] by (auto simp: union_and_replace_def Let_def)
qed

theorem union_and_replace_correct_witness:
  "\<exists>m'. union_and_replace ref_layout sample_cache sample_cache = Some m' \<and>
     mc_entries ref_layout m' = [sample_mce 7]"
proof -
  have "mc_fits ref_layout (mc_entries ref_layout sample_cache) sample_cache"
    unfolding sample_cache_facts(2) by (rule sample_cache_fits)
  from union_and_replace_correct [OF sample_cache_facts(1) sample_cache_facts(1) this]
  show ?thesis by (auto simp: sample_cache_facts)
qed

text \<open>
  C23: Saving a cache (which consolidates it) and loading the bytes into another cache that is large
  enough gives that cache the same entries, whatever it held before; the saved cache keeps its own.
\<close>

theorem save_load_roundtrip:
  assumes "mc_inv L m" "mc_inv L m2" "mc_content_size m \<le> mc_content_size m2"
  shows "\<exists>img m' m3. save_bytes L m = Some (img, m') \<and> mc_entries L m' = mc_entries L m \<and>
    load_bytes L img m2 = Some m3 \<and> mc_inv L m3 \<and> mc_entries L m3 = mc_entries L m \<and>
    image_len L img = content_size L + sum_list (map (mce_size L) (mc_entries L m))"
  by (rule save_load_ok [OF assms])

theorem save_load_roundtrip_witness:
  "\<exists>img m' m3. save_bytes ref_layout sample_cache = Some (img, m') \<and>
     load_bytes ref_layout img empty_cache = Some m3 \<and> mc_entries ref_layout m3 = [sample_mce 7]"
  using save_load_roundtrip [OF sample_cache_facts(1) sample_cache_facts(3)] sample_cache_facts(2,5)
  by auto

text \<open>
  Setting, clearing and resetting flags on all entries changes the flags of every entry and
  nothing else: each entry is updated in place, without touching its neighbours.
\<close>

theorem flags_on_all_entries:
  assumes "mc_inv L m"
  shows "mc_entries L (mc_enable_tracing L m) = map mce_enable_tracing (mc_entries L m) \<and>
    mc_entries L (mc_disable_tracing L m) = map mce_disable_tracing (mc_entries L m) \<and>
    mc_entries L (mc_reset_flags L m) = map reset_flags (mc_entries L m) \<and>
    mc_inv L (mc_enable_tracing L m) \<and> mc_inv L (mc_disable_tracing L m) \<and> mc_inv L (mc_reset_flags L m)"
  using for_each_mut_ok [OF assms flag_ops_exact(1)] for_each_mut_ok [OF assms flag_ops_exact(2)]
    for_each_mut_ok [OF assms flag_ops_exact(3)]
  by (simp add: mc_enable_tracing_def mc_disable_tracing_def mc_reset_flags_def mc_set_flag_def
      mc_unset_flag_def mce_enable_tracing_def mce_disable_tracing_def)

theorem flags_on_all_entries_witness:
  "mc_entries ref_layout (mc_enable_tracing ref_layout sample_cache) = [mce_enable_tracing (sample_mce 7)]"
  using flags_on_all_entries [OF sample_cache_facts(1)] by (simp add: sample_cache_facts)

text \<open>
  A new cache is empty, and building a cache from a sequence of entries that fits into the
  256 MiB and 200000 descriptors gives the cache exactly these entries, in order.
\<close>

theorem from_iter_correct:
  assumes "layout_ok L" "content_size L < MUTATION_CACHE_DEFAULT_SIZE"
    and "\<forall>e\<in>set es. mce_exact L e" "length es \<le> MAX_MUTATION_CACHE_ENTRIES"
    and "content_size L + sum_list (map (mce_size L) es) \<le> MUTATION_CACHE_DEFAULT_SIZE"
  shows "\<exists>m. mc_from_iter L es = Some m \<and> mc_inv L m \<and> mc_entries L m = es"
proof -
  obtain m where m: "mc_new L = Some m" "mc_inv L m" "mc_entries L m = []"
    "slots (mc_content m) = MAX_MUTATION_CACHE_ENTRIES"
    "space_left L (mc_content m) = MUTATION_CACHE_DEFAULT_SIZE - content_size L"
    using mc_new_ok [OF assms(1,2)] by auto
  have "mc_fits L es m" using assms(4,5) m(4,5) by (simp add: mc_fits_def content_fits_def)
  moreover have "\<forall>e\<in>set es. mce_wf L e" using assms(3) mce_exact_wf by blast
  moreover have "map (trim L) es = es" using assms(3) by (simp add: map_idI trim_id)
  ultimately show ?thesis
    using m mc.push_each_fits [OF m(2), of es] by (auto simp: mc_from_iter_def)
qed

theorem from_iter_correct_witness:
  "\<exists>m. mc_from_iter ref_layout [sample_mce 7, sample_mce 8] = Some m \<and>
     mc_entries ref_layout m = [sample_mce 7, sample_mce 8]"
proof -
  have "content_size ref_layout < MUTATION_CACHE_DEFAULT_SIZE"
    "content_size ref_layout + sum_list (map (mce_size ref_layout) [sample_mce 7, sample_mce 8]) \<le> MUTATION_CACHE_DEFAULT_SIZE"
    using sample_mce_facts(7) by (simp_all add: ref_layout_def MUTATION_CACHE_DEFAULT_SIZE_def)
  moreover have "\<forall>e\<in>set [sample_mce 7, sample_mce 8]. mce_exact ref_layout e"
    "length [sample_mce 7, sample_mce 8] \<le> MAX_MUTATION_CACHE_ENTRIES"
    using sample_mce_facts(1) by (simp_all add: MAX_MUTATION_CACHE_ENTRIES_def)
  ultimately show ?thesis
    using from_iter_correct [OF ref_layout_ok, of "[sample_mce 7, sample_mce 8]"] by blast
qed

end
