(* ===== verification/Proc_Maps.thy ===== *)
theory Proc_Maps
  imports FT_Prelude
begin

text \<open>
  The memory mappings of a process (\<^verbatim>\<open>lib/proc-maps/src/linux_maps.rs\<close>, \<^verbatim>\<open>lib/proc-maps/src/lib.rs\<close>): the
  parser of \<^verbatim>\<open>/proc/PID/maps\<close> and the search of an address. A string is the list of its code points.
\<close>

section \<open>Mappings\<close>

type_synonym str = "nat list"

record map_range =
  range_start :: u64
  range_end :: u64
  mr_offset :: u64
  mr_dev :: str
  mr_flags :: str
  mr_inode :: u64
  mr_pathname :: "str option"

definition mr_size :: "map_range \<Rightarrow> u64" where
  "mr_size r = range_end r - range_start r"

definition mr_start :: "map_range \<Rightarrow> u64" where
  "mr_start r = range_start r"

text \<open>The flag tests slice one character out of the flags, which panics when they are too short.\<close>

definition flag_at :: "nat \<Rightarrow> nat \<Rightarrow> map_range \<Rightarrow> bool option" where
  "flag_at i c r = do { require (i < length (mr_flags r)); Some (mr_flags r ! i = c) }"

definition is_exec :: "map_range \<Rightarrow> bool option" where
  "is_exec = flag_at 2 (of_char (CHR ''x''))"

definition is_write :: "map_range \<Rightarrow> bool option" where
  "is_write = flag_at 1 (of_char (CHR ''w''))"

definition is_read :: "map_range \<Rightarrow> bool option" where
  "is_read = flag_at 0 (of_char (CHR ''r''))"

definition map_contain_addr :: "map_range \<Rightarrow> u64 \<Rightarrow> bool" where
  "map_contain_addr r addr \<longleftrightarrow> addr \<ge> mr_start r \<and> addr < mr_start r + mr_size r"

definition maps_contain_addr :: "u64 \<Rightarrow> map_range list \<Rightarrow> bool" where
  "maps_contain_addr addr maps \<longleftrightarrow> list_ex (\<lambda>m. map_contain_addr m addr) maps"

lemma maps_contain_addr_iff:
  "maps_contain_addr addr maps \<longleftrightarrow> (\<exists>m\<in>set maps. range_start m \<le> addr \<and> addr < range_end m)"
  by (auto simp: maps_contain_addr_def map_contain_addr_def mr_start_def mr_size_def list_ex_iff)

section \<open>The parser\<close>

text \<open>\<^verbatim>\<open>str::split\<close> on the characters that satisfy \<open>p\<close>, and \<^verbatim>\<open>str::split_whitespace\<close>.\<close>

fun split_by :: "(nat \<Rightarrow> bool) \<Rightarrow> str \<Rightarrow> str list" where
  "split_by p [] = [[]]"
| "split_by p (c # cs) = (if p c then [] # split_by p cs
     else case split_by p cs of [] \<Rightarrow> [[c]] | w # ws \<Rightarrow> (c # w) # ws)"

definition white_space :: "nat \<Rightarrow> bool" where
  "white_space c \<longleftrightarrow> 9 \<le> c \<and> c \<le> 13 \<or> c = 32 \<or> c = 0x85 \<or> c = 0xa0 \<or> c = 0x1680 \<or>
     0x2000 \<le> c \<and> c \<le> 0x200a \<or> c = 0x2028 \<or> c = 0x2029 \<or> c = 0x202f \<or> c = 0x205f \<or> c = 0x3000"

definition split_whitespace :: "str \<Rightarrow> str list" where
  "split_whitespace s = filter (\<lambda>w. w \<noteq> []) (split_by white_space s)"

fun join :: "str list \<Rightarrow> str" where
  "join [] = []"
| "join [w] = w"
| "join (w # ws) = w @ 32 # join ws"

text \<open>\<^verbatim>\<open>usize::from_str_radix\<close>: an optional plus sign and at least one digit, without overflow.\<close>

definition to_digit :: "nat \<Rightarrow> nat \<Rightarrow> nat option" where
  "to_digit radix c = (let d =
     (if 48 \<le> c \<and> c \<le> 57 then c - 48
      else if 97 \<le> c \<and> c \<le> 122 then c - 87
      else if 65 \<le> c \<and> c \<le> 90 then c - 55
      else radix) in if d < radix then Some d else None)"

fun digits_val :: "nat \<Rightarrow> nat \<Rightarrow> str \<Rightarrow> nat option" where
  "digits_val radix acc [] = Some acc"
| "digits_val radix acc (c # cs) = do {
     d \<leftarrow> to_digit radix c;
     let acc = acc * radix + d;
     require (acc < 2 ^ 64);
     digits_val radix acc cs }"

definition from_str_radix :: "nat \<Rightarrow> str \<Rightarrow> u64 option" where
  "from_str_radix radix s = do {
     require (s \<noteq> [] \<and> s \<noteq> [43]);
     n \<leftarrow> digits_val radix 0 (if hd s = 43 then tl s else s);
     Some (of_nat n) }"

text \<open>The body of the loop, for a line with the words \<open>ws\<close>; too few words panic.\<close>

definition parse_line :: "str list \<Rightarrow> map_range option" where
  "parse_line ws = do {
     let range_split = split_by (\<lambda>c. c = of_char (CHR ''-'')) (hd ws);
     require (2 \<le> length range_split);
     require (5 \<le> length ws);
     range_start \<leftarrow> from_str_radix 16 (range_split ! 0);
     range_end \<leftarrow> from_str_radix 16 (range_split ! 1);
     offset \<leftarrow> from_str_radix 16 (ws ! 2);
     inode \<leftarrow> from_str_radix 10 (ws ! 4);
     Some \<lparr>range_start = range_start, range_end = range_end, mr_offset = offset, mr_dev = ws ! 3,
       mr_flags = ws ! 1, mr_inode = inode,
       mr_pathname = (let p = join (drop 5 ws) in if p \<noteq> [] then Some p else None)\<rparr> }"

fun parse_lines :: "str list \<Rightarrow> map_range list option" where
  "parse_lines [] = Some []"
| "parse_lines (l # ls) =
     (let ws = split_whitespace l in
      if ws = [] then Some []
      else do { r \<leftarrow> parse_line ws; rs \<leftarrow> parse_lines ls; Some (r # rs) })"

definition parse_proc_maps :: "str \<Rightarrow> map_range list option" where
  "parse_proc_maps contents = parse_lines (split_by (\<lambda>c. c = 10) contents)"

section \<open>The format of the kernel\<close>

text \<open>
  A line as the kernel writes it (\<^verbatim>\<open>show_map_vma\<close> in \<^verbatim>\<open>fs/proc/task_mmu.c\<close>): addresses and offset in
  hexadecimal, padded with zeros to 8 digits, every field up to the inode followed by a space, and a
  path in column 73, or behind one more space when the fields are longer.
\<close>

definition from_digit :: "nat \<Rightarrow> nat" where
  "from_digit d = (if d < 10 then 48 + d else 87 + d)"

fun digits_of :: "nat \<Rightarrow> nat \<Rightarrow> str" where
  "digits_of r n =
     (if n < r \<or> r < 2 then [from_digit n] else digits_of r (n div r) @ [from_digit (n mod r)])"

declare digits_of.simps [simp del]

definition padded :: "nat \<Rightarrow> nat \<Rightarrow> nat \<Rightarrow> str" where
  "padded w r n = replicate (w - length (digits_of r n)) 48 @ digits_of r n"

definition range_fields :: "map_range \<Rightarrow> str" where
  "range_fields r =
     padded 8 16 (unat (range_start r)) @ [45] @ padded 8 16 (unat (range_end r)) @ [32] @ mr_flags r @ [32] @
     padded 8 16 (unat (mr_offset r)) @ [32] @ mr_dev r @ [32] @ digits_of 10 (unat (mr_inode r)) @ [32]"

definition print_range :: "map_range \<Rightarrow> str" where
  "print_range r = range_fields r @
     (case mr_pathname r of None \<Rightarrow> [] | Some p \<Rightarrow> replicate (72 - length (range_fields r)) 32 @ [32] @ p)"

definition is_word :: "str \<Rightarrow> bool" where
  "is_word w \<longleftrightarrow> w \<noteq> [] \<and> list_all (\<lambda>c. \<not> white_space c) w"

text \<open>A path is a sequence of words with one space in between.\<close>

definition printable :: "map_range \<Rightarrow> bool" where
  "printable r \<longleftrightarrow> is_word (mr_flags r) \<and> is_word (mr_dev r) \<and>
     (case mr_pathname r of None \<Rightarrow> True | Some p \<Rightarrow> \<exists>ws. ws \<noteq> [] \<and> list_all is_word ws \<and> p = join ws)"

lemma split_by_none: "list_all (\<lambda>c. \<not> p c) w \<Longrightarrow> split_by p w = [w]"
  by (induction w) auto

lemma split_by_append: "list_all (\<lambda>c. \<not> p c) w \<Longrightarrow> p c \<Longrightarrow> split_by p (w @ c # s) = w # split_by p s"
  by (induction w) auto

lemma split_whitespace_word: "is_word w \<Longrightarrow> split_whitespace w = [w]"
  by (simp add: split_whitespace_def is_word_def split_by_none)

lemma split_whitespace_append: "is_word w \<Longrightarrow> split_whitespace (w @ 32 # s) = w # split_whitespace s"
  by (simp add: split_whitespace_def is_word_def split_by_append white_space_def)

lemma split_whitespace_spaces: "split_whitespace (replicate k 32 @ s) = split_whitespace s"
  by (induction k) (simp_all add: split_whitespace_def white_space_def)

lemma split_whitespace_join: "list_all is_word ws \<Longrightarrow> split_whitespace (join ws) = ws"
  by (induction ws rule: join.induct)
    (simp_all add: split_whitespace_word split_whitespace_append, simp add: split_whitespace_def)

section \<open>Numbers\<close>

definition digit_char :: "nat \<Rightarrow> bool" where
  "digit_char c \<longleftrightarrow> 48 \<le> c \<and> c \<le> 57 \<or> 97 \<le> c \<and> c \<le> 102"

lemma digits_of_chars: "2 \<le> r \<Longrightarrow> r \<le> 16 \<Longrightarrow> list_all digit_char (digits_of r n) \<and> digits_of r n \<noteq> []"
proof (induction r n rule: digits_of.induct)
  case (1 r n)
  have "n mod r < r" using 1(2) by simp
  then have "digit_char (from_digit (n mod r))" "n < r \<Longrightarrow> digit_char (from_digit n)"
    using 1(3) by (auto simp: digit_char_def from_digit_def)
  with 1 show ?case by (subst (1 2) digits_of.simps) auto
qed

lemma padded_chars: "2 \<le> r \<Longrightarrow> r \<le> 16 \<Longrightarrow> list_all digit_char (padded w r n) \<and> padded w r n \<noteq> []"
  using digits_of_chars [of r n] by (auto simp: padded_def digit_char_def list_all_iff)

lemma digits_val_append: "digits_val r acc (xs @ ys) = Option.bind (digits_val r acc xs) (\<lambda>a. digits_val r a ys)"
proof (induction xs arbitrary: acc)
  case (Cons x xs)
  show ?case by (cases "to_digit r x") (simp_all add: Cons Let_def)
qed simp

lemma to_digit_printed: "d < r \<Longrightarrow> r \<le> 16 \<Longrightarrow> to_digit r (from_digit d) = Some d"
  by (simp add: to_digit_def from_digit_def)

lemma digits_val_of: "2 \<le> r \<Longrightarrow> r \<le> 16 \<Longrightarrow> n < 2 ^ 64 \<Longrightarrow> digits_val r 0 (digits_of r n) = Some n"
proof (induction r n rule: digits_of.induct)
  case (1 r n)
  show ?case
  proof (cases "n < r")
    case True
    with 1 show ?thesis by (simp add: digits_of.simps [of r n] to_digit_printed)
  next
    case False
    have "n div r < 2 ^ 64" by (rule le_less_trans [OF div_le_dividend 1(4)])
    then have "digits_val r 0 (digits_of r (n div r)) = Some (n div r)"
      using 1 False by (intro "1.IH") auto
    moreover have "n mod r < r" using 1(2) by simp
    ultimately show ?thesis
      using 1 False by (simp add: digits_of.simps [of r n] digits_val_append to_digit_printed)
  qed
qed

lemma digits_val_zeros: "0 < r \<Longrightarrow> digits_val r 0 (replicate k 48 @ s) = digits_val r 0 s"
  by (induction k) (simp_all add: to_digit_def)

lemma from_str_radix_padded:
  assumes "2 \<le> r" "r \<le> 16"
  shows "from_str_radix r (padded w r (unat n)) = Some n"
proof -
  have n: "unat n < 2 ^ 64" using unsigned_less [of n, where 'a = nat] by simp
  have p: "list_all digit_char (padded w r (unat n))" "padded w r (unat n) \<noteq> []"
    using padded_chars [OF assms] by auto
  then have "hd (padded w r (unat n)) \<noteq> 43" by (cases "padded w r (unat n)") (auto simp: digit_char_def)
  moreover have "padded w r (unat n) \<noteq> [43]" using p(1) by (auto simp: digit_char_def)
  ultimately show ?thesis
    using p(2) assms digits_val_zeros [of r _ "digits_of r (unat n)"] digits_val_of [OF assms n]
    by (simp add: from_str_radix_def) (simp add: padded_def)
qed

lemma from_str_radix_digits:
  "2 \<le> r \<Longrightarrow> r \<le> 16 \<Longrightarrow> from_str_radix r (digits_of r (unat n)) = Some n"
  using from_str_radix_padded [of r 0 n] by (simp add: padded_def)

section \<open>Lines\<close>

lemma digit_char_word: "list_all digit_char s \<Longrightarrow> s \<noteq> [] \<Longrightarrow> is_word s"
  by (auto simp: is_word_def list_all_iff digit_char_def white_space_def)

lemma range_words:
  defines "p n \<equiv> padded 8 16 (unat n)"
  assumes "printable r"
  shows "\<exists>ws. split_whitespace (print_range r) =
      [p (range_start r) @ [45] @ p (range_end r), mr_flags r, p (mr_offset r), mr_dev r, digits_of 10 (unat (mr_inode r))] @ ws \<and>
    (if ws = [] then mr_pathname r = None else mr_pathname r = Some (join ws) \<and> join ws \<noteq> [])"
proof -
  have d: "list_all digit_char (p n)" "p n \<noteq> []" for n
    using padded_chars [of 16] by (auto simp: p_def)
  have w1: "is_word (p (range_start r) @ [45] @ p (range_end r))"
    using digit_char_word [OF d] by (auto simp: is_word_def white_space_def)
  have w2: "is_word (p (mr_offset r))" using digit_char_word [OF d] by simp
  have w3: "is_word (digits_of 10 (unat (mr_inode r)))"
    using digit_char_word digits_of_chars [of 10] by simp
  have fd: "is_word (mr_flags r)" "is_word (mr_dev r)" using assms(2) by (simp_all add: printable_def)
  note s = split_whitespace_append [OF w1] split_whitespace_append [OF fd(1)]
    split_whitespace_append [OF w2] split_whitespace_append [OF fd(2)] split_whitespace_append [OF w3]
  have f: "split_whitespace (range_fields r @ q) = [p (range_start r) @ [45] @ p (range_end r), mr_flags r, p (mr_offset r), mr_dev r,
      digits_of 10 (unat (mr_inode r))] @ split_whitespace q" for q
    using s by (simp add: range_fields_def p_def [symmetric])
  show ?thesis
  proof (cases "mr_pathname r")
    case None
    then show ?thesis using f [of "[]"] by (simp add: print_range_def split_whitespace_def)
  next
    case (Some q)
    with assms(2) obtain ws where ws: "ws \<noteq> []" "list_all is_word ws" "q = join ws"
      by (auto simp: printable_def)
    have "split_whitespace (replicate (72 - length (range_fields r)) 32 @ [32] @ q) = ws"
      using split_whitespace_spaces [of "Suc 0" q] split_whitespace_spaces [of "72 - length (range_fields r)" "32 # q"]
        split_whitespace_join [OF ws(2)] ws(3) by simp
    moreover have "join ws \<noteq> []" using ws(1,2) by (cases ws rule: join.cases) (auto simp: is_word_def)
    ultimately show ?thesis using f ws Some by (simp add: print_range_def)
  qed
qed

lemma parse_print_line:
  assumes "printable r"
  shows "parse_line (split_whitespace (print_range r)) = Some r \<and> split_whitespace (print_range r) \<noteq> []"
proof -
  let ?p = "\<lambda>n :: u64. padded 8 16 (unat n)"
  obtain ws where ws: "split_whitespace (print_range r) =
      [?p (range_start r) @ [45] @ ?p (range_end r), mr_flags r, ?p (mr_offset r), mr_dev r, digits_of 10 (unat (mr_inode r))] @ ws"
    "if ws = [] then mr_pathname r = None else mr_pathname r = Some (join ws) \<and> join ws \<noteq> []"
    using range_words [OF assms] by blast
  have nd: "list_all (\<lambda>c. c \<noteq> 45) (?p n)" for n
    using padded_chars [of 16 8 "unat n"] by (auto simp: list_all_iff digit_char_def)
  have "split_by (\<lambda>c. c = 45) (?p n @ 45 # s) = ?p n # split_by (\<lambda>c. c = 45) s" for n s
    by (rule split_by_append [of "\<lambda>c. c = 45", OF nd]) simp
  then have "split_by (\<lambda>c. c = 45) (?p (range_start r) @ 45 # ?p (range_end r)) = [?p (range_start r), ?p (range_end r)]"
    using split_by_none [of "\<lambda>c. c = 45", OF nd] by simp
  moreover have "(let p = join ws in if p \<noteq> [] then Some p else None) = mr_pathname r"
    using ws(2) by (auto simp: Let_def split: if_splits)
  ultimately show ?thesis
    unfolding ws(1) parse_line_def Let_def
    by (simp add: from_str_radix_padded from_str_radix_digits) auto
qed

lemma print_range_no_newline:
  assumes "printable r"
  shows "list_all (\<lambda>c. c \<noteq> 10) (print_range r)"
proof -
  have d: "list_all digit_char s \<Longrightarrow> list_all (\<lambda>c. c \<noteq> 10) s" for s
    by (auto simp: list_all_iff digit_char_def)
  have wd: "is_word s \<Longrightarrow> list_all (\<lambda>c. c \<noteq> 10) s" for s
  proof -
    assume "is_word s"
    moreover have "white_space 10" by (simp add: white_space_def)
    ultimately show ?thesis by (auto simp: list_all_iff is_word_def)
  qed
  have j: "list_all is_word ws \<Longrightarrow> list_all (\<lambda>c. c \<noteq> 10) (join ws)" for ws
    by (induction ws rule: join.induct) (simp_all add: wd)
  have "list_all (\<lambda>c. c \<noteq> 10) (padded 8 16 n)" for n
    by (rule d) (use padded_chars [of 16] in auto)
  moreover have "list_all (\<lambda>c. c \<noteq> 10) (digits_of 10 n)" for n
    by (rule d) (use digits_of_chars [of 10] in auto)
  moreover have "list_all (\<lambda>c. c \<noteq> 10) (mr_flags r)" "list_all (\<lambda>c. c \<noteq> 10) (mr_dev r)"
    using assms by (simp_all add: wd printable_def)
  moreover have "list_all (\<lambda>c. c \<noteq> 10) (replicate n (32 :: nat))" for n by (simp add: list_all_iff)
  moreover have "mr_pathname r = Some q \<Longrightarrow> list_all (\<lambda>c. c \<noteq> 10) q" for q
    using assms j by (auto simp: printable_def)
  ultimately show ?thesis
    unfolding print_range_def range_fields_def by (cases "mr_pathname r") (simp_all del: replicate_Suc)
qed

section \<open>Properties\<close>

text \<open>
  C34: Parsing the text of the kernel returns the mappings: each line yields its mapping, with its path
  when it has one, and parsing ends at the end of the file without a panic.
\<close>

theorem parse_print_maps:
  assumes "\<And>r. r \<in> set rs \<Longrightarrow> printable r"
  shows "parse_proc_maps (concat (map (\<lambda>r. print_range r @ [10]) rs)) = Some rs"
  using assms
proof (induction rs)
  case Nil
  then show ?case by (simp add: parse_proc_maps_def split_whitespace_def)
next
  case (Cons r rs)
  then have p: "printable r" by simp
  have "split_by (\<lambda>c. c = 10) (print_range r @ 10 # s) = print_range r # split_by (\<lambda>c. c = 10) s" for s
    by (rule split_by_append [of "\<lambda>c. c = 10", OF print_range_no_newline [OF p]]) simp
  with Cons parse_print_line [OF p] show ?case by (simp add: parse_proc_maps_def Let_def)
qed

text \<open>A mapping of a deleted library and the heap.\<close>

definition sample_ranges :: "map_range list" where
  "sample_ranges =
    [\<lparr>range_start = 0x7f438053b000, range_end = 0x7f438053f000, mr_offset = 0x1000,
      mr_dev = map of_char ''fd:01'', mr_flags = map of_char ''r--p'', mr_inode = 59034409,
      mr_pathname = Some (map of_char ''/usr/lib/libg.so (deleted)'')\<rparr>,
     \<lparr>range_start = 0x708000, range_end = 0x70a000, mr_offset = 0, mr_dev = map of_char ''00:00'',
      mr_flags = map of_char ''rw-p'', mr_inode = 0, mr_pathname = None\<rparr>]"

lemma replicate_numeral: "replicate (numeral n) x = x # replicate (pred_numeral n) x"
  by (simp add: numeral_eq_Suc)

lemma sample_fields:
  "range_fields (sample_ranges ! 0) = map of_char ''7f438053b000-7f438053f000 r--p 00001000 fd:01 59034409 ''"
  "range_fields (sample_ranges ! 1) = map of_char ''00708000-0070a000 rw-p 00000000 00:00 0 ''"
  by (simp_all add: sample_ranges_def range_fields_def padded_def digits_of.simps from_digit_def replicate_numeral)

lemma sample_text:
  "map print_range sample_ranges =
    [map of_char (''7f438053b000-7f438053f000 r--p 00001000 fd:01 59034409                   /usr/lib/libg.so (deleted)''),
     map of_char ''00708000-0070a000 rw-p 00000000 00:00 0 '']"
proof -
  have "map print_range sample_ranges = [print_range (sample_ranges ! 0), print_range (sample_ranges ! 1)]"
    by (simp add: sample_ranges_def)
  also have "\<dots> = [map of_char (''7f438053b000-7f438053f000 r--p 00001000 fd:01 59034409                   /usr/lib/libg.so (deleted)''),
     map of_char ''00708000-0070a000 rw-p 00000000 00:00 0 '']"
    unfolding print_range_def sample_fields by (simp add: sample_ranges_def replicate_numeral)
  finally show ?thesis .
qed

theorem parse_print_maps_witness:
  "parse_proc_maps (map of_char
     (''7f438053b000-7f438053f000 r--p 00001000 fd:01 59034409                   /usr/lib/libg.so (deleted)'' @ [CHR 0x0A] @
      ''00708000-0070a000 rw-p 00000000 00:00 0 '' @ [CHR 0x0A])) = Some sample_ranges"
proof -
  have "printable r" if "r \<in> set sample_ranges" for r
  proof -
    have "\<exists>ws. ws \<noteq> [] \<and> list_all is_word ws \<and> (map of_char ''/usr/lib/libg.so (deleted)'' :: str) = join ws"
      by (rule exI [of _ "[map of_char ''/usr/lib/libg.so'', map of_char ''(deleted)'']"])
        (simp add: is_word_def white_space_def)
    with that show ?thesis by (auto simp: sample_ranges_def printable_def) (simp_all add: is_word_def white_space_def)
  qed
  then have "parse_proc_maps (concat (map (\<lambda>r. print_range r @ [10]) sample_ranges)) = Some sample_ranges"
    by (rule parse_print_maps)
  moreover have "concat (map (\<lambda>r. print_range r @ [10]) sample_ranges) = concat (map (\<lambda>l. l @ [10]) (map print_range sample_ranges))"
    by (simp add: comp_def)
  ultimately show ?thesis unfolding sample_text by simp
qed

end
