(* ===== verification/Mutation_Site.thy ===== *)
theory Mutation_Site
  imports Mutation_Cache_Entry Proc_Maps
begin

text \<open>
  Mutation sites: the ids that name them (\<^verbatim>\<open>MutationSiteID\<close> of \<^verbatim>\<open>fuzztruction_shared/src/types.rs\<close>) and
  their extraction from the stack map of a binary (\<^verbatim>\<open>scheduler/src/mutation_site.rs\<close>). The stack map
  and the ELF header are parsed by third-party crates; the records below have the fields that the
  code reads. The conversion of a patch point id to an instruction (\<^verbatim>\<open>LLVMInstruction::try_from\<close>)
  is the parameter \<open>to_llvm\<close>.
\<close>

section \<open>Ids of mutation sites\<close>

type_synonym site_key = "u64 \<times> u64 \<times> u64"

text \<open>The counter and the map behind the two global locks.\<close>

record id_state =
  id_ctr :: u64
  id_map :: "site_key \<rightharpoonup> u64"

definition MUTATION_SITE_ID_INVALID :: u64 where
  "MUTATION_SITE_ID_INVALID = 0"

definition id_init :: id_state where
  "id_init = \<lparr>id_ctr = MUTATION_SITE_ID_INVALID + 1, id_map = Map.empty\<rparr>"

definition id_get :: "site_key \<Rightarrow> id_state \<Rightarrow> u64 \<times> id_state" where
  "id_get key st = (case id_map st key of
      Some i \<Rightarrow> (i, st)
    | None \<Rightarrow> (id_ctr st, st\<lparr>id_map := (id_map st)(key \<mapsto> id_ctr st), id_ctr := id_ctr st + 1\<rparr>))"

fun id_gets :: "site_key list \<Rightarrow> id_state \<Rightarrow> u64 list \<times> id_state" where
  "id_gets [] st = ([], st)"
| "id_gets (k # ks) st = (let (i, st) = id_get k st; (is, st) = id_gets ks st in (i # is, st))"

section \<open>Mutation sites\<close>

record mutation_site =
  site_id :: u64
  function_address :: u64
  site_base :: u64
  site_address :: u64
  llvm_ins :: llvm_instruction
  spill_slot :: location
  target_value_size_in_bit :: u32
  site_mapping :: map_range

definition site_new :: "(u64 \<Rightarrow> llvm_instruction option) \<Rightarrow> u64 \<Rightarrow> u64 \<Rightarrow> u64 \<Rightarrow> location \<Rightarrow> u32 \<Rightarrow> map_range \<Rightarrow> u64 \<Rightarrow>
    id_state \<Rightarrow> (mutation_site \<times> id_state) option" where
  "site_new to_llvm base address llvm_id spill target_bits mapping fn_address st = do {
     require (address + base > 0);
     let (i, st) = id_get (address, mr_inode mapping, mr_offset mapping) st;
     ins \<leftarrow> to_llvm llvm_id;
     Some (\<lparr>site_id = i, function_address = fn_address, site_base = base, site_address = address,
       llvm_ins = ins, spill_slot = spill, target_value_size_in_bit = target_bits,
       site_mapping = mapping\<rparr>, st) }"

definition vma :: "mutation_site \<Rightarrow> u64" where
  "vma s = site_base s + site_address s"

definition vma_range :: "mutation_site \<Rightarrow> u64 \<times> u64" where
  "vma_range s = (vma s, vma s + of_nat PATCH_POINT_SIZE)"

definition site_target_value_size_byte :: "mutation_site \<Rightarrow> nat" where
  "site_target_value_size_byte s = div_ceil (unat (target_value_size_in_bit s)) 8"

definition into_mutation_cache_entry :: "layout \<Rightarrow> mutation_site \<Rightarrow> mce option" where
  "into_mutation_cache_entry L s =
     mce_new L (site_id s) (llvm_ins s) (vma s) (flag_u8 F_None) (spill_slot s) (target_value_size_in_bit s) 0"

section \<open>Stack maps\<close>

record stk_size_record =
  fn_addr :: u64
  record_count :: nat

record stk_map_record =
  patch_point_id :: u64
  instruction_offset :: u32
  locations :: "location list"

record stack_map =
  stk_size_records :: "stk_size_record list"
  stk_map_records :: "stk_map_record list"

datatype elf_type = ET_EXEC | ET_DYN | ET_Other

text \<open>The body of the inner loop, for a record of the function \<open>f\<close>.\<close>

definition record_site :: "(u64 \<Rightarrow> llvm_instruction option) \<Rightarrow> bool \<Rightarrow> u64 \<Rightarrow> map_range \<Rightarrow> u64 \<Rightarrow> stk_map_record \<Rightarrow>
    id_state \<Rightarrow> (mutation_site \<times> id_state) option" where
  "record_site to_llvm is_pic base mapping f r st = do {
     require (length (locations r) = 2);
     let spill = locations r ! 0;
     require (loc_type spill = LT_Register \<or> loc_type spill = LT_Direct);
     require (loc_type (locations r ! 1) = LT_Constant);
     let target_bits = offset_or_constant (locations r ! 1);
     require (0 <s target_bits);
     let address = f + ucast (instruction_offset r);
     let fn_address = base + f;
     let (address, fn_address) = (if is_pic then (address - mr_offset mapping, fn_address - mr_offset mapping)
       else (address, fn_address));
     require (is_pic \<longrightarrow> mr_start mapping + mr_size mapping > address + mr_start mapping);
     site_new to_llvm base address (patch_point_id r) spill target_bits mapping fn_address st }"

fun record_sites :: "(u64 \<Rightarrow> llvm_instruction option) \<Rightarrow> bool \<Rightarrow> u64 \<Rightarrow> map_range \<Rightarrow> u64 \<Rightarrow> stk_map_record list \<Rightarrow>
    id_state \<Rightarrow> (mutation_site list \<times> id_state) option" where
  "record_sites to_llvm is_pic base mapping f [] st = Some ([], st)"
| "record_sites to_llvm is_pic base mapping f (r # rs) st = do {
     (s, st) \<leftarrow> record_site to_llvm is_pic base mapping f r st;
     (ss, st) \<leftarrow> record_sites to_llvm is_pic base mapping f rs st;
     Some (s # ss, st) }"

fun function_sites :: "(u64 \<Rightarrow> llvm_instruction option) \<Rightarrow> bool \<Rightarrow> u64 \<Rightarrow> map_range \<Rightarrow> stk_map_record list \<Rightarrow>
    nat \<Rightarrow> stk_size_record list \<Rightarrow> id_state \<Rightarrow> (mutation_site list \<times> id_state) option" where
  "function_sites to_llvm is_pic base mapping records idx [] st = Some ([], st)"
| "function_sites to_llvm is_pic base mapping records idx (f # fs) st = do {
     require (fn_addr f > 0);
     require (idx + record_count f \<le> length records);
     (ss, st) \<leftarrow> record_sites to_llvm is_pic base mapping (fn_addr f) (take (record_count f) (drop idx records)) st;
     (ss', st) \<leftarrow> function_sites to_llvm is_pic base mapping records (idx + record_count f) fs st;
     Some (ss @ ss', st) }"

definition from_stackmap :: "(u64 \<Rightarrow> llvm_instruction option) \<Rightarrow> stack_map \<Rightarrow> map_range \<Rightarrow> elf_type \<Rightarrow> id_state \<Rightarrow>
    (mutation_site list \<times> id_state) option" where
  "from_stackmap to_llvm smap mapping e_type st = do {
     require (e_type = ET_DYN \<or> e_type = ET_EXEC);
     let is_pic = (e_type = ET_DYN);
     let base = (if is_pic then mr_start mapping else 0);
     function_sites to_llvm is_pic base mapping (stk_map_records smap) 0 (stk_size_records smap) st }"

section \<open>Ids are unique\<close>

text \<open>Room for \<open>n\<close> further ids.\<close>

definition id_inv :: "nat \<Rightarrow> id_state \<Rightarrow> bool" where
  "id_inv n st \<longleftrightarrow> finite (dom (id_map st)) \<and> card (dom (id_map st)) + 1 + n < 2 ^ 64 \<and>
     id_ctr st = of_nat (card (dom (id_map st)) + 1) \<and> inj_on (id_map st) (dom (id_map st)) \<and>
     (\<forall>k i. id_map st k = Some i \<longrightarrow> 0 < unat i \<and> unat i \<le> card (dom (id_map st)))"

lemma id_inv_init: "n + 1 < 2 ^ 64 \<Longrightarrow> id_inv n id_init"
  by (simp add: id_inv_def id_init_def MUTATION_SITE_ID_INVALID_def)

lemma id_get_inv:
  assumes inv: "id_inv (Suc n) st" and g: "id_get k st = (i, st')"
  shows "id_inv n st' \<and> id_map st \<subseteq>\<^sub>m id_map st' \<and> id_map st' k = Some i"
proof (cases "id_map st k")
  case (Some j)
  with inv g show ?thesis by (auto simp: id_get_def id_inv_def)
next
  case None
  let ?m = "id_map st" and ?c = "card (dom (id_map st))"
  have st': "i = id_ctr st" "st' = st\<lparr>id_map := ?m(k \<mapsto> id_ctr st), id_ctr := id_ctr st + 1\<rparr>"
    using None g by (auto simp: id_get_def)
  have inv': "finite (dom ?m)" "?c + 2 + n < 2 ^ 64" "id_ctr st = of_nat (?c + 1)" "inj_on ?m (dom ?m)"
    "\<And>k i. ?m k = Some i \<Longrightarrow> 0 < unat i \<and> unat i \<le> ?c"
    using inv by (auto simp: id_inv_def)
  have u: "unat (id_ctr st) = ?c + 1" unfolding inv'(3) using inv'(2) by (simp add: unat_of_nat del: of_nat_add of_nat_Suc)
  define m' where "m' = ?m(k \<mapsto> id_ctr st)"
  have c: "finite (dom m')" "card (dom m') = ?c + 1"
    using None inv'(1) by (simp_all add: m'_def card_insert_if domIff)
  have new: "?m k' \<noteq> Some (id_ctr st)" for k' using inv'(5) [of k' "id_ctr st"] u by auto
  have "inj_on m' (dom m')"
    using inv'(4) new None by (auto simp: m'_def inj_on_def domIff)
  moreover have "0 < unat i \<and> unat i \<le> ?c + 1" if "m' k' = Some i" for k' i
    using inv'(5) [of k' i] u that by (auto simp: m'_def split: if_splits)
  moreover have "id_ctr st + 1 = of_nat (?c + 1 + 1)" using inv'(3) by simp
  ultimately have "id_inv n st'"
    using inv'(2) c unfolding id_inv_def st' m'_def [symmetric] by simp
  then show ?thesis using None by (auto simp: st' map_le_def)
qed

lemma id_gets_inv:
  "id_inv (length ks + n) st \<Longrightarrow> id_gets ks st = (is, st') \<Longrightarrow>
   id_inv n st' \<and> id_map st \<subseteq>\<^sub>m id_map st' \<and> map (id_map st') ks = map Some is"
proof (induction ks arbitrary: st "is")
  case (Cons k ks)
  obtain i st1 is1 where s: "id_get k st = (i, st1)" "id_gets ks st1 = (is1, st')" "is = i # is1"
    using Cons.prems(2) by (auto simp: Let_def split: prod.splits)
  have 1: "id_inv (length ks + n) st1 \<and> id_map st \<subseteq>\<^sub>m id_map st1 \<and> id_map st1 k = Some i"
    by (rule id_get_inv [OF _ s(1)]) (use Cons.prems(1) in simp)
  then have 2: "id_inv n st' \<and> id_map st1 \<subseteq>\<^sub>m id_map st' \<and> map (id_map st') ks = map Some is1"
    using Cons.IH [OF _ s(2)] by simp
  then have "id_map st' k = Some i" using 1 by (metis domI map_le_def)
  with 1 2 s(3) show ?case by (auto intro: map_le_trans)
qed simp

lemma id_gets_unique:
  assumes "id_inv (length ks + n) st" "id_gets ks st = (is, st')" "a < length ks" "b < length ks"
  shows "is ! a = is ! b \<longleftrightarrow> ks ! a = ks ! b" "is ! a \<noteq> MUTATION_SITE_ID_INVALID"
proof -
  have i: "id_inv n st'" "map (id_map st') ks = map Some is" using id_gets_inv [OF assms(1,2)] by auto
  have l: "length is = length ks" using i(2) by (metis length_map)
  have n: "id_map st' (ks ! j) = Some (is ! j)" if "j < length ks" for j
    using i(2) that l by (metis nth_map)
  have inj: "inj_on (id_map st') (dom (id_map st'))" using i(1) by (simp add: id_inv_def)
  show "is ! a = is ! b \<longleftrightarrow> ks ! a = ks ! b"
    using n [OF assms(3)] n [OF assms(4)] inj_onD [OF inj, of "ks ! a" "ks ! b"] by (auto simp: domI)
  show "is ! a \<noteq> MUTATION_SITE_ID_INVALID"
    using n [OF assms(3)] i(1) unfolding id_inv_def MUTATION_SITE_ID_INVALID_def
    by (metis less_irrefl unat_0)
qed

section \<open>Sites of a stack map\<close>

definition site_key :: "mutation_site \<Rightarrow> site_key" where
  "site_key s = (site_address s, mr_inode (site_mapping s), mr_offset (site_mapping s))"

definition record_address :: "bool \<Rightarrow> map_range \<Rightarrow> u64 \<Rightarrow> stk_map_record \<Rightarrow> u64" where
  "record_address is_pic mapping f r =
     f + ucast (instruction_offset r) - (if is_pic then mr_offset mapping else 0)"

text \<open>What is known of the site \<open>s\<close> of the record \<open>r\<close> of the function at \<open>f\<close>.\<close>

definition site_of :: "(u64 \<Rightarrow> llvm_instruction option) \<Rightarrow> bool \<Rightarrow> u64 \<Rightarrow> map_range \<Rightarrow> u64 \<times> stk_map_record \<Rightarrow> mutation_site \<Rightarrow> bool" where
  "site_of to_llvm is_pic base mapping = (\<lambda>(f, r) s.
     site_base s = base \<and> site_mapping s = mapping \<and> site_address s = record_address is_pic mapping f r \<and>
     to_llvm (patch_point_id r) = Some (llvm_ins s) \<and>
     (\<exists>size_loc. locations r = [spill_slot s, size_loc] \<and> target_value_size_in_bit s = offset_or_constant size_loc) \<and>
     0 <s target_value_size_in_bit s \<and> (is_pic \<longrightarrow> site_address s + mr_start mapping < range_end mapping))"

lemma id_gets_append:
  "id_gets (ks @ ks') st = (let (is, st) = id_gets ks st; (is', st) = id_gets ks' st in (is @ is', st))"
  by (induction ks arbitrary: st) (simp_all add: Let_def split: prod.splits)

lemma length_2_nth: "length xs = 2 \<Longrightarrow> xs = [xs ! 0, xs ! 1]"
  by (cases xs; cases "tl xs") auto

lemma record_site_SomeD:
  assumes "record_site to_llvm is_pic base mapping f r st = Some (s, st')"
  shows "id_get (site_key s) st = (site_id s, st')" "site_of to_llvm is_pic base mapping (f, r) s"
proof -
  let ?a = "record_address is_pic mapping f r"
  obtain fa where n: "site_new to_llvm base ?a (patch_point_id r) (locations r ! 0) (offset_or_constant (locations r ! 1)) mapping fa st = Some (s, st')"
    and c: "length (locations r) = 2" "0 <s offset_or_constant (locations r ! 1)"
      "is_pic \<longrightarrow> mr_start mapping + mr_size mapping > ?a + mr_start mapping"
    using assms by (auto simp: record_site_def record_address_def Let_def split: if_splits)
  obtain ins where i: "to_llvm (patch_point_id r) = Some ins"
    "id_get (?a, mr_inode mapping, mr_offset mapping) st = (site_id s, st')"
    "s = \<lparr>site_id = site_id s, function_address = fa, site_base = base, site_address = ?a,
       llvm_ins = ins, spill_slot = locations r ! 0, target_value_size_in_bit = offset_or_constant (locations r ! 1),
       site_mapping = mapping\<rparr>"
    using n by (auto simp: site_new_def Let_def split: if_splits prod.splits bind_splits)
  have f: "site_address s = ?a" "site_mapping s = mapping" "site_base s = base" "llvm_ins s = ins"
    "spill_slot s = locations r ! 0" "target_value_size_in_bit s = offset_or_constant (locations r ! 1)"
    using i(3) by (metis mutation_site.select_convs)+
  show "id_get (site_key s) st = (site_id s, st')" using i(2) f by (simp add: site_key_def)
  show "site_of to_llvm is_pic base mapping (f, r) s"
    using f i(1) c length_2_nth [OF c(1)]
    by (auto simp: site_of_def mr_size_def mr_start_def add.commute)
qed

lemma record_sites_SomeD:
  "record_sites to_llvm is_pic base mapping f rs st = Some (ss, st') \<Longrightarrow>
   id_gets (map site_key ss) st = (map site_id ss, st') \<and>
   list_all2 (site_of to_llvm is_pic base mapping) (map (Pair f) rs) ss"
proof (induction rs arbitrary: st ss)
  case (Cons r rs)
  then obtain s st1 ss1 where s: "record_site to_llvm is_pic base mapping f r st = Some (s, st1)"
    "record_sites to_llvm is_pic base mapping f rs st1 = Some (ss1, st')" "ss = s # ss1"
    by (auto split: bind_splits)
  then show ?case using record_site_SomeD [OF s(1)] Cons.IH [OF s(2)] by simp
qed auto

text \<open>The records of each function, as the counts divide the list of all records.\<close>

fun group_records :: "stk_size_record list \<Rightarrow> stk_map_record list \<Rightarrow> (u64 \<times> stk_map_record) list" where
  "group_records [] rs = []"
| "group_records (f # fs) rs = map (Pair (fn_addr f)) (take (record_count f) rs) @ group_records fs (drop (record_count f) rs)"

lemma function_sites_SomeD:
  "function_sites to_llvm is_pic base mapping records idx fs st = Some (ss, st') \<Longrightarrow>
   id_gets (map site_key ss) st = (map site_id ss, st') \<and>
   list_all2 (site_of to_llvm is_pic base mapping) (group_records fs (drop idx records)) ss \<and>
   idx + sum_list (map record_count fs) \<le> max idx (length records)"
proof (induction fs arbitrary: idx st ss)
  case (Cons f fs)
  then obtain ss1 st1 ss2 where s:
    "record_sites to_llvm is_pic base mapping (fn_addr f) (take (record_count f) (drop idx records)) st = Some (ss1, st1)"
    "function_sites to_llvm is_pic base mapping records (idx + record_count f) fs st1 = Some (ss2, st')"
    "ss = ss1 @ ss2" "idx + record_count f \<le> length records"
    by (auto split: bind_splits if_splits)
  show ?case
    using record_sites_SomeD [OF s(1)] Cons.IH [OF s(2)] s(3,4)
    by (auto simp: id_gets_append Let_def add.commute intro: list_all2_appendI)
qed auto

section \<open>Entries of sites\<close>

lemma mce_new_no_msk:
  "mce_new L i ins v fl sp bits 0 = Some \<lparr>mce_md = \<lparr>md_id = i, md_llvm_instruction = ins, md_vma = v, md_flags = fl,
     md_spill_slot = sp, md_target_value_size_bits = bits, md_read_pos_bits = 0, md_msk_len = 0\<rparr>,
     mce_mem = replicate (align8 (md_size L) - md_size L) 0\<rparr>"
  by (simp add: mce_new_def MAX_MASK_LEN_def Let_def)

text \<open>The entry of a site: enabled, not traced and with an empty mask.\<close>

definition site_entry :: "layout \<Rightarrow> mutation_site \<Rightarrow> mce" where
  "site_entry L s = \<lparr>mce_md = \<lparr>md_id = site_id s, md_llvm_instruction = llvm_ins s, md_vma = vma s, md_flags = 0,
     md_spill_slot = spill_slot s, md_target_value_size_bits = target_value_size_in_bit s, md_read_pos_bits = 0,
     md_msk_len = 0\<rparr>, mce_mem = replicate (align8 (md_size L) - md_size L) 0\<rparr>"

lemma into_mutation_cache_entry_eq: "into_mutation_cache_entry L s = Some (site_entry L s)"
  by (simp add: into_mutation_cache_entry_def mce_new_no_msk site_entry_def flag_u8_def)

lemma site_entry_facts:
  "mce_id (site_entry L s) = site_id s" "msk_len (site_entry L s) = 0" "mce_enabled (site_entry L s)"
  "mce_size L (site_entry L s) = align8 (md_size L)" "mce_exact L (site_entry L s)"
  "get_msk_as_slice (site_entry L s) = []"
  "target_value_size_byte (site_entry L s) = site_target_value_size_byte s"
  using align8_bounds(1) [of "md_size L"]
  by (simp_all add: site_entry_def mce_id_def msk_len_def mce_enabled_def is_flag_set_def mce_size_def
      size_wo_overflow_padding_def mce_exact_def get_msk_as_slice_def target_value_size_byte_def
      site_target_value_size_byte_def)

section \<open>Properties\<close>

text \<open>
  C32: Every record of the stack map gives one mutation site, in order. Its address is the address of
  its function plus the offset of the record, relocated to the mapping for a position-independent
  binary and then below the end of the mapping; its spill slot and value size are the record's two
  locations. Sites get the same id exactly when they have the same address, and never the invalid id.
\<close>

theorem from_stackmap_correct:
  assumes "from_stackmap to_llvm smap mapping e_type st = Some (ss, st')" "id_inv (length ss) st"
  defines "rs \<equiv> group_records (stk_size_records smap) (stk_map_records smap)"
  shows "length ss = length rs \<and>
    (\<forall>i<length ss. case rs ! i of (f, r) \<Rightarrow>
       vma (ss ! i) = f + ucast (instruction_offset r) + (if e_type = ET_DYN then mr_start mapping - mr_offset mapping else 0) \<and>
       (e_type = ET_DYN \<longrightarrow> vma (ss ! i) < range_end mapping) \<and>
       spill_slot (ss ! i) = locations r ! 0 \<and> target_value_size_in_bit (ss ! i) = offset_or_constant (locations r ! 1)) \<and>
    (\<forall>i<length ss. \<forall>j<length ss. (site_id (ss ! i) = site_id (ss ! j) \<longleftrightarrow> vma (ss ! i) = vma (ss ! j)) \<and>
       site_id (ss ! i) \<noteq> MUTATION_SITE_ID_INVALID)"
proof -
  let ?pic = "e_type = ET_DYN" and ?b = "if e_type = ET_DYN then mr_start mapping else 0"
  have fs: "function_sites to_llvm ?pic ?b mapping (stk_map_records smap) 0 (stk_size_records smap) st = Some (ss, st')"
    using assms(1) by (simp add: from_stackmap_def Let_def split: if_splits)
  note d = function_sites_SomeD [OF fs]
  have so: "list_all2 (site_of to_llvm ?pic ?b mapping) rs ss" using d by (simp add: rs_def)
  then have l: "length ss = length rs" by (simp add: list_all2_lengthD)
  have n: "site_of to_llvm ?pic ?b mapping (rs ! i) (ss ! i)" if "i < length ss" for i
    using so that l by (simp add: list_all2_nthD)
  have bm: "site_base (ss ! i) = ?b" "site_mapping (ss ! i) = mapping" if "i < length ss" for i
    using n [OF that] by (auto simp: site_of_def split: prod.splits)
  have g: "id_gets (map site_key ss) st = (map site_id ss, st')" using d by simp
  have "site_id (ss ! i) = site_id (ss ! j) \<longleftrightarrow> vma (ss ! i) = vma (ss ! j)"
    "site_id (ss ! i) \<noteq> MUTATION_SITE_ID_INVALID" if "i < length ss" "j < length ss" for i j
    using id_gets_unique [OF _ g, of 0 i j] assms(2) that bm [OF that(1)] bm [OF that(2)]
    by (auto simp: site_key_def vma_def)
  moreover have "case rs ! i of (f, r) \<Rightarrow>
       vma (ss ! i) = f + ucast (instruction_offset r) + (if ?pic then mr_start mapping - mr_offset mapping else 0) \<and>
       (?pic \<longrightarrow> vma (ss ! i) < range_end mapping) \<and>
       spill_slot (ss ! i) = locations r ! 0 \<and> target_value_size_in_bit (ss ! i) = offset_or_constant (locations r ! 1)"
    if "i < length ss" for i
    using n [OF that] by (auto simp: site_of_def vma_def record_address_def algebra_simps split: prod.splits)
  ultimately show ?thesis using l by blast
qed

text \<open>A position-independent binary with two functions and three records.\<close>

definition sample_record :: "u32 \<Rightarrow> stk_map_record" where
  "sample_record n = \<lparr>patch_point_id = 53, instruction_offset = n, locations =
     [\<lparr>loc_type = LT_Direct, loc_size = 8, dwarf_regnum = 6, offset_or_constant = 16\<rparr>,
      \<lparr>loc_type = LT_Constant, loc_size = 8, dwarf_regnum = 0, offset_or_constant = 32\<rparr>]\<rparr>"

definition sample_stackmap :: stack_map where
  "sample_stackmap = \<lparr>stk_size_records = [\<lparr>fn_addr = 0x1100, record_count = 2\<rparr>, \<lparr>fn_addr = 0x1200, record_count = 1\<rparr>],
     stk_map_records = [sample_record 4, sample_record 8, sample_record 4]\<rparr>"

definition sample_mapping :: map_range where
  "sample_mapping = \<lparr>range_start = 0x555555555000, range_end = 0x555555556000, mr_offset = 0x1000,
     mr_dev = [], mr_flags = [], mr_inode = 42, mr_pathname = None\<rparr>"

theorem from_stackmap_correct_witness:
  "\<exists>ss st'. from_stackmap (\<lambda>i. if i = 53 then Some LI_ICmp else None) sample_stackmap sample_mapping ET_DYN id_init =
      Some (ss, st') \<and> map vma ss = [0x555555555104, 0x555555555108, 0x555555555204] \<and>
      site_id (ss ! 0) \<noteq> site_id (ss ! 2)"
proof -
  obtain ss st' where s: "from_stackmap (\<lambda>i. if i = 53 then Some LI_ICmp else None) sample_stackmap sample_mapping ET_DYN id_init =
      Some (ss, st')" "map vma ss = [0x555555555104, 0x555555555108, 0x555555555204]"
  proof -
    have "map_option (\<lambda>(ss, st'). map vma ss)
      (from_stackmap (\<lambda>i. if i = 53 then Some LI_ICmp else None) sample_stackmap sample_mapping ET_DYN id_init) =
      Some [0x555555555104, 0x555555555108, 0x555555555204]"
      by code_simp
    then show thesis using that by auto
  qed
  have l: "length ss = 3" using s(2) by (metis length_map length_Cons list.size(3) numeral_3_eq_3)
  then have "id_inv (length ss) id_init" by (intro id_inv_init) simp
  from from_stackmap_correct [OF s(1) this] l
  have "site_id (ss ! 0) = site_id (ss ! 2) \<longleftrightarrow> vma (ss ! 0) = vma (ss ! 2)" by simp
  moreover have "vma (ss ! 0) = 0x555555555104" "vma (ss ! 2) = 0x555555555204"
    using s(2) l by (auto simp: list_eq_iff_nth_eq numeral_3_eq_3 nth_Cons split: nat.splits)
  ultimately show ?thesis using s by auto
qed

end
