(* ===== verification/Messages.thy ===== *)
theory Messages
  imports FT_Prelude
begin

text \<open>
  The messages between the fuzzer and the agent (\<^verbatim>\<open>fuzztruction_shared/src/messages.rs\<close>,
  \<^verbatim>\<open>aux_messages.rs\<close>) and their reception (\<^verbatim>\<open>communication_channel.rs\<close>). A message is a
  \<^verbatim>\<open>#[repr(C)]\<close> structure that is sent as its bytes; the layout below is the one the
  representation prescribes, and the bytes of the padding are a parameter: the sender leaves
  them as they are.
\<close>

section \<open>Message types\<close>

datatype message_type =
    MsgIdInvalid | MsgIdHello | MsgIdRun | MsgIdTerminated | MsgIdShutdown | MsgIdOk
  | MsgIdTracePointStat | MsgIdSyncMutations | MT_KeepAlive | MT_ChildPid | MT_AuxStreamMessage
  | MT_AfterListen | MT_AfterBind | MT_AfterConnect

fun mt_u8 :: "message_type \<Rightarrow> u8" where
  "mt_u8 MsgIdInvalid = 0"
| "mt_u8 MsgIdHello = 1"
| "mt_u8 MsgIdRun = 2"
| "mt_u8 MsgIdTerminated = 4"
| "mt_u8 MsgIdShutdown = 5"
| "mt_u8 MsgIdOk = 6"
| "mt_u8 MsgIdTracePointStat = 10"
| "mt_u8 MsgIdSyncMutations = 12"
| "mt_u8 MT_KeepAlive = 14"
| "mt_u8 MT_ChildPid = 15"
| "mt_u8 MT_AuxStreamMessage = 16"
| "mt_u8 MT_AfterListen = 17"
| "mt_u8 MT_AfterBind = 18"
| "mt_u8 MT_AfterConnect = 19"

definition mt_try_from :: "u8 \<Rightarrow> message_type option" where
  "mt_try_from x =
     (if x = mt_u8 MsgIdInvalid then Some MsgIdInvalid
      else if x = mt_u8 MsgIdHello then Some MsgIdHello
      else if x = mt_u8 MsgIdRun then Some MsgIdRun
      else if x = mt_u8 MsgIdTerminated then Some MsgIdTerminated
      else if x = mt_u8 MsgIdShutdown then Some MsgIdShutdown
      else if x = mt_u8 MsgIdOk then Some MsgIdOk
      else if x = mt_u8 MsgIdTracePointStat then Some MsgIdTracePointStat
      else if x = mt_u8 MsgIdSyncMutations then Some MsgIdSyncMutations
      else if x = mt_u8 MT_KeepAlive then Some MT_KeepAlive
      else if x = mt_u8 MT_ChildPid then Some MT_ChildPid
      else if x = mt_u8 MT_AuxStreamMessage then Some MT_AuxStreamMessage
      else if x = mt_u8 MT_AfterListen then Some MT_AfterListen
      else if x = mt_u8 MT_AfterBind then Some MT_AfterBind
      else if x = mt_u8 MT_AfterConnect then Some MT_AfterConnect
      else None)"

datatype aux_stream_type = AST_Invalid | AST_LogRecord

definition ast_u8 :: "aux_stream_type \<Rightarrow> u8" where
  "ast_u8 t = (case t of AST_Invalid \<Rightarrow> 0 | AST_LogRecord \<Rightarrow> 1)"

definition ast_try_from :: "u8 \<Rightarrow> aux_stream_type option" where
  "ast_try_from v = (if v = ast_u8 AST_LogRecord then Some AST_LogRecord else None)"

definition AUX_STREAM_MESSAGE_CHUNK_SIZE :: nat where
  "AUX_STREAM_MESSAGE_CHUNK_SIZE = 512"

record aux_stream_message =
  asm_stream_type :: aux_stream_type
  asm_chunk_len :: u64
  asm_chunk :: "u8 list"
  asm_msgs_left :: u64

text \<open>
  The structures; their header always carries the id of their type. The execution index is an
  \<^verbatim>\<open>Option<NonZeroU64>\<close>.
\<close>

datatype message =
    HelloMessage u32
  | RunMessage u32
  | TerminatedMessage u32 bool
  | ShutdownMessage
  | TracePointStat u64 u64 "u64 option"
  | SyncMutations
  | KeepAlive
  | OkMessage
  | ChildPid u64
  | AfterListen
  | AfterBind
  | AfterConnect
  | AuxStreamMessage aux_stream_message

fun msg_type :: "message \<Rightarrow> message_type" where
  "msg_type (HelloMessage _) = MsgIdHello"
| "msg_type (RunMessage _) = MsgIdRun"
| "msg_type (TerminatedMessage _ _) = MsgIdTerminated"
| "msg_type ShutdownMessage = MsgIdShutdown"
| "msg_type (TracePointStat _ _ _) = MsgIdTracePointStat"
| "msg_type SyncMutations = MsgIdSyncMutations"
| "msg_type KeepAlive = MT_KeepAlive"
| "msg_type OkMessage = MsgIdOk"
| "msg_type (ChildPid _) = MT_ChildPid"
| "msg_type AfterListen = MT_AfterListen"
| "msg_type AfterBind = MT_AfterBind"
| "msg_type AfterConnect = MT_AfterConnect"
| "msg_type (AuxStreamMessage _) = MT_AuxStreamMessage"

text \<open>The constructors, with the defaults of the fields they do not take.\<close>

definition hello_default :: message where "hello_default = HelloMessage (- 1)"

definition hello_new :: "u32 \<Rightarrow> message" where "hello_new tid = HelloMessage tid"

definition run_default :: message where "run_default = RunMessage 1000"

definition run_from_millis :: "u32 \<Rightarrow> message" where
  "run_from_millis ms = (case run_default of RunMessage _ \<Rightarrow> RunMessage ms | m \<Rightarrow> m)"

definition terminated_default :: message where "terminated_default = TerminatedMessage 0 False"

definition shutdown_default :: message where "shutdown_default = ShutdownMessage"

definition trace_point_stat_default :: message where "trace_point_stat_default = TracePointStat 0 0 None"

definition trace_point_stat_new :: "u64 \<Rightarrow> u64 \<Rightarrow> u64 option \<Rightarrow> message" where
  "trace_point_stat_new i cnt idx = TracePointStat i cnt idx"

definition sync_mutations_new :: message where "sync_mutations_new = SyncMutations"

definition keep_alive_new :: message where "keep_alive_new = KeepAlive"

definition ok_new :: message where "ok_new = OkMessage"

definition child_pid_new :: "u64 \<Rightarrow> message" where "child_pid_new pid = ChildPid pid"

definition after_listen_new :: message where "after_listen_new = AfterListen"

definition after_bind_new :: message where "after_bind_new = AfterBind"

definition after_connect_new :: message where "after_connect_new = AfterConnect"

section \<open>Bytes\<close>

text \<open>\<^verbatim>\<open>size_of\<close> of the structure of a message type; the header alone is one byte.\<close>

fun msg_size :: "message_type \<Rightarrow> nat" where
  "msg_size MsgIdHello = 8"
| "msg_size MsgIdRun = 8"
| "msg_size MsgIdTerminated = 12"
| "msg_size MsgIdTracePointStat = 32"
| "msg_size MT_ChildPid = 16"
| "msg_size MT_AuxStreamMessage = 16 + AUX_STREAM_MESSAGE_CHUNK_SIZE + 8"
| "msg_size _ = 1"

definition opt_nonzero :: "u64 option \<Rightarrow> u64" where
  "opt_nonzero i = (case i of None \<Rightarrow> 0 | Some n \<Rightarrow> n)"

definition nonzero_opt :: "u64 \<Rightarrow> u64 option" where
  "nonzero_opt n = (if n = 0 then None else Some n)"

definition padding :: "(nat \<Rightarrow> u8) \<Rightarrow> nat \<Rightarrow> nat \<Rightarrow> u8 list" where
  "padding pad a b = map pad [a..<b]"

fun msg_fields :: "(nat \<Rightarrow> u8) \<Rightarrow> message \<Rightarrow> u8 list" where
  "msg_fields pad (HelloMessage tid) = padding pad 1 4 @ le_bytes32 tid"
| "msg_fields pad (RunMessage timeout_ms) = padding pad 1 4 @ le_bytes32 timeout_ms"
| "msg_fields pad (TerminatedMessage exit_code is_timeout) =
    padding pad 1 4 @ le_bytes32 exit_code @ [if is_timeout then 1 else 0] @ padding pad 9 12"
| "msg_fields pad (TracePointStat i cnt idx) =
    padding pad 1 8 @ to_le_bytes i @ to_le_bytes cnt @ to_le_bytes (opt_nonzero idx)"
| "msg_fields pad (ChildPid pid) = padding pad 1 8 @ to_le_bytes pid"
| "msg_fields pad (AuxStreamMessage m) =
    [ast_u8 (asm_stream_type m)] @ padding pad 2 8 @ to_le_bytes (asm_chunk_len m) @ asm_chunk m @
    to_le_bytes (asm_msgs_left m)"
| "msg_fields pad _ = []"

definition to_bytes :: "(nat \<Rightarrow> u8) \<Rightarrow> message \<Rightarrow> u8 list" where
  "to_bytes pad m = mt_u8 (msg_type m) # msg_fields pad m"

datatype msg_error = BufferTooSmall | InvalidHeader | UnexpectedId | InvalidStreamType | FailedToReceive | FailedToSend

definition u64_at :: "u8 list \<Rightarrow> nat \<Rightarrow> u64" where
  "u64_at bs i = from_le_bytes (take 8 (drop i bs))"

definition u32_at :: "u8 list \<Rightarrow> nat \<Rightarrow> u32" where
  "u32_at bs i = from_le32 (drop i bs)"

text \<open>
  \<^verbatim>\<open>ptr::read\<close> of the structure of the given type, for a slice that is long enough. A \<^verbatim>\<open>bool\<close> other
  than 0 and 1, and an unknown stream type, have no value.
\<close>

definition read_msg :: "message_type \<Rightarrow> u8 list \<Rightarrow> message option" where
  "read_msg ty bs = (case ty of
      MsgIdHello \<Rightarrow> Some (HelloMessage (u32_at bs 4))
    | MsgIdRun \<Rightarrow> Some (RunMessage (u32_at bs 4))
    | MsgIdTerminated \<Rightarrow> do {
        require (bs ! 8 = 0 \<or> bs ! 8 = 1);
        Some (TerminatedMessage (u32_at bs 4) (bs ! 8 = 1)) }
    | MsgIdShutdown \<Rightarrow> Some ShutdownMessage
    | MsgIdTracePointStat \<Rightarrow> Some (TracePointStat (u64_at bs 8) (u64_at bs 16) (nonzero_opt (u64_at bs 24)))
    | MsgIdSyncMutations \<Rightarrow> Some SyncMutations
    | MT_KeepAlive \<Rightarrow> Some KeepAlive
    | MsgIdOk \<Rightarrow> Some OkMessage
    | MT_ChildPid \<Rightarrow> Some (ChildPid (u64_at bs 8))
    | MT_AfterListen \<Rightarrow> Some AfterListen
    | MT_AfterBind \<Rightarrow> Some AfterBind
    | MT_AfterConnect \<Rightarrow> Some AfterConnect
    | MT_AuxStreamMessage \<Rightarrow> do {
        t \<leftarrow> (if bs ! 1 = ast_u8 AST_Invalid then Some AST_Invalid else ast_try_from (bs ! 1));
        Some (AuxStreamMessage \<lparr>asm_stream_type = t, asm_chunk_len = u64_at bs 8,
          asm_chunk = take AUX_STREAM_MESSAGE_CHUNK_SIZE (drop 16 bs),
          asm_msgs_left = u64_at bs (16 + AUX_STREAM_MESSAGE_CHUNK_SIZE)\<rparr>) }
    | MsgIdInvalid \<Rightarrow> None)"

definition header_try_from_bytes :: "u8 list \<Rightarrow> msg_error + message_type" where
  "header_try_from_bytes bs = (if length bs < 1 then Inl BufferTooSmall
     else case mt_try_from (bs ! 0) of None \<Rightarrow> Inl InvalidHeader | Some t \<Rightarrow> Inr t)"

text \<open>
  \<^verbatim>\<open>T::try_from_bytes\<close> for the type \<open>ty\<close>; the outer option is the undefined value above. After the
  header only the stream type of an auxiliary message is sanitized.
\<close>

definition try_from_bytes :: "message_type \<Rightarrow> u8 list \<Rightarrow> (msg_error + message) option" where
  "try_from_bytes ty bs =
     (if length bs < msg_size ty then Some (Inl BufferTooSmall)
      else case mt_try_from (bs ! 0) of
          None \<Rightarrow> Some (Inl InvalidHeader)
        | Some i \<Rightarrow>
            if ty \<noteq> i then Some (Inl UnexpectedId)
            else if ty = MT_AuxStreamMessage \<and> ast_try_from (bs ! 1) = None then Some (Inl InvalidStreamType)
            else map_option Inr (read_msg ty bs))"

definition is_instance_of :: "message_type \<Rightarrow> u8 list \<Rightarrow> bool" where
  "is_instance_of ty bs = (if length bs < msg_size ty then False else mt_try_from (bs ! 0) = Some ty)"

section \<open>The communication channel\<close>

text \<open>
  \<open>received\<close> is what \<^verbatim>\<open>PosixMq::receive_timeout\<close> delivers: nothing, or the bytes of a message, which it
  stores at the start of the buffer. The code parses the whole buffer, with the bytes of earlier
  messages behind the message.
\<close>

definition recv_message :: "u8 list \<Rightarrow> u8 list option \<Rightarrow> (u8 list \<times> (msg_error + message)) option" where
  "recv_message buffer received = (case received of
      None \<Rightarrow> Some (buffer, Inl FailedToReceive)
    | Some bs \<Rightarrow> do {
        let buffer = bs @ drop (length bs) buffer;
        case header_try_from_bytes buffer of
          Inl e \<Rightarrow> Some (buffer, Inl e)
        | Inr i \<Rightarrow>
            if i \<in> {MsgIdHello, MsgIdRun, MsgIdTerminated, MsgIdShutdown, MsgIdTracePointStat, MsgIdSyncMutations}
            then map_option (Pair buffer) (try_from_bytes i buffer)
            else None })"

text \<open>
  Sending appends the bytes to the queue; all messages have the same priority. \<open>accepted\<close> is whether
  \<^verbatim>\<open>PosixMq::send_timeout\<close> succeeds before the timeout.
\<close>

definition send_message ::
  "(nat \<Rightarrow> u8) \<Rightarrow> bool \<Rightarrow> message \<Rightarrow> u8 list list \<Rightarrow> u8 list list \<times> (msg_error + unit)" where
  "send_message pad accepted m queue =
     (if \<not> accepted then (queue, Inl FailedToSend) else (queue @ [to_bytes pad m], Inr ()))"

text \<open>A sequence of calls of the sender, and of the receiver.\<close>

fun send_seq :: "((nat \<Rightarrow> u8) \<times> bool \<times> message) list \<Rightarrow> u8 list list \<Rightarrow> u8 list list" where
  "send_seq [] queue = queue"
| "send_seq ((pad, accepted, m) # ms) queue = send_seq ms (fst (send_message pad accepted m queue))"

fun recv_seq :: "u8 list \<Rightarrow> u8 list list \<Rightarrow> (u8 list \<times> (msg_error + message) list) option" where
  "recv_seq buffer [] = Some (buffer, [])"
| "recv_seq buffer (bs # queue) = do {
     (buffer, r) \<leftarrow> recv_message buffer (Some bs);
     (buffer, rs) \<leftarrow> recv_seq buffer queue;
     Some (buffer, r # rs) }"

section \<open>Round trips\<close>

lemma mt_try_from_u8 [simp]: "mt_try_from (mt_u8 t) = Some t"
  by (cases t) (simp_all add: mt_try_from_def)

lemma mt_try_from_Some: "mt_try_from x = Some t \<longleftrightarrow> x = mt_u8 t"
proof
  assume "mt_try_from x = Some t"
  then show "x = mt_u8 t" by (auto simp: mt_try_from_def split: if_splits)
qed simp

text \<open>The messages the constructors build.\<close>

fun msg_wf :: "message \<Rightarrow> bool" where
  "msg_wf (TracePointStat _ _ idx) = (idx \<noteq> Some 0)"
| "msg_wf (AuxStreamMessage m) =
    (length (asm_chunk m) = AUX_STREAM_MESSAGE_CHUNK_SIZE \<and> asm_stream_type m \<noteq> AST_Invalid)"
| "msg_wf _ = True"

lemma length_padding [simp]: "length (padding pad a b) = b - a"
  by (simp add: padding_def)

lemma length_to_bytes: "msg_wf m \<Longrightarrow> length (to_bytes pad m) = msg_size (msg_type m)"
  by (cases m) (simp_all add: to_bytes_def)

lemma nonzero_opt_inv [simp]: "i \<noteq> Some 0 \<Longrightarrow> nonzero_opt (opt_nonzero i) = i"
  by (cases i) (auto simp: nonzero_opt_def opt_nonzero_def)

lemma opt_nonzero_inv [simp]: "opt_nonzero (nonzero_opt n) = n"
  by (simp add: nonzero_opt_def opt_nonzero_def)

lemma u64_at_append:
  "length a = i \<Longrightarrow> u64_at (a @ to_le_bytes w @ bs) i = w"
  by (simp add: u64_at_def)

lemma u32_at_append: "length a = i \<Longrightarrow> u32_at (a @ le_bytes32 w @ bs) i = w"
  by (simp add: u32_at_def)

lemma read_to_bytes:
  assumes "msg_wf m"
  shows "read_msg (msg_type m) (to_bytes pad m @ rest) = Some m"
proof (cases m)
  case (HelloMessage tid)
  have "to_bytes pad m @ rest = (mt_u8 MsgIdHello # padding pad 1 4) @ le_bytes32 tid @ rest"
    by (simp add: HelloMessage to_bytes_def)
  then show ?thesis by (simp add: HelloMessage read_msg_def u32_at_append del: append_Cons)
next
  case (RunMessage tm)
  have "to_bytes pad m @ rest = (mt_u8 MsgIdRun # padding pad 1 4) @ le_bytes32 tm @ rest"
    by (simp add: RunMessage to_bytes_def)
  then show ?thesis by (simp add: RunMessage read_msg_def u32_at_append del: append_Cons)
next
  case (TerminatedMessage ec tm)
  let ?a = "mt_u8 MsgIdTerminated # padding pad 1 4"
  let ?r = "[if tm then 1 else 0] @ padding pad 9 12 @ rest"
  have e: "to_bytes pad m @ rest = ?a @ le_bytes32 ec @ ?r"
    by (simp add: TerminatedMessage to_bytes_def)
  have "(?a @ le_bytes32 ec @ ?r) ! 8 = (if tm then 1 else 0)"
    by (subst append_assoc [symmetric], subst nth_append) simp
  then show ?thesis
    unfolding e by (simp add: TerminatedMessage read_msg_def u32_at_append del: append_Cons)
next
  case (TracePointStat i cnt idx)
  let ?a = "mt_u8 MsgIdTracePointStat # padding pad 1 8"
  have e: "to_bytes pad m @ rest = ?a @ to_le_bytes i @ to_le_bytes cnt @ to_le_bytes (opt_nonzero idx) @ rest"
    by (simp add: TracePointStat to_bytes_def)
  have "u64_at (to_bytes pad m @ rest) 8 = i" unfolding e by (rule u64_at_append) simp
  moreover have "u64_at (to_bytes pad m @ rest) 16 = cnt"
    unfolding e using u64_at_append [of "?a @ to_le_bytes i" 16] by simp
  moreover have "u64_at (to_bytes pad m @ rest) 24 = opt_nonzero idx"
    unfolding e using u64_at_append [of "?a @ to_le_bytes i @ to_le_bytes cnt" 24] by simp
  ultimately show ?thesis using assms by (simp add: TracePointStat read_msg_def)
next
  case (ChildPid pid)
  have "to_bytes pad m @ rest = (mt_u8 MT_ChildPid # padding pad 1 8) @ to_le_bytes pid @ rest"
    by (simp add: ChildPid to_bytes_def)
  then show ?thesis by (simp add: ChildPid read_msg_def u64_at_append del: append_Cons)
next
  case (AuxStreamMessage a)
  have l: "length (asm_chunk a) = 512" "asm_stream_type a = AST_LogRecord"
    using assms by (cases "asm_stream_type a"; simp add: AuxStreamMessage AUX_STREAM_MESSAGE_CHUNK_SIZE_def)+
  let ?p = "[mt_u8 MT_AuxStreamMessage, ast_u8 (asm_stream_type a)] @ padding pad 2 8"
  have e: "to_bytes pad m @ rest = ?p @ to_le_bytes (asm_chunk_len a) @ asm_chunk a @ to_le_bytes (asm_msgs_left a) @ rest"
    by (simp add: AuxStreamMessage to_bytes_def)
  have "u64_at (to_bytes pad m @ rest) 8 = asm_chunk_len a" unfolding e by (rule u64_at_append) simp
  moreover have "u64_at (to_bytes pad m @ rest) 528 = asm_msgs_left a"
    unfolding e using u64_at_append [of "?p @ to_le_bytes (asm_chunk_len a) @ asm_chunk a" 528] l by simp
  moreover have "take 512 (drop 16 (to_bytes pad m @ rest)) = asm_chunk a" unfolding e using l by simp
  moreover have "(to_bytes pad m @ rest) ! 1 = ast_u8 AST_LogRecord" unfolding e using l by simp
  ultimately show ?thesis using l
    by (simp add: AuxStreamMessage read_msg_def AUX_STREAM_MESSAGE_CHUNK_SIZE_def ast_try_from_def ast_u8_def)
qed (simp_all add: read_msg_def)

lemma padding_nth: "b \<le> length bs \<Longrightarrow> padding ((!) bs) a b = take (b - a) (drop a bs)"
  by (rule nth_equalityI) (auto simp: padding_def)

lemma take_pieces: "take n bs @ take k (drop n bs) = take (n + k) bs"
  by (simp add: take_add)

lemma take_pieces_append: "take n bs @ take k (drop n bs) @ xs = take (n + k) bs @ xs"
  by (simp add: take_add)

lemma take_1_nth: "0 < length bs \<Longrightarrow> [bs ! 0] = take 1 bs"
  by (cases bs) simp_all

lemma to_bytes_split: "to_bytes pad m = [mt_u8 (msg_type m)] @ msg_fields pad m"
  by (simp add: to_bytes_def)

lemma to_le_u64_at: "i + 8 \<le> length bs \<Longrightarrow> to_le_bytes (u64_at bs i) = take 8 (drop i bs)"
  by (simp add: u64_at_def)

lemma le_u32_at: "i + 4 \<le> length bs \<Longrightarrow> le_bytes32 (u32_at bs i) = take 4 (drop i bs)"
  by (simp add: u32_at_def)

lemma nth_take_drop_1: "i < length bs \<Longrightarrow> [bs ! i] = take 1 (drop i bs)"
  by (simp add: take_Suc_conv_app_nth hd_drop_conv_nth)

text \<open>Reading a message and writing it, with the same padding, gives the bytes that were read.\<close>

lemma read_msg_bytes:
  assumes r: "read_msg ty bs = Some m" and l: "msg_size ty \<le> length bs" and h: "bs ! 0 = mt_u8 ty"
  shows "msg_type m = ty \<and> to_bytes ((!) bs) m = take (msg_size ty) bs"
proof -
  have "0 < msg_size ty" by (cases ty) simp_all
  then have l0: "0 < length bs" using l by linarith
  have h1: "[mt_u8 ty] = take 1 bs" using h take_1_nth [OF l0] by simp
  have ty: "msg_type m = ty"
    using r by (cases ty) (auto simp: read_msg_def split: option.splits if_splits Option.bind_splits)
  note facts = padding_nth le_u32_at to_le_u64_at take_pieces take_pieces_append
  show ?thesis
  proof (cases ty)
    case MsgIdTerminated
    have "[bs ! 8] = take 1 (drop 8 bs)" using l MsgIdTerminated by (intro nth_take_drop_1) simp
    moreover have "m = TerminatedMessage (u32_at bs 4) (bs ! 8 = 1)" "bs ! 8 = 0 \<or> bs ! 8 = 1"
      using r MsgIdTerminated by (auto simp: read_msg_def split: if_splits)
    moreover from this(2) have "(if bs ! 8 = 1 then 1 else 0) = bs ! 8" by auto
    ultimately show ?thesis
      using l ty h1 MsgIdTerminated unfolding to_bytes_split by (simp add: facts del: append_Cons)
  next
    case MT_AuxStreamMessage
    have "[bs ! 1] = take 1 (drop 1 bs)"
      using l MT_AuxStreamMessage by (intro nth_take_drop_1) (simp add: AUX_STREAM_MESSAGE_CHUNK_SIZE_def)
    moreover obtain t where "ast_u8 t = bs ! 1" "m = AuxStreamMessage \<lparr>asm_stream_type = t,
        asm_chunk_len = u64_at bs 8, asm_chunk = take 512 (drop 16 bs), asm_msgs_left = u64_at bs 528\<rparr>"
      using r MT_AuxStreamMessage
      by (auto simp: read_msg_def ast_try_from_def AUX_STREAM_MESSAGE_CHUNK_SIZE_def split: if_splits)
    ultimately show ?thesis
      using l ty h1 MT_AuxStreamMessage unfolding to_bytes_split
      by (simp add: facts AUX_STREAM_MESSAGE_CHUNK_SIZE_def numeral_2_eq_2 [symmetric] del: append_Cons)
  qed (use r l ty h1 in \<open>auto simp: read_msg_def to_bytes_split facts simp del: append_Cons\<close>)
qed

lemma try_from_to_bytes:
  assumes "msg_wf m"
  shows "try_from_bytes (msg_type m) (to_bytes pad m @ rest) = Some (Inr m)"
proof -
  have h: "(to_bytes pad m @ rest) ! 0 = mt_u8 (msg_type m)" by (simp add: to_bytes_def)
  have a: "msg_type m = MT_AuxStreamMessage \<Longrightarrow> ast_try_from ((to_bytes pad m @ rest) ! 1) \<noteq> None"
    using assms by (cases m) (auto simp: to_bytes_def ast_try_from_def ast_u8_def split: aux_stream_type.splits)
  show ?thesis
    using assms a h length_to_bytes [OF assms, of pad] read_to_bytes [OF assms, of pad rest]
    by (auto simp: try_from_bytes_def)
qed

section \<open>Properties\<close>

definition receivable :: "message_type list" where
  "receivable = [MsgIdHello, MsgIdRun, MsgIdTerminated, MsgIdShutdown, MsgIdTracePointStat, MsgIdSyncMutations]"

lemma recv_to_bytes:
  assumes "msg_wf m"
  shows "recv_message buffer (Some (to_bytes pad m)) =
    (if msg_type m \<in> set receivable
     then Some (to_bytes pad m @ drop (msg_size (msg_type m)) buffer, Inr m) else None)"
proof -
  let ?b = "to_bytes pad m @ drop (length (to_bytes pad m)) buffer"
  have "header_try_from_bytes ?b = Inr (msg_type m)"
    by (simp add: header_try_from_bytes_def to_bytes_def)
  with try_from_to_bytes [OF assms, of pad "drop (length (to_bytes pad m)) buffer"]
    length_to_bytes [OF assms, of pad] show ?thesis
    by (simp add: recv_message_def Let_def receivable_def)
qed

lemma send_seq_queue:
  "send_seq ms queue = queue @ map (\<lambda>(pad, _, m). to_bytes pad m) (filter (\<lambda>(_, accepted, _). accepted) ms)"
  by (induction ms queue rule: send_seq.induct) (simp_all add: send_message_def)

lemma recv_seq_bytes:
  "(\<And>pad m. (pad, m) \<in> set ms \<Longrightarrow> msg_wf m \<and> msg_type m \<in> set receivable) \<Longrightarrow>
    map_option snd (recv_seq buffer (map (\<lambda>(pad, m). to_bytes pad m) ms)) = Some (map (Inr \<circ> snd) ms)"
proof (induction ms arbitrary: buffer)
  case (Cons a ms)
  obtain pad m where a: "a = (pad, m)" by force
  have m: "msg_wf m" "msg_type m \<in> set receivable" using Cons.prems [of pad m] by (auto simp: a)
  let ?b = "to_bytes pad m @ drop (msg_size (msg_type m)) buffer"
  have "map_option snd (recv_seq ?b (map (\<lambda>(pad, m). to_bytes pad m) ms)) = Some (map (Inr \<circ> snd) ms)"
    by (rule Cons.IH) (use Cons.prems in auto)
  then show ?case using m recv_to_bytes [OF m(1), of buffer pad] by (auto simp: a)
qed simp

text \<open>
  C29: A message that is sent is received as it was: whatever the padding and whatever an earlier
  message left in the receive buffer, reception returns the message for the six types it knows, and
  for every other message type (an acknowledgement, the child pid, a socket event, a log chunk) it
  panics.
\<close>

theorem recv_message_correct:
  assumes "msg_wf m"
  shows "recv_message buffer (Some (to_bytes pad m)) =
    (if msg_type m \<in> set receivable
     then Some (to_bytes pad m @ drop (msg_size (msg_type m)) buffer, Inr m) else None)"
  by (rule recv_to_bytes [OF assms])

theorem recv_message_correct_witness:
  "recv_message [9, 9, 9, 9, 9, 9, 9, 9, 9, 9] (Some (to_bytes (\<lambda>_. 0xcc) (RunMessage 1000))) =
     Some ([2, 0xcc, 0xcc, 0xcc, 0xe8, 3, 0, 0, 9, 9], Inr (RunMessage 1000))"
proof -
  have "to_bytes (\<lambda>_. 0xcc) (RunMessage 1000) = [2, 0xcc, 0xcc, 0xcc, 0xe8, 3, 0, 0]" by code_simp
  with recv_message_correct [of "RunMessage 1000" "[9, 9, 9, 9, 9, 9, 9, 9, 9, 9]" "\<lambda>_. 0xcc"]
  show ?thesis by (simp add: receivable_def)
qed

text \<open>
  C30: Parsing accepts exactly the byte sequences of the expected type: what it returns has that type
  and, written with the padding of the input, is the start of the input; a short buffer, an unknown
  id, another id or an unknown stream type are errors.
\<close>

theorem try_from_bytes_sound:
  "case try_from_bytes ty bs of
      Some (Inr m) \<Rightarrow> msg_type m = ty \<and> is_instance_of ty bs \<and> to_bytes ((!) bs) m = take (msg_size ty) bs
    | Some (Inl e) \<Rightarrow> e = BufferTooSmall \<and> length bs < msg_size ty \<or> e = InvalidHeader \<and> mt_try_from (bs ! 0) = None \<or>
        e = UnexpectedId \<and> bs ! 0 \<noteq> mt_u8 ty \<or> e = InvalidStreamType \<and> ty = MT_AuxStreamMessage \<and> bs ! 1 \<noteq> ast_u8 AST_LogRecord
    | None \<Rightarrow> ty = MsgIdInvalid \<or> ty = MsgIdTerminated \<and> bs ! 8 \<noteq> 0 \<and> bs ! 8 \<noteq> 1"
proof (cases "length bs < msg_size ty \<or> bs ! 0 \<noteq> mt_u8 ty")
  case True
  then show ?thesis
    by (auto simp: try_from_bytes_def mt_try_from_Some split: option.splits)
next
  case False
  then have b: "msg_size ty \<le> length bs" "bs ! 0 = mt_u8 ty" by simp_all
  show ?thesis
  proof (cases "ty = MT_AuxStreamMessage \<and> ast_try_from (bs ! 1) = None")
    case True
    moreover have "mt_try_from (bs ! 0) = Some ty" by (simp only: b mt_try_from_u8)
    moreover have "ast_try_from (bs ! 1) = None \<Longrightarrow> bs ! 1 \<noteq> ast_u8 AST_LogRecord"
      by (auto simp: ast_try_from_def)
    ultimately show ?thesis using b by (simp add: try_from_bytes_def)
  next
    case na: False
    then have t: "try_from_bytes ty bs = map_option Inr (read_msg ty bs)"
      using b by (auto simp: try_from_bytes_def)
    show ?thesis
    proof (cases "read_msg ty bs")
      case None
      with na have "ty = MsgIdInvalid \<or> ty = MsgIdTerminated \<and> bs ! 8 \<noteq> 0 \<and> bs ! 8 \<noteq> 1"
        by (cases ty) (auto simp: read_msg_def split: if_splits)
      then show ?thesis using None t by simp
    next
      case (Some m)
      with read_msg_bytes [OF Some b] t b show ?thesis by (simp add: is_instance_of_def)
    qed
  qed
qed

text \<open>
  The channel is first-in first-out and lossless: receiving returns exactly the messages whose
  sending was accepted, unchanged and in the order they were sent, for any padding and whatever the
  buffer held.
\<close>

theorem channel_fifo:
  assumes "\<And>pad acc m. (pad, acc, m) \<in> set ms \<Longrightarrow> msg_wf m \<and> msg_type m \<in> set receivable"
  shows "map_option snd (recv_seq buffer (send_seq ms [])) =
    Some (map (\<lambda>(_, _, m). Inr m) (filter (\<lambda>(_, accepted, _). accepted) ms))"
proof -
  let ?ms = "map (\<lambda>(pad, _, m). (pad, m)) (filter (\<lambda>(_, accepted, _). accepted) ms)"
  have "send_seq ms [] = map (\<lambda>(pad, m). to_bytes pad m) ?ms"
    by (simp add: send_seq_queue o_def case_prod_beta)
  moreover have "map_option snd (recv_seq buffer (map (\<lambda>(pad, m). to_bytes pad m) ?ms)) = Some (map (Inr \<circ> snd) ?ms)"
    by (rule recv_seq_bytes) (use assms in auto)
  moreover have "(map (Inr \<circ> snd) ?ms :: (msg_error + message) list) = map (\<lambda>(_, _, m). Inr m) (filter (\<lambda>(_, accepted, _). accepted) ms)"
    by (auto simp: o_def)
  ultimately show ?thesis by (simp only:)
qed

theorem channel_fifo_witness:
  "map_option snd (recv_seq [] (send_seq [(\<lambda>_. 0, True, hello_new 7), (\<lambda>_. 1, False, run_default),
       (\<lambda>_. 2, True, trace_point_stat_new 3 4 (Some 5))] [])) =
     Some [Inr (HelloMessage 7), Inr (TracePointStat 3 4 (Some 5))]"
  by (subst channel_fifo)
    (auto simp: hello_new_def run_default_def trace_point_stat_new_def receivable_def)

end
