(* ===== verification/Tracing.thy ===== *)
theory Tracing
  imports Messages "HOL-Library.Option_ord"
begin

text \<open>
  Execution tracing: the map in shared memory in which the traced child counts the executions of
  mutation sites (\<^verbatim>\<open>generator/agent/src/tracing.rs\<close>), the report the agent sends after the run
  (\<^verbatim>\<open>postprocess_trace_map\<close> of \<^verbatim>\<open>generator/agent/src/agent.rs\<close>) and the trace the fuzzer makes of it
  (\<^verbatim>\<open>scheduler/src/trace.rs\<close>).
\<close>

section \<open>The trace map\<close>

record 'a trace_entry =
  te_value :: 'a
  te_hits :: u64
  te_order :: "u64 option"

definition te_new :: "'a \<Rightarrow> 'a trace_entry" where
  "te_new v = \<lparr>te_value = v, te_hits = 0, te_order = None\<rparr>"

text \<open>The allocated slots are a hash set, here the list of its elements without repetition.\<close>

record 'a trace_map =
  tm_data :: "'a trace_entry list option"
  tm_len_bytes :: "nat option"
  tm_slots :: "'a list"
  tm_total_hits :: u64

definition tm_new :: "'a trace_map" where
  "tm_new = \<lparr>tm_data = None, tm_len_bytes = None, tm_slots = [], tm_total_hits = 0\<rparr>"

definition alloc_slot :: "'a \<Rightarrow> 'a trace_map \<Rightarrow> 'a trace_map" where
  "alloc_slot i tm = tm\<lparr>tm_slots := List.insert i (tm_slots tm)\<rparr>"

text \<open>\<open>esz\<close> is the size of an entry, \<open>mapped\<close> whether \<^verbatim>\<open>mmap\<close> succeeds.\<close>

definition finalize :: "nat \<Rightarrow> bool \<Rightarrow> 'a::linorder trace_map \<Rightarrow> 'a trace_map option" where
  "finalize esz mapped tm = (if tm_slots tm = [] then Some tm else do {
     require mapped;
     let len = length (tm_slots tm) * esz;
     let mem = map te_new (sort (tm_slots tm));
     require (tm_data tm = None);
     Some (tm\<lparr>tm_slots := [], tm_data := Some mem, tm_len_bytes := Some len\<rparr>) })"

definition hit_map :: "'a trace_map \<Rightarrow> 'a trace_entry list option" where
  "hit_map tm = tm_data tm"

text \<open>\<^verbatim>\<open>slice::binary_search_by\<close> between \<open>lo\<close> and \<open>hi\<close>.\<close>

function bsearch :: "'a::linorder list \<Rightarrow> 'a \<Rightarrow> nat \<Rightarrow> nat \<Rightarrow> nat option" where
  "bsearch xs v lo hi = (if lo < hi then
     let mid = lo + (hi - lo) div 2 in
     if xs ! mid = v then Some mid
     else if xs ! mid < v then bsearch xs v (mid + 1) hi
     else bsearch xs v lo mid
   else None)"
  by pat_completeness auto
termination
  by (relation "measure (\<lambda>(xs, v, lo, hi). hi - lo)") auto

declare bsearch.simps [simp del]

definition bump :: "u64 \<Rightarrow> 'a trace_entry \<Rightarrow> 'a trace_entry" where
  "bump hits entry =
     (let entry = (if te_order entry = None then entry\<lparr>te_order := nonzero_opt hits\<rparr> else entry)
      in entry\<lparr>te_hits := te_hits entry + 1\<rparr>)"

definition report_hit :: "bool \<Rightarrow> 'a::linorder \<Rightarrow> 'a trace_map \<Rightarrow> 'a trace_map option" where
  "report_hit is_child i tm = (if \<not> is_child then Some tm else do {
     data \<leftarrow> tm_data tm;
     idx \<leftarrow> bsearch (map te_value data) i 0 (length data);
     let hits = tm_total_hits tm + 1;
     Some (tm\<lparr>tm_total_hits := hits, tm_data := Some (data[idx := bump hits (data ! idx)])\<rparr>) })"

text \<open>\<open>unmapped\<close> is whether \<^verbatim>\<open>munmap\<close> succeeds.\<close>

definition tm_reset :: "bool \<Rightarrow> 'a trace_map \<Rightarrow> 'a trace_map option" where
  "tm_reset unmapped tm = do {
     require (tm_data tm \<noteq> None \<longrightarrow> unmapped);
     Some \<lparr>tm_data = None, tm_len_bytes = None, tm_slots = [], tm_total_hits = 0\<rparr> }"

definition reset_hits :: "'a trace_map \<Rightarrow> 'a trace_map" where
  "reset_hits tm = tm\<lparr>tm_data := map_option (map (\<lambda>e. e\<lparr>te_hits := 0, te_order := None\<rparr>)) (tm_data tm)\<rparr>"

text \<open>A run of the child: the sequence of sites it executes.\<close>

fun report_hits :: "bool \<Rightarrow> 'a::linorder list \<Rightarrow> 'a trace_map \<Rightarrow> 'a trace_map option" where
  "report_hits is_child [] tm = Some tm"
| "report_hits is_child (i # is) tm = do { tm' \<leftarrow> report_hit is_child i tm; report_hits is_child is tm' }"

section \<open>The report of the agent\<close>

text \<open>
  The messages sent for the entries with hits, and the map afterwards; \<open>accepted\<close> is whether the
  channel accepts what is sent, a failure to send panics.
\<close>

definition postprocess_trace_map :: "bool \<Rightarrow> u64 trace_map \<Rightarrow> (message list \<times> u64 trace_map) option" where
  "postprocess_trace_map accepted tm = do {
     let msgs = (case hit_map tm of None \<Rightarrow> []
       | Some es \<Rightarrow> map (\<lambda>e. trace_point_stat_new (te_value e) (te_hits e) (te_order e)) (filter (\<lambda>e. te_hits e > 0) es));
     require (msgs \<noteq> [] \<longrightarrow> accepted);
     Some (msgs, reset_hits tm) }"

section \<open>The trace of the fuzzer\<close>

definition TRACE_EXEC_CNT_LIMIT :: nat where
  "TRACE_EXEC_CNT_LIMIT = 16384"

record trace =
  exec_cnt :: "u64 \<rightharpoonup> u64"
  exec_order_map :: "u64 \<rightharpoonup> u64"

definition trace_step :: "trace \<Rightarrow> u64 \<times> u64 \<times> u64 option \<Rightarrow> trace" where
  "trace_step t e = (case e of (i, cnt, idx) \<Rightarrow>
     if unat cnt > TRACE_EXEC_CNT_LIMIT then t
     else case idx of None \<Rightarrow> t
       | Some n \<Rightarrow> t\<lparr>exec_cnt := (exec_cnt t)(i \<mapsto> cnt), exec_order_map := (exec_order_map t)(i \<mapsto> n)\<rparr>)"

definition from_trace_point_stats :: "(u64 \<times> u64 \<times> u64 option) list \<Rightarrow> trace" where
  "from_trace_point_stats msgs = foldl trace_step \<lparr>exec_cnt = Map.empty, exec_order_map = Map.empty\<rparr> msgs"

definition covered :: "trace \<Rightarrow> u64 set" where
  "covered t = dom (exec_cnt t)"

definition is_covered :: "trace \<Rightarrow> u64 \<Rightarrow> bool" where
  "is_covered t pp \<longleftrightarrow> exec_cnt t pp \<noteq> None"

definition exec_order :: "trace \<Rightarrow> u64 \<Rightarrow> u64 option" where
  "exec_order t pp = exec_order_map t pp"

text \<open>\<open>iter\<close> is the order in which the hash set of the covered sites is iterated.\<close>

definition covered_exec_ordered :: "u64 list \<Rightarrow> trace \<Rightarrow> u64 list" where
  "covered_exec_ordered iter t = sort_key (exec_order t) iter"

definition trace_len :: "trace \<Rightarrow> nat" where
  "trace_len t = card (dom (exec_cnt t))"

definition trace_is_empty :: "trace \<Rightarrow> bool" where
  "trace_is_empty t \<longleftrightarrow> trace_len t = 0"

text \<open>The statistics among the messages the fuzzer receives after a run.\<close>

fun stats_of :: "message list \<Rightarrow> (u64 \<times> u64 \<times> u64 option) list" where
  "stats_of [] = []"
| "stats_of (TracePointStat i cnt idx # ms) = (i, cnt, idx) # stats_of ms"
| "stats_of (_ # ms) = stats_of ms"

section \<open>Binary search\<close>

lemma bsearch_step:
  assumes "lo < hi"
  defines "mid \<equiv> lo + (hi - lo) div 2"
  shows "xs ! mid = v \<Longrightarrow> bsearch xs v lo hi = Some mid"
    "xs ! mid < v \<Longrightarrow> bsearch xs v lo hi = bsearch xs v (mid + 1) hi"
    "v < xs ! mid \<Longrightarrow> bsearch xs v lo hi = bsearch xs v lo mid"
  using assms(1) unfolding mid_def by (subst bsearch.simps; auto simp: Let_def)+

lemma bsearch_Some:
  "bsearch xs v lo hi = Some i \<Longrightarrow> lo \<le> i \<and> i < hi \<and> xs ! i = v"
proof (induction xs v lo hi rule: bsearch.induct)
  case (1 xs v lo hi)
  let ?mid = "lo + (hi - lo) div 2"
  have lt: "lo < hi" using 1(3) by (auto simp: bsearch.simps [of xs v lo hi] split: if_splits)
  have m: "lo \<le> ?mid" "?mid < hi" using lt by auto
  consider "xs ! ?mid = v" | "xs ! ?mid < v" | "v < xs ! ?mid" by fastforce
  then show ?case
  proof cases
    case 1
    with bsearch_step(1) [OF lt 1] m \<open>bsearch xs v lo hi = Some i\<close> show ?thesis by simp
  next
    case 2
    then have "bsearch xs v (?mid + 1) hi = Some i"
      using bsearch_step(2) [OF lt 2] \<open>bsearch xs v lo hi = Some i\<close> by simp
    then have "?mid + 1 \<le> i \<and> i < hi \<and> xs ! i = v" by (intro 1(1) [OF lt refl]) (use 2 in auto)
    then show ?thesis by linarith
  next
    case 3
    then have "bsearch xs v lo ?mid = Some i"
      using bsearch_step(3) [OF lt 3] \<open>bsearch xs v lo hi = Some i\<close> by simp
    then have "lo \<le> i \<and> i < ?mid \<and> xs ! i = v" by (intro 1(2) [OF lt refl]) (use 3 in auto)
    then show ?thesis using m by linarith
  qed
qed

lemma bsearch_finds:
  "sorted xs \<Longrightarrow> hi \<le> length xs \<Longrightarrow> lo \<le> k \<Longrightarrow> k < hi \<Longrightarrow> xs ! k = v \<Longrightarrow> bsearch xs v lo hi \<noteq> None"
proof (induction xs v lo hi rule: bsearch.induct)
  case (1 xs v lo hi)
  let ?mid = "lo + (hi - lo) div 2"
  have lt: "lo < hi" using 1(5,6) by simp
  have m: "lo \<le> ?mid" "?mid < hi" using lt by auto
  consider "xs ! ?mid = v" | "xs ! ?mid < v" | "v < xs ! ?mid" by fastforce
  then show ?case
  proof cases
    case 1
    then show ?thesis using bsearch_step(1) [OF lt 1] by simp
  next
    case 2
    have "?mid < k"
    proof (rule ccontr)
      assume "\<not> ?mid < k"
      then have "xs ! k \<le> xs ! ?mid" using 1(3,4) m by (intro sorted_nth_mono) auto
      with 2 1(7) show False by simp
    qed
    then have "bsearch xs v (?mid + 1) hi \<noteq> None" using 1(1) [OF lt refl] 2 1(3-7) by auto
    then show ?thesis using bsearch_step(2) [OF lt 2] by simp
  next
    case 3
    have "k < ?mid"
    proof (rule ccontr)
      assume "\<not> k < ?mid"
      then have "xs ! ?mid \<le> xs ! k" using 1(3,4,6) by (intro sorted_nth_mono) auto
      with 3 1(7) show False by simp
    qed
    then have "bsearch xs v lo ?mid \<noteq> None" using 1(2) [OF lt refl] 3 1(3-7) m by auto
    then show ?thesis using bsearch_step(3) [OF lt 3] by simp
  qed
qed

lemma bsearch_sorted:
  assumes "sorted xs" "distinct xs" "k < length xs"
  shows "bsearch xs (xs ! k) 0 (length xs) = Some k"
proof -
  obtain i where "bsearch xs (xs ! k) 0 (length xs) = Some i"
    using bsearch_finds [OF assms(1) order_refl, of 0 k] assms(3) by auto
  moreover from bsearch_Some [OF this] have "i < length xs" "xs ! i = xs ! k" by simp_all
  ultimately show ?thesis using assms(2,3) nth_eq_iff_index_eq [of xs i k] by simp
qed

section \<open>What a run records\<close>

definition first_idx :: "'a list \<Rightarrow> 'a \<Rightarrow> nat" where
  "first_idx is v = length (takeWhile (\<lambda>y. y \<noteq> v) is)"

lemma first_idx_snoc:
  "v \<in> set is \<Longrightarrow> first_idx (is @ [x]) v = first_idx is v"
  "x \<notin> set is \<Longrightarrow> first_idx (is @ [x]) x = length is"
  by (auto simp: first_idx_def takeWhile_append takeWhile_eq_all_conv)

lemma first_idx_less: "v \<in> set is \<Longrightarrow> first_idx is v < length is \<and> is ! first_idx is v = v"
  unfolding first_idx_def
  by (induction "is") auto

text \<open>The entry of \<open>v\<close> after the sites \<open>is\<close> were executed.\<close>

definition entry_after :: "'a list \<Rightarrow> 'a \<Rightarrow> 'a trace_entry" where
  "entry_after is v = \<lparr>te_value = v, te_hits = of_nat (count_list is v),
     te_order = (if v \<in> set is then Some (of_nat (first_idx is v + 1)) else None)\<rparr>"

lemma te_value_after [simp]: "te_value (entry_after is v) = v"
  by (simp add: entry_after_def)

lemma count_list_snoc: "count_list (is @ [x]) v = count_list is v + (if x = v then 1 else 0)"
  by simp

lemma of_nat_u64_pos: "0 < n \<Longrightarrow> n < 2 ^ 64 \<Longrightarrow> of_nat n \<noteq> (0 :: u64)"
  by (simp add: word_unat_eq_iff unat_of_nat)

lemma entry_after_other: "x \<noteq> v \<Longrightarrow> entry_after (is @ [x]) v = entry_after is v"
  by (auto simp: entry_after_def first_idx_snoc)

lemma entry_after_hit:
  assumes "length is + 1 < 2 ^ 64"
  shows "bump (of_nat (length is) + 1) (entry_after is x) = entry_after (is @ [x]) x"
proof (cases "x \<in> set is")
  case True
  then show ?thesis by (simp add: bump_def entry_after_def first_idx_snoc)
next
  case False
  have "of_nat (length is + 1) \<noteq> (0 :: u64)" by (rule of_nat_u64_pos) (use assms in auto)
  then have "nonzero_opt (of_nat (length is) + 1) = Some (of_nat (length is + 1))"
    by (simp add: nonzero_opt_def add.commute)
  with False show ?thesis by (simp add: bump_def entry_after_def first_idx_snoc add.commute)
qed

lemma report_hits_snoc:
  "report_hits c (is @ [i]) tm = Option.bind (report_hits c is tm) (report_hit c i)"
proof (induction "is" arbitrary: tm)
  case Nil
  then show ?case by (cases "report_hit c i tm") simp_all
next
  case (Cons a "is")
  then show ?case by (cases "report_hit c a tm") simp_all
qed

lemma report_hits_data:
  assumes vs: "sorted vs" "distinct vs"
  shows "set is \<subseteq> set vs \<Longrightarrow> length is < 2 ^ 64 \<Longrightarrow> tm_data tm = Some (map te_new vs) \<Longrightarrow>
    tm_total_hits tm = 0 \<Longrightarrow>
    report_hits True is tm = Some (tm\<lparr>tm_data := Some (map (entry_after is) vs), tm_total_hits := of_nat (length is)\<rparr>)"
proof (induction "is" rule: rev_induct)
  case Nil
  have "map te_new vs = map (entry_after []) vs" by (simp add: te_new_def entry_after_def)
  with Nil show ?case by simp
next
  case (snoc x "is")
  let ?d = "map (entry_after is) vs"
  let ?tm = "tm\<lparr>tm_data := Some ?d, tm_total_hits := of_nat (length is)\<rparr>"
  have ih: "report_hits True is tm = Some ?tm" by (rule snoc.IH) (use snoc.prems in auto)
  obtain k where k: "k < length vs" "vs ! k = x" using snoc.prems(1) by (auto simp: in_set_conv_nth)
  have bs: "bsearch (map te_value ?d) x 0 (length ?d) = Some k"
    using bsearch_sorted [OF vs k(1)] k(2) by (simp add: o_def)
  have upd: "?d[k := entry_after (is @ [x]) x] = map (entry_after (is @ [x])) vs"
  proof (rule nth_equalityI)
    fix j assume "j < length (?d[k := entry_after (is @ [x]) x])"
    then have j: "j < length vs" by simp
    show "?d[k := entry_after (is @ [x]) x] ! j = map (entry_after (is @ [x])) vs ! j"
    proof (cases "j = k")
      case False
      then have "x \<noteq> vs ! j" using vs(2) j k nth_eq_iff_index_eq by metis
      with j False show ?thesis by (simp add: entry_after_other)
    qed (use k in simp)
  qed simp
  have "report_hit True x ?tm = Some (?tm\<lparr>tm_total_hits := of_nat (length is) + 1,
      tm_data := Some (?d[k := entry_after (is @ [x]) x])\<rparr>)"
    using bs k entry_after_hit [of "is" x] snoc.prems(2) by (simp add: report_hit_def)
  with ih upd show ?case by (simp add: report_hits_snoc add.commute)
qed

section \<open>The trace of a run\<close>

lemma trace_step_maps:
  "exec_cnt (trace_step t (i, cnt, idx)) = (if unat cnt \<le> TRACE_EXEC_CNT_LIMIT \<and> idx \<noteq> None then (exec_cnt t)(i \<mapsto> cnt) else exec_cnt t)"
  "exec_order_map (trace_step t (i, cnt, idx)) = (if unat cnt \<le> TRACE_EXEC_CNT_LIMIT \<and> idx \<noteq> None then (exec_order_map t)(i \<mapsto> the idx) else exec_order_map t)"
  by (auto simp: trace_step_def split: option.splits)

text \<open>The statistics of distinct sites give each of them its own count and order.\<close>

lemma foldl_trace_step:
  assumes "distinct vs" "\<And>v. v \<in> set vs \<Longrightarrow> o1 v \<noteq> None"
  shows "exec_cnt (foldl trace_step t (map (\<lambda>v. (v, c v, o1 v)) vs)) =
      (\<lambda>v. if v \<in> set vs \<and> unat (c v) \<le> TRACE_EXEC_CNT_LIMIT then Some (c v) else exec_cnt t v) \<and>
    exec_order_map (foldl trace_step t (map (\<lambda>v. (v, c v, o1 v)) vs)) =
      (\<lambda>v. if v \<in> set vs \<and> unat (c v) \<le> TRACE_EXEC_CNT_LIMIT then o1 v else exec_order_map t v)"
  using assms
proof (induction vs arbitrary: t)
  case (Cons v vs)
  let ?t = "trace_step t (v, c v, o1 v)"
  have ih: "exec_cnt (foldl trace_step ?t (map (\<lambda>v. (v, c v, o1 v)) vs)) =
      (\<lambda>v. if v \<in> set vs \<and> unat (c v) \<le> TRACE_EXEC_CNT_LIMIT then Some (c v) else exec_cnt ?t v)"
    "exec_order_map (foldl trace_step ?t (map (\<lambda>v. (v, c v, o1 v)) vs)) =
      (\<lambda>v. if v \<in> set vs \<and> unat (c v) \<le> TRACE_EXEC_CNT_LIMIT then o1 v else exec_order_map ?t v)"
    using Cons.IH [of ?t] Cons.prems by auto
  have "o1 v \<noteq> None" "v \<notin> set vs" using Cons.prems by auto
  then show ?case using ih by (auto simp: trace_step_maps fun_eq_iff)
qed simp

text \<open>The sites of a run in the order of their first execution.\<close>

definition discovered :: "'a list \<Rightarrow> 'a list" where
  "discovered is = rev (remdups (rev is))"

lemma discovered_snoc: "discovered (is @ [x]) = (if x \<in> set is then discovered is else discovered is @ [x])"
  by (simp add: discovered_def)

lemma set_discovered [simp]: "set (discovered is) = set is"
  by (simp add: discovered_def)

lemma distinct_discovered [simp]: "distinct (discovered is)"
  by (simp add: discovered_def)

lemma sorted_first_idx: "sorted_wrt (\<lambda>x y. first_idx is x < first_idx is y) (discovered is)"
proof (induction "is" rule: rev_induct)
  case Nil
  then show ?case by (simp add: discovered_def)
next
  case (snoc x "is")
  have s: "sorted_wrt (\<lambda>a b. first_idx (is @ [x]) a < first_idx (is @ [x]) b) (discovered is)"
    by (rule sorted_wrt_mono_rel [OF _ snoc]) (simp add: first_idx_snoc)
  show ?case
  proof (cases "x \<in> set is")
    case False
    have "first_idx (is @ [x]) a < first_idx (is @ [x]) x" if "a \<in> set is" for a
      using that False first_idx_less [OF that] by (simp add: first_idx_snoc)
    with s False show ?thesis by (simp add: discovered_snoc sorted_wrt_append)
  qed (use s in \<open>simp add: discovered_snoc\<close>)
qed

lemma sort_key_unique:
  fixes f :: "'a \<Rightarrow> 'b::linorder"
  assumes "sorted_wrt (\<lambda>x y. f x < f y) ys" "distinct xs" "set xs = set ys"
  shows "sort_key f xs = ys"
proof -
  have sm: "sorted (map f ys)" "distinct (map f ys)"
    using assms(1) by (induction ys) (auto simp: less_imp_le)
  have inj: "inj_on f (set ys)" using sm(2) by (simp add: distinct_map)
  have "distinct (map f (sort_key f xs))"
    using assms(2,3) inj by (simp add: distinct_map)
  then show ?thesis
    using sm assms(3) inj by (intro map_sorted_distinct_set_unique [of f]) auto
qed

lemma stats_of_map: "stats_of (map (\<lambda>e. trace_point_stat_new (f e) (g e) (h e)) es) = map (\<lambda>e. (f e, g e, h e)) es"
  by (induction es) (simp_all add: trace_point_stat_new_def)

lemma finalize_ok:
  assumes "tm_slots tm \<noteq> []" "tm_data tm = None"
  shows "finalize esz True tm = Some (tm\<lparr>tm_slots := [], tm_data := Some (map te_new (sort (tm_slots tm))),
    tm_len_bytes := Some (length (tm_slots tm) * esz)\<rparr>)"
  using assms by (simp add: finalize_def Let_def)

lemma count_list_less: "length is < 2 ^ 64 \<Longrightarrow> unat (of_nat (count_list is v) :: u64) = count_list is v"
  using count_le_length [of "is" v] by (simp add: unat_of_nat)

lemma entry_after_hits_pos: "length is < 2 ^ 64 \<Longrightarrow> te_hits (entry_after is v) > 0 \<longleftrightarrow> v \<in> set is"
  using count_list_less [of "is" v] count_list_0_iff [of "is" v]
  by (simp add: entry_after_def word_gt_0 word_unat_eq_iff del: count_list_0_iff)

lemma run_stats:
  assumes "length is < 2 ^ 64"
  shows "stats_of (map (\<lambda>e. trace_point_stat_new (te_value e) (te_hits e) (te_order e))
      (filter (\<lambda>e. te_hits e > 0) (map (entry_after is) vs))) =
    map (\<lambda>v. (v, of_nat (count_list is v), Some (of_nat (first_idx is v + 1)))) (filter (\<lambda>v. v \<in> set is) vs)"
proof -
  have "filter (\<lambda>e. te_hits e > 0) (map (entry_after is) vs) = map (entry_after is) (filter (\<lambda>v. v \<in> set is) vs)"
    by (simp add: filter_map o_def entry_after_hits_pos [OF assms])
  moreover have "map (\<lambda>e. trace_point_stat_new (te_value e) (te_hits e) (te_order e)) (map (entry_after is) ws) =
      map (\<lambda>v. trace_point_stat_new v (of_nat (count_list is v)) (te_order (entry_after is v))) ws" for ws
    by (simp add: entry_after_def)
  ultimately show ?thesis by (simp only: stats_of_map) (simp add: entry_after_def)
qed

text \<open>The trace that the statistics of a run give.\<close>

lemma trace_of_stats:
  assumes "distinct vs" "set is \<subseteq> set vs" "length is < 2 ^ 64"
  defines "t \<equiv> from_trace_point_stats
      (map (\<lambda>v. (v, of_nat (count_list is v), Some (of_nat (first_idx is v + 1)))) (filter (\<lambda>v. v \<in> set is) vs))"
  shows "exec_cnt t v = (if v \<in> set is \<and> count_list is v \<le> TRACE_EXEC_CNT_LIMIT then Some (of_nat (count_list is v)) else None)"
    "exec_order t v = (if v \<in> set is \<and> count_list is v \<le> TRACE_EXEC_CNT_LIMIT then Some (of_nat (first_idx is v + 1)) else None)"
proof -
  have d: "distinct (filter (\<lambda>v. v \<in> set is) vs)" using assms(1) by simp
  have s: "set (filter (\<lambda>v. v \<in> set is) vs) = set is" using assms(2) by auto
  note f = foldl_trace_step [OF d, of "\<lambda>v. Some (of_nat (first_idx is v + 1))"
      "\<lparr>exec_cnt = Map.empty, exec_order_map = Map.empty\<rparr>" "\<lambda>v. of_nat (count_list is v)",
      unfolded s count_list_less [OF assms(3)]]
  show "exec_cnt t v = (if v \<in> set is \<and> count_list is v \<le> TRACE_EXEC_CNT_LIMIT then Some (of_nat (count_list is v)) else None)"
    using f by (simp add: t_def from_trace_point_stats_def)
  show "exec_order t v = (if v \<in> set is \<and> count_list is v \<le> TRACE_EXEC_CNT_LIMIT then Some (of_nat (first_idx is v + 1)) else None)"
    using f by (simp add: t_def from_trace_point_stats_def exec_order_def)
qed

lemma sort_by_order:
  assumes t: "\<And>v. v \<in> set is \<Longrightarrow> P v \<Longrightarrow> exec_order t v = Some (of_nat (first_idx is v + 1))"
    and l: "length is < 2 ^ 64 - 1" and it: "distinct iter" "set iter = {v \<in> set is. P v}"
  shows "covered_exec_ordered iter t = filter P (discovered is)"
  unfolding covered_exec_ordered_def
proof (rule sort_key_unique [OF _ it(1)])
  have mono: "exec_order t x < exec_order t y"
    if "x \<in> set is" "y \<in> set is" "P x" "P y" "first_idx is x < first_idx is y" for x y
  proof -
    have "first_idx is y + 1 < 2 ^ 64" using first_idx_less [OF that(2)] l by simp
    then have "(of_nat (first_idx is x + 1) :: u64) < of_nat (first_idx is y + 1)"
      using that(5) by (simp add: word_less_nat_alt unat_of_nat del: of_nat_add of_nat_Suc)
    then show ?thesis using t that by simp
  qed
  have "sorted_wrt (\<lambda>x y. first_idx is x < first_idx is y) (filter P (discovered is))"
    by (rule sorted_wrt_filter [OF sorted_first_idx])
  then show "sorted_wrt (\<lambda>x y. exec_order t x < exec_order t y) (filter P (discovered is))"
    by (rule sorted_wrt_mono_rel [rotated]) (use mono in auto)
  show "set iter = set (filter P (discovered is))" using it(2) by simp
qed

section \<open>Properties\<close>

text \<open>
  C4: Tracing is exact from the child to the fuzzer. When the slots of the trace map contain all
  sites, a run that executes the sites \<open>is\<close> never panics, and the trace the fuzzer builds from the
  agent's report maps each executed site to its number of executions, unless that is above the
  limit, and lists the sites in the order of their first execution; the counters of the map are then
  as \<open>finalize\<close> left them.
\<close>

theorem trace_of_run:
  assumes "tm_slots tm \<noteq> []" "distinct (tm_slots tm)" "tm_data tm = None" "tm_total_hits tm = 0"
    and "set is \<subseteq> set (tm_slots tm)" "length is < 2 ^ 64 - 1"
    and "distinct iter" "set iter = {v \<in> set is. count_list is v \<le> TRACE_EXEC_CNT_LIMIT}"
  shows "\<exists>tm1 tm2 msgs. finalize esz True tm = Some tm1 \<and> report_hits True is tm1 = Some tm2 \<and>
    postprocess_trace_map True tm2 = Some (msgs, tm1\<lparr>tm_total_hits := of_nat (length is)\<rparr>) \<and>
    (let t = from_trace_point_stats (stats_of msgs) in
     covered t = set iter \<and>
     (\<forall>v\<in>set iter. exec_cnt t v = Some (of_nat (count_list is v))) \<and>
     covered_exec_ordered iter t = filter (\<lambda>v. count_list is v \<le> TRACE_EXEC_CNT_LIMIT) (discovered is))"
proof -
  let ?vs = "sort (tm_slots tm)"
  have l: "length is < 2 ^ 64" using assms(6) by simp
  define tm1 where "tm1 = tm\<lparr>tm_slots := [], tm_data := Some (map te_new ?vs),
    tm_len_bytes := Some (length (tm_slots tm) * esz)\<rparr>"
  have f: "finalize esz True tm = Some tm1" unfolding tm1_def by (rule finalize_ok [OF assms(1,3)])
  have r: "report_hits True is tm1 =
      Some (tm1\<lparr>tm_data := Some (map (entry_after is) ?vs), tm_total_hits := of_nat (length is)\<rparr>)"
    by (rule report_hits_data) (use assms(2,4,5) l in \<open>simp_all add: tm1_def\<close>)
  have vs: "distinct ?vs" "set is \<subseteq> set ?vs" using assms(2,5) by simp_all
  note tr = trace_of_stats [OF vs l]
  let ?tm2 = "tm1\<lparr>tm_data := Some (map (entry_after is) ?vs), tm_total_hits := of_nat (length is)\<rparr>"
  let ?msgs = "map (\<lambda>e. trace_point_stat_new (te_value e) (te_hits e) (te_order e))
      (filter (\<lambda>e. te_hits e > 0) (map (entry_after is) ?vs))"
  let ?t = "from_trace_point_stats (map (\<lambda>v. (v, of_nat (count_list is v), Some (of_nat (first_idx is v + 1))))
      (filter (\<lambda>v. v \<in> set is) ?vs))"
  have "covered ?t = set iter" unfolding covered_def dom_def tr(1) assms(8) by auto
  moreover have "\<forall>v\<in>set iter. exec_cnt ?t v = Some (of_nat (count_list is v))"
    unfolding tr(1) assms(8) by auto
  moreover have "covered_exec_ordered iter ?t = filter (\<lambda>v. count_list is v \<le> TRACE_EXEC_CNT_LIMIT) (discovered is)"
    by (rule sort_by_order [OF _ assms(6-8)]) (simp only: tr(2) if_True simp_thms)
  moreover have p: "postprocess_trace_map True ?tm2 = Some (?msgs, tm1\<lparr>tm_total_hits := of_nat (length is)\<rparr>)"
    by (simp add: postprocess_trace_map_def hit_map_def reset_hits_def tm1_def te_new_def entry_after_def Let_def)
  ultimately show ?thesis
    by - (intro exI conjI, rule f, rule r, rule p, simp only: Let_def simp_thms run_stats [OF l])
qed

text \<open>Sites 9, 4 and 6 have slots, and the run executes 6, 9, 6.\<close>

theorem trace_of_run_witness:
  "let tm = alloc_slot 9 (alloc_slot 4 (alloc_slot 6 tm_new)) in
   \<exists>tm1 tm2 msgs. finalize 24 True tm = Some tm1 \<and> report_hits True [6, 9, 6] tm1 = Some tm2 \<and>
     postprocess_trace_map True tm2 = Some (msgs, tm1\<lparr>tm_total_hits := 3\<rparr>) \<and>
     (let t = from_trace_point_stats (stats_of msgs) in
      covered t = {9, 6} \<and> exec_cnt t 9 = Some 1 \<and> exec_cnt t 6 = Some 2 \<and> covered_exec_ordered [9, 6] t = [6, 9])"
proof -
  let ?tm = "alloc_slot 9 (alloc_slot 4 (alloc_slot 6 tm_new)) :: u64 trace_map"
  have s: "tm_slots ?tm = [9, 4, 6]" "tm_data ?tm = None" "tm_total_hits ?tm = 0"
    by (simp_all add: alloc_slot_def tm_new_def)
  have i: "set [9, 6] = {v \<in> set [6, 9, 6 :: u64]. count_list [6, 9, 6] v \<le> TRACE_EXEC_CNT_LIMIT}"
    by (auto simp: TRACE_EXEC_CNT_LIMIT_def)
  have "filter (\<lambda>v. count_list [6, 9, 6] v \<le> TRACE_EXEC_CNT_LIMIT) (discovered [6, 9, 6 :: u64]) = [6, 9]"
    by (simp add: discovered_def TRACE_EXEC_CNT_LIMIT_def)
  then show ?thesis
    unfolding Let_def
    using trace_of_run [of ?tm "[6, 9, 6]" "[9, 6]" 24, OF _ _ s(2,3) _ _ _ i]
    by (simp add: s Let_def del: report_hits.simps)
qed

end
