(* ===== verification/Mutation_Cache_Ops.thy ===== *)
theory Mutation_Cache_Ops
  imports Mutation_Cache Mutation_Site Tracing
begin

text \<open>
  The operations of the fuzzer on mutation caches that depend on mutation sites and traces
  (\<^verbatim>\<open>scheduler/src/mutation_cache_ops.rs\<close>): building a cache from sites, dropping the entries a trace
  does not cover, and giving every covered entry a mask with one chunk per execution.
\<close>

section \<open>Operations\<close>

fun push_sites :: "layout \<Rightarrow> mutation_site list \<Rightarrow> mcache \<Rightarrow> mcache option" where
  "push_sites L [] m = Some m"
| "push_sites L (p # ps) m = do {
     e \<leftarrow> into_mutation_cache_entry L p;
     (pushed, m) \<leftarrow> mc_push L e m;
     require pushed;
     push_sites L ps m }"

definition from_patchpoints :: "layout \<Rightarrow> mutation_site list \<Rightarrow> mcache option" where
  "from_patchpoints L ps = do { ret \<leftarrow> mc_new L; push_sites L ps ret }"

definition remove_uncovered :: "layout \<Rightarrow> trace \<Rightarrow> mcache \<Rightarrow> mcache option" where
  "remove_uncovered L t m = retain L (\<lambda>_ e. (is_covered t (mce_id e), ())) () m"

text \<open>The first loop of \<^verbatim>\<open>resize_covered_entries\<close>, over the entries of the cache.\<close>

fun resized_entries :: "layout \<Rightarrow> trace \<Rightarrow> mce list \<Rightarrow> mce list option" where
  "resized_entries L t [] = Some []"
| "resized_entries L t (e # es) = (case exec_cnt t (mce_id e) of
      None \<Rightarrow> resized_entries L t es
    | Some v \<Rightarrow> do {
        c \<leftarrow> chunk_size_bytes e;
        e' \<leftarrow> clone_with_new_msk L e (ucast v * ucast c);
        es' \<leftarrow> resized_entries L t es;
        Some (e' # es') })"

definition resize_covered_entries :: "layout \<Rightarrow> trace \<Rightarrow> mcache \<Rightarrow> mcache option" where
  "resize_covered_entries L t m = do {
     rs \<leftarrow> resized_entries L t (mc_entries L m);
     m \<leftarrow> remove_ids (mc_remove L) (map mce_id rs) m;
     push_each (mc_push L) rs m }"

text \<open>The body of this operation is the same as that of the previous one.\<close>

definition resize_covered_entries_wo_msk :: "layout \<Rightarrow> trace \<Rightarrow> mcache \<Rightarrow> mcache option" where
  "resize_covered_entries_wo_msk L t m = do {
     rs \<leftarrow> resized_entries L t (mc_entries L m);
     m \<leftarrow> remove_ids (mc_remove L) (map mce_id rs) m;
     push_each (mc_push L) rs m }"

section \<open>Building a cache from sites\<close>

lemma push_sites_ok:
  "mc_inv L m \<Longrightarrow> mc_fits L (map (site_entry L) ps) m \<Longrightarrow>
   \<exists>m'. push_sites L ps m = Some m' \<and> mc_inv L m' \<and> mc_entries L m' = mc_entries L m @ map (site_entry L) ps"
proof (induction ps arbitrary: m)
  case (Cons p ps)
  have "mce_wf L (site_entry L p)" by (rule mce_exact_wf [OF site_entry_facts(5)])
  with Cons.prems obtain m1 where m1: "mc_push L (site_entry L p) m = Some (True, m1)" "mc_inv L m1"
    "mc_entries L m1 = mc_entries L m @ [trim L (site_entry L p)]" "mc_fits L (map (site_entry L) ps) m1"
    using mc.push_ok [of L m "site_entry L p" "map (site_entry L) ps"] by auto
  from Cons.IH [OF m1(2,4)] m1 show ?case
    by (auto simp: into_mutation_cache_entry_eq trim_id [OF site_entry_facts(5)])
qed simp

section \<open>Resizing\<close>

lemma chunk_size_bytes_eq:
  assumes "chunk_size_bytes e = Some c"
  shows "unat c = target_value_size_byte e"
proof -
  let ?b = "md_target_value_size_bits (mce_md e)"
  obtain w where w: "chunk_size_bits e = Some w" "c = (if w mod 8 > 0 then w div 8 + 1 else w div 8)"
    using assms by (auto simp: chunk_size_bytes_def split: bind_splits)
  have "try_u16 ?b = Some w" using w(1)
    by (auto simp: chunk_size_bits_def split: llvm_instruction.splits bind_splits if_splits)
  then have u: "unat w = unat ?b"
    by (auto simp: try_u16_def unsigned_ucast_eq take_bit_eq_mod split: if_splits)
  have b: "unat w < 2 ^ 16" using unsigned_less [of w, where 'a = nat] by simp
  have "unat (w div 8 + 1) = unat w div 8 + 1"
    using b by (simp add: unat_word_ariths)
  moreover have "w mod 8 > 0 \<longleftrightarrow> unat w mod 8 > 0" by (simp add: word_gt_0 word_unat_eq_iff unat_mod)
  ultimately have "unat c = (if unat w mod 8 > 0 then unat w div 8 + 1 else unat w div 8)"
    using w(2) by (simp add: unat_div)
  also have "\<dots> = (unat w + 7) div 8" by presburger
  finally show ?thesis by (simp add: target_value_size_byte_def div_ceil_def u)
qed

text \<open>
  What the code relies on for a covered entry: its instruction has chunks, and its value between one
  and eight bytes; the trace has the site between once and \<^verbatim>\<open>TRACE_EXEC_CNT_LIMIT\<close> times.
\<close>

definition resizable :: "trace \<Rightarrow> mce \<Rightarrow> bool" where
  "resizable t e \<longleftrightarrow> (case exec_cnt t (mce_id e) of None \<Rightarrow> True | Some v \<Rightarrow>
     chunk_size_bytes e \<noteq> None \<and> 0 < target_value_size_byte e \<and> target_value_size_byte e \<le> 8 \<and>
     0 < unat v \<and> unat v \<le> TRACE_EXEC_CNT_LIMIT)"

text \<open>\<open>e'\<close> is \<open>e\<close> with a mask of one chunk per execution.\<close>

definition resized :: "trace \<Rightarrow> mce \<Rightarrow> mce \<Rightarrow> bool" where
  "resized t e e' \<longleftrightarrow>
     (let n = unat (the (exec_cnt t (mce_id e))) * target_value_size_byte e in
      mce_md e' = (mce_md e)\<lparr>md_msk_len := of_nat n\<rparr> \<and> msk_len e' = n \<and>
      get_msk_as_slice e' = take n (get_msk_as_slice e @ replicate (n - msk_len e) 0))"

lemma resize_entry_ok:
  assumes "mce_wf L e" "resizable t e" "exec_cnt t (mce_id e) = Some v"
  shows "\<exists>c e'. chunk_size_bytes e = Some c \<and> clone_with_new_msk L e (ucast v * ucast c) = Some e' \<and>
    mce_wf L e' \<and> resized t e e'"
proof -
  obtain c where c: "chunk_size_bytes e = Some c" using assms(2,3) by (auto simp: resizable_def)
  let ?n = "unat v * target_value_size_byte e" and ?w = "ucast v * ucast c :: u32"
  have b: "0 < target_value_size_byte e" "target_value_size_byte e \<le> 8" "0 < unat v" "unat v \<le> 16384"
    using assms(2,3) by (simp_all add: resizable_def TRACE_EXEC_CNT_LIMIT_def)
  have n: "?n \<le> 16384 * 8" "0 < ?n" using b mult_le_mono [OF b(4,2)] by simp_all
  have "unat (ucast v :: u32) = unat v" "unat (ucast c :: u32) = target_value_size_byte e"
    using b chunk_size_bytes_eq [OF c] by (simp_all add: unsigned_ucast_eq take_bit_eq_mod)
  then have w: "unat ?w = ?n" using n by (simp add: unat_word_ariths)
  have w': "0 < ?w" "unat ?w \<le> MAX_MASK_LEN"
    using w n by (simp_all add: word_gt_0 word_unat_eq_iff MAX_MASK_LEN_def)
  have o: "of_nat ?n = ?w" unfolding w [symmetric] by simp
  obtain e' where e': "clone_with_new_msk L e ?w = Some e'" "mce_wf L e'"
    "mce_md e' = (mce_md e)\<lparr>md_msk_len := ?w\<rparr>"
    "get_msk_as_slice e' = take (unat ?w) (get_msk_as_slice e @ replicate (unat ?w - msk_len e) 0)"
    using clone_with_new_msk_ok [OF assms(1) w'(1,2) b(2)] by blast
  have "resized t e e'"
    using e'(3,4) assms(3) w by (simp add: resized_def Let_def msk_len_def o del: of_nat_mult)
  with c e'(1,2) show ?thesis by blast
qed

lemma resized_id: "resized t e e' \<Longrightarrow> mce_id e' = mce_id e"
  by (simp add: resized_def mce_id_def Let_def)

lemma resized_trim: "resized t e e' \<Longrightarrow> resized t e (trim L e')"
  by (simp add: resized_def trim_msk)

lemma resized_entries_ok:
  "\<forall>e\<in>set es. mce_wf L e \<and> resizable t e \<Longrightarrow>
   \<exists>rs. resized_entries L t es = Some rs \<and> (\<forall>e\<in>set rs. mce_wf L e) \<and>
     list_all2 (resized t) (filter (\<lambda>e. exec_cnt t (mce_id e) \<noteq> None) es) rs"
proof (induction es)
  case (Cons e es)
  then obtain rs where rs: "resized_entries L t es = Some rs" "\<forall>e\<in>set rs. mce_wf L e"
    "list_all2 (resized t) (filter (\<lambda>e. exec_cnt t (mce_id e) \<noteq> None) es) rs" by auto
  show ?case
  proof (cases "exec_cnt t (mce_id e)")
    case (Some v)
    then obtain c e' where "chunk_size_bytes e = Some c" "clone_with_new_msk L e (ucast v * ucast c) = Some e'"
      "mce_wf L e'" "resized t e e'"
      using resize_entry_ok [of L e t v] Cons.prems by auto
    with Some rs show ?thesis by simp
  qed (use rs in simp)
qed simp

lemma list_all2_ids: "list_all2 (resized t) es rs \<Longrightarrow> map mce_id rs = map mce_id es"
  by (induction rule: list_all2_induct) (simp_all add: resized_id)

lemma resize_covered_ok:
  assumes inv: "mc_inv L m" and ok: "\<forall>e\<in>set (mc_entries L m). resizable t e"
    and fits: "\<And>rs. resized_entries L t (mc_entries L m) = Some rs \<Longrightarrow> mc_fits L rs m"
  shows "\<exists>m' rs. resize_covered_entries L t m = Some m' \<and> mc_inv L m' \<and>
    mc_entries L m' = filter (\<lambda>e. exec_cnt t (mce_id e) = None) (mc_entries L m) @ rs \<and>
    list_all2 (resized t) (filter (\<lambda>e. exec_cnt t (mce_id e) \<noteq> None) (mc_entries L m)) rs"
proof -
  let ?es = "mc_entries L m" and ?Q = "\<lambda>i. exec_cnt t i \<noteq> None"
  have "\<forall>e\<in>set ?es. mce_wf L e" using mc.entries_exact [OF inv] mce_exact_wf by blast
  then obtain rs where rs: "resized_entries L t ?es = Some rs" "\<forall>e\<in>set rs. mce_wf L e"
    "list_all2 (resized t) (filter (\<lambda>e. ?Q (mce_id e)) ?es) rs"
    using resized_entries_ok [of ?es L t] ok by auto
  obtain m1 where m1: "remove_ids (mc_remove L) (map mce_id (filter (\<lambda>e. ?Q (mce_id e)) ?es)) m = Some m1"
    "mc_inv L m1" "mc_entries L m1 = filter (\<lambda>e. \<not> ?Q (mce_id e)) ?es" "mc_fits L rs m1"
    using mc.remove_filter [OF inv, of ?Q] fits [OF rs(1)] by auto
  obtain m2 where m2: "push_each (mc_push L) rs m1 = Some m2" "mc_inv L m2"
    "mc_entries L m2 = mc_entries L m1 @ map (trim L) rs"
    using mc.push_each_fits [OF m1(2) rs(2) m1(4)] by auto
  have "list_all2 (resized t) (filter (\<lambda>e. ?Q (mce_id e)) ?es) (map (trim L) rs)"
    using rs(3) by (simp add: list_all2_conv_all_nth resized_trim)
  moreover have "resize_covered_entries L t m = Some m2"
    using rs(1) m1(1) m2(1) list_all2_ids [OF rs(3)] by (simp add: resize_covered_entries_def)
  ultimately show ?thesis using m1(3) m2(2,3) by auto
qed

lemma remove_uncovered_ok:
  assumes "mc_inv L m"
  shows "\<exists>m'. remove_uncovered L t m = Some m' \<and> mc_inv L m' \<and>
    mc_entries L m' = filter (\<lambda>e. is_covered t (mce_id e)) (mc_entries L m) \<and>
    (\<forall>es. mc_fits L es m \<longrightarrow> mc_fits L es m')"
  unfolding remove_uncovered_def by (rule retain_by_id_ok [OF assms])

lemma resized_entries_filter:
  "resized_entries L t (filter (\<lambda>e. is_covered t (mce_id e)) es) = resized_entries L t es"
  by (induction es) (auto simp: is_covered_def split: option.splits)

section \<open>Properties\<close>

text \<open>
  A cache built from mutation sites has one entry per site, in order: the site's id, address,
  instruction, spill slot and value size, enabled and with an empty mask. This holds when the sites
  fit; otherwise the construction panics instead of dropping one.
\<close>

theorem from_patchpoints_correct:
  assumes "layout_ok L" "content_size L < MUTATION_CACHE_DEFAULT_SIZE"
    and "length ps \<le> MAX_MUTATION_CACHE_ENTRIES"
    and "content_size L + length ps * align8 (md_size L) \<le> MUTATION_CACHE_DEFAULT_SIZE"
  shows "\<exists>m. from_patchpoints L ps = Some m \<and> mc_inv L m \<and> mc_entries L m = map (site_entry L) ps \<and>
    map mce_id (mc_entries L m) = map site_id ps \<and> (\<forall>e\<in>set (mc_entries L m). mce_enabled e \<and> is_nop e)"
proof -
  obtain m where m: "mc_new L = Some m" "mc_inv L m" "mc_entries L m = []"
    "slots (mc_content m) = MAX_MUTATION_CACHE_ENTRIES"
    "space_left L (mc_content m) = MUTATION_CACHE_DEFAULT_SIZE - content_size L"
    using mc_new_ok [OF assms(1,2)] by auto
  have s: "sum_list (map (mce_size L) (map (site_entry L) ps)) = length ps * align8 (md_size L)"
    by (simp add: o_def site_entry_facts sum_list_triv)
  have "mc_fits L (map (site_entry L) ps) m"
    using assms(3,4) m(4,5) unfolding mc_fits_def content_fits_def s by simp
  from push_sites_ok [OF m(2) this] obtain m' where m': "push_sites L ps m = Some m'" "mc_inv L m'"
    "mc_entries L m' = map (site_entry L) ps" using m(3) by auto
  have "\<forall>e\<in>set (map (site_entry L) ps). mce_enabled e \<and> is_nop e"
    by (simp add: site_entry_facts is_nop_def)
  moreover have "map mce_id (map (site_entry L) ps) = map site_id ps" by (simp add: site_entry_facts)
  ultimately show ?thesis using m(1) m' by (intro exI [of _ m']) (simp only: from_patchpoints_def bind.simps m'(3) simp_thms)
qed

definition sample_site :: "u64 \<Rightarrow> mutation_site" where
  "sample_site i = \<lparr>site_id = i, function_address = 0x1100, site_base = 0, site_address = 0x1104 + i, llvm_ins = LI_Load,
     spill_slot = \<lparr>loc_type = LT_Direct, loc_size = 8, dwarf_regnum = 6, offset_or_constant = 16\<rparr>,
     target_value_size_in_bit = 32, site_mapping = sample_mapping\<rparr>"

theorem from_patchpoints_correct_witness:
  "\<exists>m. from_patchpoints ref_layout [sample_site 1, sample_site 2] = Some m \<and>
     map mce_id (mc_entries ref_layout m) = [1, 2]"
proof -
  have "content_size ref_layout < MUTATION_CACHE_DEFAULT_SIZE"
    "length [sample_site 1, sample_site 2] \<le> MAX_MUTATION_CACHE_ENTRIES"
    "content_size ref_layout + length [sample_site 1, sample_site 2] * align8 (md_size ref_layout) \<le> MUTATION_CACHE_DEFAULT_SIZE"
    by (simp_all add: ref_layout_def MUTATION_CACHE_DEFAULT_SIZE_def MAX_MUTATION_CACHE_ENTRIES_def align8_def)
  from from_patchpoints_correct [OF ref_layout_ok this] show ?thesis by (auto simp: sample_site_def)
qed

text \<open>
  C33: Preparing a cache for a trace. Removing the uncovered entries and resizing the covered ones
  leaves exactly one entry per covered entry, in order, with the same metadata and a mask of one chunk
  of its value's size per recorded execution: the old mask as far as it reaches, then zeros. The
  masks have to fit into the cache; a failing push is ignored by the code.
\<close>

theorem covered_cache_correct:
  assumes "mc_inv L m" "\<forall>e\<in>set (mc_entries L m). resizable t e"
    and "\<And>rs. resized_entries L t (mc_entries L m) = Some rs \<Longrightarrow> mc_fits L rs m"
  shows "\<exists>m1 m2. remove_uncovered L t m = Some m1 \<and> resize_covered_entries L t m1 = Some m2 \<and> mc_inv L m2 \<and>
    list_all2 (\<lambda>e e'. mce_id e' = mce_id e \<and> resized t e e')
      (filter (\<lambda>e. mce_id e \<in> covered t) (mc_entries L m)) (mc_entries L m2)"
proof -
  have cov: "is_covered t i \<longleftrightarrow> i \<in> covered t" "exec_cnt t i \<noteq> None \<longleftrightarrow> i \<in> covered t" for i
    by (auto simp: is_covered_def covered_def)
  obtain m1 where m1: "remove_uncovered L t m = Some m1" "mc_inv L m1"
    "mc_entries L m1 = filter (\<lambda>e. is_covered t (mce_id e)) (mc_entries L m)"
    "\<And>es. mc_fits L es m \<Longrightarrow> mc_fits L es m1"
    using remove_uncovered_ok [OF assms(1)] by blast
  have "\<forall>e\<in>set (mc_entries L m1). resizable t e" using m1(3) assms(2) by simp
  moreover have "mc_fits L rs m1" if "resized_entries L t (mc_entries L m1) = Some rs" for rs
    by (rule m1(4), rule assms(3)) (use that m1(3) in \<open>simp add: resized_entries_filter\<close>)
  ultimately obtain m2 rs where m2: "resize_covered_entries L t m1 = Some m2" "mc_inv L m2"
    "mc_entries L m2 = filter (\<lambda>e. exec_cnt t (mce_id e) = None) (mc_entries L m1) @ rs"
    "list_all2 (resized t) (filter (\<lambda>e. exec_cnt t (mce_id e) \<noteq> None) (mc_entries L m1)) rs"
    using resize_covered_ok [OF m1(2)] by blast
  have "filter (\<lambda>e. exec_cnt t (mce_id e) = None) (mc_entries L m1) = []"
    unfolding m1(3) by (auto simp: filter_empty_conv is_covered_def)
  moreover have "filter (\<lambda>e. exec_cnt t (mce_id e) \<noteq> None) (mc_entries L m1) =
      filter (\<lambda>e. mce_id e \<in> covered t) (mc_entries L m)"
    unfolding m1(3) cov by simp
  ultimately have "list_all2 (\<lambda>e e'. mce_id e' = mce_id e \<and> resized t e e')
      (filter (\<lambda>e. mce_id e \<in> covered t) (mc_entries L m)) (mc_entries L m2)"
    using m2(3,4) by (auto elim!: list_all2_mono dest: resized_id)
  with m1(1) m2(1,2) show ?thesis by blast
qed

text \<open>The entry of the sample cache, executed twice, gets a mask of eight bytes.\<close>

lemma sample_chunk: "chunk_size_bytes (sample_mce i) = Some 4"
proof -
  have "ucast (32 :: u32) = (32 :: u16)" by simp
  then show ?thesis by (simp add: chunk_size_bytes_def chunk_size_bits_def sample_mce_def try_u16_def)
qed

lemma sample_resized:
  assumes "exec_cnt t 7 = Some 2" "resized_entries ref_layout t [sample_mce 7] = Some rs"
  shows "mc_fits ref_layout rs sample_cache"
proof -
  have n: "(0 :: u32) < 8" "unat (8 :: u32) \<le> MAX_MASK_LEN" by (simp_all add: MAX_MASK_LEN_def)
  obtain e' where e': "clone_with_new_msk ref_layout (sample_mce 7) 8 = Some e'"
    "mce_md e' = (mce_md (sample_mce 7))\<lparr>md_msk_len := 8\<rparr>"
    using clone_with_new_msk_ok [OF sample_mce_facts(2) n] by (auto simp: sample_mce_facts)
  have "rs = [e']" using assms e'(1) by (simp add: sample_mce_facts(3) sample_chunk)
  moreover have "mce_size ref_layout e' = 104"
    using e'(2) by (simp add: mce_size_def size_wo_overflow_padding_def msk_len_def target_value_size_byte_def
        sample_mce_def ref_layout_def align8_def div_ceil_def)
  ultimately show ?thesis
    using sample_cache_fits by (simp add: mc_fits_def content_fits_def sample_mce_facts(7))
qed

theorem covered_cache_correct_witness:
  "let t = from_trace_point_stats [(7, 2, Some 1), (9, 1, Some 2)] in
   \<exists>m1 m2. remove_uncovered ref_layout t sample_cache = Some m1 \<and>
     resize_covered_entries ref_layout t m1 = Some m2 \<and>
     map (\<lambda>e. (mce_id e, get_msk_as_slice e)) (mc_entries ref_layout m2) = [(7, [1, 2, 3, 4, 0, 0, 0, 0])]"
proof -
  let ?t = "from_trace_point_stats [(7, 2, Some 1), (9, 1, Some 2)]"
  have t: "exec_cnt ?t 7 = Some 2" "7 \<in> covered ?t"
    by (simp_all add: from_trace_point_stats_def trace_step_def covered_def TRACE_EXEC_CNT_LIMIT_def)
  have r: "\<forall>e\<in>set (mc_entries ref_layout sample_cache). resizable ?t e"
    by (simp add: sample_cache_facts resizable_def sample_mce_facts t sample_chunk TRACE_EXEC_CNT_LIMIT_def)
  have z: "replicate 4 (0 :: u8) = [0, 0, 0, 0]" by (simp add: eval_nat_numeral)
  obtain m1 m2 where m: "remove_uncovered ref_layout ?t sample_cache = Some m1"
    "resize_covered_entries ref_layout ?t m1 = Some m2"
    "list_all2 (\<lambda>e e'. mce_id e' = mce_id e \<and> resized ?t e e') [sample_mce 7] (mc_entries ref_layout m2)"
    using covered_cache_correct [OF sample_cache_facts(1) r] sample_resized [OF t(1)] t(2)
    by (auto simp: sample_cache_facts(2) sample_mce_facts(3))
  obtain e' where "mc_entries ref_layout m2 = [e']" "mce_id e' = 7" "resized ?t (sample_mce 7) e'"
    using m(3) by (auto simp: list_all2_Cons1 sample_mce_facts)
  with m(1,2) show ?thesis by (simp add: resized_def sample_mce_facts t Let_def z)
qed

end
