(* ===== verification/Aux_Stream.thy ===== *)
theory Aux_Stream
  imports Messages
begin

text \<open>
  Auxiliary streams (\<^verbatim>\<open>fuzztruction_shared/src/aux_stream.rs\<close>): a string, such as a log record, is
  encoded as UTF-16, cut into chunks of 512 bytes and sent as a sequence of messages that count
  down to zero; the assembler collects them and decodes the text.

  A string is the list of its Unicode scalar values. The UTF-16 conversions are those of the Rust
  standard library; an unpaired surrogate is decoded as the replacement character.
\<close>

section \<open>UTF-16\<close>

definition scalar_value :: "nat \<Rightarrow> bool" where
  "scalar_value c \<longleftrightarrow> c < 0xD800 \<or> 0xE000 \<le> c \<and> c < 0x110000"

definition encode_char :: "nat \<Rightarrow> u16 list" where
  "encode_char c = (if c < 0x10000 then [of_nat c]
     else [of_nat (0xD800 + (c - 0x10000) div 0x400), of_nat (0xDC00 + (c - 0x10000) mod 0x400)])"

definition encode_utf16 :: "nat list \<Rightarrow> u16 list" where
  "encode_utf16 s = concat (map encode_char s)"

definition REPLACEMENT :: nat where
  "REPLACEMENT = 0xFFFD"

fun from_utf16_lossy :: "u16 list \<Rightarrow> nat list" where
  "from_utf16_lossy [] = []"
| "from_utf16_lossy (u # us) =
    (if unat u < 0xD800 \<or> 0xE000 \<le> unat u then unat u # from_utf16_lossy us
     else if 0xDC00 \<le> unat u then REPLACEMENT # from_utf16_lossy us
     else case us of
         [] \<Rightarrow> [REPLACEMENT]
       | u2 # us' \<Rightarrow>
           if 0xDC00 \<le> unat u2 \<and> unat u2 < 0xE000
           then (0x10000 + (unat u - 0xD800) * 0x400 + (unat u2 - 0xDC00)) # from_utf16_lossy us'
           else REPLACEMENT # from_utf16_lossy us)"

section \<open>Messages of a stream\<close>

definition asm_new :: "aux_stream_type \<Rightarrow> u8 list \<Rightarrow> nat option \<Rightarrow> aux_stream_message option" where
  "asm_new stream_type payload msgs_left = do {
     require (length payload \<le> AUX_STREAM_MESSAGE_CHUNK_SIZE);
     Some \<lparr>asm_stream_type = stream_type, asm_chunk_len = of_nat (length payload),
           asm_chunk = payload @ drop (length payload) (replicate AUX_STREAM_MESSAGE_CHUNK_SIZE 0),
           asm_msgs_left = of_nat (case msgs_left of None \<Rightarrow> 0 | Some n \<Rightarrow> n)\<rparr> }"

text \<open>\<^verbatim>\<open>&self.chunk[0..self.chunk_len()]\<close>\<close>

definition asm_chunk_slice :: "aux_stream_message \<Rightarrow> u8 list option" where
  "asm_chunk_slice m = do {
     require (unat (asm_chunk_len m) \<le> length (asm_chunk m));
     Some (take (unat (asm_chunk_len m)) (asm_chunk m)) }"

text \<open>The inner option is the result of the function, the outer one a panic.\<close>

definition chunk_16 :: "aux_stream_message \<Rightarrow> u16 list option option" where
  "chunk_16 m = (if unat (asm_chunk_len m) mod 2 \<noteq> 0 then Some None
     else map_option (\<lambda>c. Some (as_u16s c)) (asm_chunk_slice m))"

text \<open>\<^verbatim>\<open>slice::chunks\<close>, for a positive chunk size.\<close>

fun chunks :: "nat \<Rightarrow> 'a list \<Rightarrow> 'a list list" where
  "chunks k [] = []"
| "chunks k (x # xs) = take (Suc (k - 1)) (x # xs) # chunks k (drop (k - 1) xs)"

definition build_str :: "aux_stream_type \<Rightarrow> nat list \<Rightarrow> aux_stream_message list option" where
  "build_str stream_type s =
     (let chunk_size = AUX_STREAM_MESSAGE_CHUNK_SIZE div 2;
          cs = chunks chunk_size (encode_utf16 s)
      in those (map (\<lambda>(i, c). asm_new stream_type (concat (map u16_bytes c)) (Some (length cs - i - 1)))
                    (enumerate 0 cs)))"

section \<open>The assembler\<close>

type_synonym assembler = "aux_stream_message list"

datatype aux_error = PayloadTypeMismatch | OddLength

fun collect :: "aux_stream_message list \<Rightarrow> (aux_error + u16 list) option" where
  "collect [] = Some (Inr [])"
| "collect (m # ms) = (case chunk_16 m of
      None \<Rightarrow> None
    | Some None \<Rightarrow> Some (Inl OddLength)
    | Some (Some us) \<Rightarrow> map_option (map_sum id ((@) us)) (collect ms))"

definition process_str_msg :: "aux_stream_message \<Rightarrow> assembler \<Rightarrow>
    (assembler \<times> (aux_error + (aux_stream_type \<times> nat list) option)) option" where
  "process_str_msg msg buf =
     (if buf \<noteq> [] \<and> asm_stream_type (last buf) \<noteq> asm_stream_type msg
      then Some ([], Inl PayloadTypeMismatch)
      else
        let buf = buf @ [msg] in
        if asm_msgs_left msg = 0 then do {
          r \<leftarrow> collect buf;
          Some ([], case r of Inl e \<Rightarrow> Inl e
            | Inr us \<Rightarrow> Inr (Some (asm_stream_type msg, from_utf16_lossy us))) }
        else Some (buf, Inr None))"

fun process_all :: "aux_stream_message list \<Rightarrow> assembler \<Rightarrow>
    (assembler \<times> (aux_error + (aux_stream_type \<times> nat list) option) list) option" where
  "process_all [] buf = Some (buf, [])"
| "process_all (m # ms) buf = do {
     (buf', r) \<leftarrow> process_str_msg m buf;
     (buf'', rs) \<leftarrow> process_all ms buf';
     Some (buf'', r # rs) }"

section \<open>Decoding undoes encoding\<close>

lemma unat_of_nat_u16: "n < 65536 \<Longrightarrow> unat (of_nat n :: u16) = n"
  by (simp add: unat_of_nat)

lemma decode_encode_char:
  assumes "scalar_value c"
  shows "from_utf16_lossy (encode_char c @ us) = c # from_utf16_lossy us"
proof (cases "c < 0x10000")
  case True
  with assms show ?thesis by (auto simp: encode_char_def unat_of_nat_u16 scalar_value_def)
next
  case False
  define d where "d = c - 0x10000"
  have c: "c = 0x10000 + d" "d < 0x100000" using False assms by (auto simp: d_def scalar_value_def)
  have h: "d div 0x400 < 0x400" "d mod 0x400 < 0x400" using c(2) by (simp_all add: div_less_iff_less_mult)
  have "unat (of_nat (0xD800 + d div 0x400) :: u16) = 0xD800 + d div 0x400"
    "unat (of_nat (0xDC00 + d mod 0x400) :: u16) = 0xDC00 + d mod 0x400"
    using h by (intro unat_of_nat_u16; simp)+
  moreover have "encode_char c = [of_nat (0xD800 + d div 0x400), of_nat (0xDC00 + d mod 0x400)]"
    using False by (simp add: encode_char_def d_def)
  moreover have "0x10000 + d div 0x400 * 0x400 + d mod 0x400 = c" using c(1) by simp
  ultimately show ?thesis using h by simp
qed

lemma decode_encode: "list_all scalar_value s \<Longrightarrow> from_utf16_lossy (encode_utf16 s) = s"
  by (induction s) (simp_all add: encode_utf16_def decode_encode_char)

section \<open>Assembling undoes building\<close>

lemma concat_chunks: "concat (chunks k xs) = xs"
  by (induction k xs rule: chunks.induct) (simp_all add: append_take_drop_id)

lemma chunks_length: "c \<in> set (chunks k xs) \<Longrightarrow> length c \<le> Suc (k - 1)"
  by (induction k xs rule: chunks.induct) auto

lemma length_chunks: "length (chunks k xs) \<le> length xs"
proof (induction k xs rule: chunks.induct)
  case (2 k x xs)
  then show ?case by (simp add: le_diff_conv)
qed simp

text \<open>The message of a chunk with \<open>n\<close> messages to follow, and the messages of a list of chunks.\<close>

definition chunk_msg :: "aux_stream_type \<Rightarrow> nat \<Rightarrow> u16 list \<Rightarrow> aux_stream_message" where
  "chunk_msg t n c = \<lparr>asm_stream_type = t, asm_chunk_len = of_nat (2 * length c),
     asm_chunk = concat (map u16_bytes c) @ replicate (512 - 2 * length c) 0, asm_msgs_left = of_nat n\<rparr>"

fun countdown :: "aux_stream_type \<Rightarrow> u16 list list \<Rightarrow> aux_stream_message list" where
  "countdown t [] = []"
| "countdown t (c # cs) = chunk_msg t (length cs) c # countdown t cs"

lemma asm_new_chunk: "length c \<le> 256 \<Longrightarrow> asm_new t (concat (map u16_bytes c)) (Some n) = Some (chunk_msg t n c)"
  by (simp add: asm_new_def chunk_msg_def AUX_STREAM_MESSAGE_CHUNK_SIZE_def)

lemma build_countdown:
  "\<forall>c\<in>set cs. length c \<le> 256 \<Longrightarrow> k + length cs = n \<Longrightarrow>
   those (map (\<lambda>(i, c). asm_new t (concat (map u16_bytes c)) (Some (n - i - 1))) (enumerate k cs)) =
     Some (countdown t cs)"
proof (induction cs arbitrary: k)
  case (Cons c cs)
  have "n - k - 1 = length cs" using Cons.prems(2) by simp
  moreover have "those (map (\<lambda>(i, c). asm_new t (concat (map u16_bytes c)) (Some (n - i - 1))) (enumerate (Suc k) cs)) =
      Some (countdown t cs)"
    by (rule Cons.IH) (use Cons.prems in auto)
  ultimately show ?case using Cons.prems(1) by (simp add: asm_new_chunk)
qed simp

lemma build_str_countdown:
  "build_str t s = Some (countdown t (chunks 256 (encode_utf16 s)))"
proof -
  have "\<forall>c\<in>set (chunks 256 (encode_utf16 s)). length c \<le> 256" using chunks_length by fastforce
  from build_countdown [OF this, of 0] show ?thesis
    by (simp add: build_str_def Let_def AUX_STREAM_MESSAGE_CHUNK_SIZE_def)
qed

lemma chunk_16_chunk_msg: "length c \<le> 256 \<Longrightarrow> chunk_16 (chunk_msg t n c) = Some (Some c)"
proof -
  assume l: "length c \<le> 256"
  then have "unat (of_nat (2 * length c) :: u64) = 2 * length c"
    by (simp add: unat_of_nat del: of_nat_mult)
  then show ?thesis
    using l unfolding chunk_16_def asm_chunk_slice_def chunk_msg_def by (simp del: of_nat_mult)
qed

abbreviation chunk_msgs :: "aux_stream_type \<Rightarrow> (nat \<times> u16 list) list \<Rightarrow> aux_stream_message list" where
  "chunk_msgs t ncs \<equiv> map (\<lambda>(n, c). chunk_msg t n c) ncs"

lemma collect_chunk_msgs:
  "\<forall>(n, c)\<in>set ncs. length c \<le> 256 \<Longrightarrow> collect (chunk_msgs t ncs) = Some (Inr (concat (map snd ncs)))"
  by (induction ncs) (auto simp: chunk_16_chunk_msg)

lemma process_countdown:
  assumes "\<forall>c\<in>set (c0 # cs). length c \<le> 256" "\<forall>(n, c)\<in>set ncs. length c \<le> 256" "length cs < 2 ^ 64"
  shows "process_all (countdown t (c0 # cs)) (chunk_msgs t ncs) =
    Some ([], replicate (length cs) (Inr None) @
      [Inr (Some (t, from_utf16_lossy (concat (map snd ncs) @ concat (c0 # cs))))])"
  using assms
proof (induction cs arbitrary: c0 ncs)
  case Nil
  have ty: "chunk_msgs t ncs \<noteq> [] \<Longrightarrow> asm_stream_type (last (chunk_msgs t ncs)) = t"
    by (auto simp: last_map chunk_msg_def split: prod.splits)
  have "collect (chunk_msgs t (ncs @ [(0, c0)])) = Some (Inr (concat (map snd (ncs @ [(0, c0)]))))"
    by (rule collect_chunk_msgs) (use Nil in auto)
  then show ?case using ty by (auto simp: process_str_msg_def chunk_msg_def)
next
  case (Cons c1 cs)
  have ty: "chunk_msgs t ncs \<noteq> [] \<Longrightarrow> asm_stream_type (last (chunk_msgs t ncs)) = t"
    by (auto simp: last_map chunk_msg_def split: prod.splits)
  let ?n = "length (c1 # cs)"
  have "of_nat ?n \<noteq> (0 :: u64)" using Cons.prems(3) by (simp add: word_unat_eq_iff unat_of_nat del: of_nat_Suc)
  then have "process_str_msg (chunk_msg t ?n c0) (chunk_msgs t ncs) =
      Some (chunk_msgs t (ncs @ [(?n, c0)]), Inr None)"
    using ty by (auto simp: process_str_msg_def chunk_msg_def)
  moreover have "process_all (countdown t (c1 # cs)) (chunk_msgs t (ncs @ [(?n, c0)])) =
    Some ([], replicate (length cs) (Inr None) @
      [Inr (Some (t, from_utf16_lossy (concat (map snd (ncs @ [(?n, c0)])) @ concat (c1 # cs))))])"
    by (rule Cons.IH) (use Cons.prems in auto)
  moreover have "countdown t (c0 # c1 # cs) = chunk_msg t ?n c0 # countdown t (c1 # cs)" by simp
  ultimately show ?case by (simp del: countdown.simps)
qed

section \<open>Properties\<close>

text \<open>
  C31: A non-empty string that is built into a stream and fed to an assembler comes out as it was
  with the last message, with its stream type; every message before the last one only asks for more,
  and the assembler is empty again at the end.
\<close>

theorem aux_stream_roundtrip:
  assumes "list_all scalar_value s" "s \<noteq> []" "length s < 2 ^ 62"
  shows "\<exists>msgs. build_str t s = Some msgs \<and> msgs \<noteq> [] \<and>
    process_all msgs [] = Some ([], replicate (length msgs - 1) (Inr None) @ [Inr (Some (t, s))])"
proof -
  let ?us = "encode_utf16 s"
  have "?us \<noteq> []" using assms(2) by (cases s) (auto simp: encode_utf16_def encode_char_def)
  then obtain x xs where us: "?us = x # xs" by (cases ?us) auto
  obtain c0 cs where c: "chunks 256 ?us = c0 # cs" unfolding us by simp
  have l: "\<forall>c\<in>set (c0 # cs). length c \<le> 256"
    using chunks_length [of _ 256 ?us] unfolding c by auto
  have "length ?us \<le> 2 * length s"
    unfolding encode_utf16_def by (induction s) (auto simp: encode_char_def)
  then have "length cs < 2 ^ 64" using length_chunks [of 256 ?us] assms(3) unfolding c by simp
  from process_countdown [OF l, of "[]" t] this
  have "process_all (countdown t (c0 # cs)) [] =
      Some ([], replicate (length cs) (Inr None) @ [Inr (Some (t, from_utf16_lossy (concat (c0 # cs))))])"
    by simp
  moreover have "from_utf16_lossy (concat (c0 # cs)) = s"
    unfolding c [symmetric] concat_chunks using assms(1) by (rule decode_encode)
  moreover have "length (countdown t (c0 # cs)) - 1 = length cs" by (induction cs arbitrary: c0) auto
  ultimately show ?thesis unfolding build_str_countdown c by simp
qed

theorem aux_stream_roundtrip_witness:
  "\<exists>msgs. build_str AST_LogRecord [0x48, 0x1F980] = Some msgs \<and>
     process_all msgs [] = Some ([], replicate (length msgs - 1) (Inr None) @ [Inr (Some (AST_LogRecord, [0x48, 0x1F980]))])"
  using aux_stream_roundtrip [of "[0x48, 0x1F980]" AST_LogRecord] by (auto simp: scalar_value_def)

end
