(* ===== verification/Dwarf.thy ===== *)
theory Dwarf
  imports FT_Prelude
begin

text \<open>
  The registers of the target (\<^verbatim>\<open>fuzztruction_shared/src/dwarf.rs\<close>): their DWARF numbers, and the names
  with which the just-in-time compiler writes them into assembler text. The calling convention is
  \<^verbatim>\<open>fuzztruction_shared/src/abi.rs\<close>.
\<close>

section \<open>Registers\<close>

datatype (plugins only: code) dwarf_reg =
    Rax | Rdx | Rcx | Rbx | Rsi | Rdi | Rbp | Rsp | R8 | R9 | R10 | R11 | R12 | R13 | R14 |
    R15 | Rip | Xmm0 | Xmm1 | Xmm2 | Xmm3 | Xmm4 | Xmm5 | Xmm6 | Xmm7 | Xmm8 | Xmm9 | Xmm10 |
    Xmm11 | Xmm12 | Xmm13 | Xmm14 | Xmm15 | St0 | St1 | St2 | St3 | St4 | St5 | St6 | St7 |
    Mm0 | Mm1 | Mm2 | Mm3 | Mm4 | Mm5 | Mm6 | Mm7 | Rflags | Es | Cs | Ss | Ds | Fs | Gs |
    Reserved0 | Reserved1 | FsBase | GsBase | Reserved2 | Reserved3 | Tr | Ldtr | Mxcsr | Fcw |
    Fsw | Invalid

text \<open>The variants in the order of their declaration: the number of a register is its position.\<close>

definition DWARF_REGS :: "dwarf_reg list" where
  "DWARF_REGS =
    [Rax, Rdx, Rcx, Rbx, Rsi, Rdi, Rbp, Rsp, R8, R9, R10, R11, R12, R13, R14, R15, Rip, Xmm0,
     Xmm1, Xmm2, Xmm3, Xmm4, Xmm5, Xmm6, Xmm7, Xmm8, Xmm9, Xmm10, Xmm11, Xmm12, Xmm13, Xmm14,
     Xmm15, St0, St1, St2, St3, St4, St5, St6, St7, Mm0, Mm1, Mm2, Mm3, Mm4, Mm5, Mm6, Mm7,
     Rflags, Es, Cs, Ss, Ds, Fs, Gs, Reserved0, Reserved1, FsBase, GsBase, Reserved2,
     Reserved3, Tr, Ldtr, Mxcsr, Fcw, Fsw, Invalid]"

definition dwarf_try_from :: "u16 \<Rightarrow> dwarf_reg option" where
  "dwarf_try_from n = (if unat n < length DWARF_REGS then Some (DWARF_REGS ! unat n) else None)"

fun reg_index :: "dwarf_reg \<Rightarrow> dwarf_reg list \<Rightarrow> nat" where
  "reg_index r [] = 0"
| "reg_index r (x # xs) = (if r = x then 0 else Suc (reg_index r xs))"

definition dwarf_u16 :: "dwarf_reg \<Rightarrow> nat" where
  "dwarf_u16 r = reg_index r DWARF_REGS"

definition GENERAL_PURPOSE_REGISTERS :: "dwarf_reg list" where
  "GENERAL_PURPOSE_REGISTERS =
    [Rax, Rdx, Rcx, Rbx, Rsi, Rdi, Rbp, Rsp, R8, R9, R10, R11, R12, R13, R14, R15]"

definition XMM_REGISTERS :: "dwarf_reg list" where
  "XMM_REGISTERS =
    [Xmm0, Xmm1, Xmm2, Xmm3, Xmm4, Xmm5, Xmm6, Xmm7, Xmm8, Xmm9, Xmm10, Xmm11, Xmm12, Xmm13, Xmm14, Xmm15]"

definition dwarf_default :: dwarf_reg where
  "dwarf_default = Invalid"

section \<open>Calling convention\<close>

definition ARGUMENT_PASSING_ORDER :: "dwarf_reg list" where
  "ARGUMENT_PASSING_ORDER = [Rdi, Rsi, Rdx, Rcx, R8, R9]"

definition CALLER_SAVED_GP_REGISTERS :: "dwarf_reg list" where
  "CALLER_SAVED_GP_REGISTERS = [Rax, Rdx, Rcx, Rsi, Rdi, R8, R9, R10, R11]"

definition CALLEE_SAVED_GP_REGISTERS :: "dwarf_reg list" where
  "CALLEE_SAVED_GP_REGISTERS = [Rbx, Rsp, Rbp, R12, R13, R14, R15]"

section \<open>Names\<close>

text \<open>The name of the variant, in lower case.\<close>

fun reg_name :: "dwarf_reg \<Rightarrow> string" where
  "reg_name Rax = ''rax''"
| "reg_name Rdx = ''rdx''"
| "reg_name Rcx = ''rcx''"
| "reg_name Rbx = ''rbx''"
| "reg_name Rsi = ''rsi''"
| "reg_name Rdi = ''rdi''"
| "reg_name Rbp = ''rbp''"
| "reg_name Rsp = ''rsp''"
| "reg_name R8 = ''r8''"
| "reg_name R9 = ''r9''"
| "reg_name R10 = ''r10''"
| "reg_name R11 = ''r11''"
| "reg_name R12 = ''r12''"
| "reg_name R13 = ''r13''"
| "reg_name R14 = ''r14''"
| "reg_name R15 = ''r15''"
| "reg_name Rip = ''rip''"
| "reg_name Xmm0 = ''xmm0''"
| "reg_name Xmm1 = ''xmm1''"
| "reg_name Xmm2 = ''xmm2''"
| "reg_name Xmm3 = ''xmm3''"
| "reg_name Xmm4 = ''xmm4''"
| "reg_name Xmm5 = ''xmm5''"
| "reg_name Xmm6 = ''xmm6''"
| "reg_name Xmm7 = ''xmm7''"
| "reg_name Xmm8 = ''xmm8''"
| "reg_name Xmm9 = ''xmm9''"
| "reg_name Xmm10 = ''xmm10''"
| "reg_name Xmm11 = ''xmm11''"
| "reg_name Xmm12 = ''xmm12''"
| "reg_name Xmm13 = ''xmm13''"
| "reg_name Xmm14 = ''xmm14''"
| "reg_name Xmm15 = ''xmm15''"
| "reg_name St0 = ''st0''"
| "reg_name St1 = ''st1''"
| "reg_name St2 = ''st2''"
| "reg_name St3 = ''st3''"
| "reg_name St4 = ''st4''"
| "reg_name St5 = ''st5''"
| "reg_name St6 = ''st6''"
| "reg_name St7 = ''st7''"
| "reg_name Mm0 = ''mm0''"
| "reg_name Mm1 = ''mm1''"
| "reg_name Mm2 = ''mm2''"
| "reg_name Mm3 = ''mm3''"
| "reg_name Mm4 = ''mm4''"
| "reg_name Mm5 = ''mm5''"
| "reg_name Mm6 = ''mm6''"
| "reg_name Mm7 = ''mm7''"
| "reg_name Rflags = ''rflags''"
| "reg_name Es = ''es''"
| "reg_name Cs = ''cs''"
| "reg_name Ss = ''ss''"
| "reg_name Ds = ''ds''"
| "reg_name Fs = ''fs''"
| "reg_name Gs = ''gs''"
| "reg_name Reserved0 = ''reserved0''"
| "reg_name Reserved1 = ''reserved1''"
| "reg_name FsBase = ''fsbase''"
| "reg_name GsBase = ''gsbase''"
| "reg_name Reserved2 = ''reserved2''"
| "reg_name Reserved3 = ''reserved3''"
| "reg_name Tr = ''tr''"
| "reg_name Ldtr = ''ldtr''"
| "reg_name Mxcsr = ''mxcsr''"
| "reg_name Fcw = ''fcw''"
| "reg_name Fsw = ''fsw''"
| "reg_name Invalid = ''invalid''"

text \<open>The macros; a size that is not 1, 2, 4 or 8 panics.\<close>

definition reg0 :: "nat \<Rightarrow> string \<Rightarrow> string option" where
  "reg0 sz infx = (if sz = 1 then Some (infx @ ''l'') else if sz = 2 then Some (infx @ ''x'')
     else if sz = 4 then Some (''e'' @ infx @ ''x'') else if sz = 8 then Some (''r'' @ infx @ ''x'') else None)"

definition reg1 :: "nat \<Rightarrow> string \<Rightarrow> string option" where
  "reg1 sz infx = (if sz = 1 then Some (infx @ ''il'') else if sz = 2 then Some (infx @ ''i'')
     else if sz = 4 then Some (''e'' @ infx @ ''i'') else if sz = 8 then Some (''r'' @ infx @ ''i'') else None)"

definition reg2 :: "nat \<Rightarrow> string \<Rightarrow> string option" where
  "reg2 sz infx = (if sz = 1 then Some (infx @ ''pl'') else if sz = 2 then Some (infx @ ''p'')
     else if sz = 4 then Some (''e'' @ infx @ ''p'') else if sz = 8 then Some (''r'' @ infx @ ''p'') else None)"

definition reg3 :: "nat \<Rightarrow> string \<Rightarrow> string option" where
  "reg3 sz infx = (if sz = 1 then Some (''r'' @ infx @ ''b'') else if sz = 2 then Some (''r'' @ infx @ ''w'')
     else if sz = 4 then Some (''r'' @ infx @ ''d'') else if sz = 8 then Some (''r'' @ infx) else None)"

text \<open>
  The outer option is a panic, the inner one the result. The range of the vector registers excludes
  its upper bound, so \<^term>\<open>Xmm15\<close> is not in it.
\<close>

definition name_with_size :: "dwarf_reg \<Rightarrow> nat \<Rightarrow> string option option" where
  "name_with_size r sz =
     (if dwarf_u16 Xmm0 \<le> dwarf_u16 r \<and> dwarf_u16 r < dwarf_u16 Xmm15 then
        (if sz = 16 then Some (Some (reg_name r)) else None)
      else do {
        require (sz = 1 \<or> sz = 2 \<or> sz = 4 \<or> sz = 8);
        case r of
          Rax \<Rightarrow> map_option Some (reg0 sz ''a'')
        | Rbx \<Rightarrow> map_option Some (reg0 sz ''b'')
        | Rcx \<Rightarrow> map_option Some (reg0 sz ''c'')
        | Rdx \<Rightarrow> map_option Some (reg0 sz ''d'')
        | Rsi \<Rightarrow> map_option Some (reg1 sz ''s'')
        | Rdi \<Rightarrow> map_option Some (reg1 sz ''d'')
        | Rbp \<Rightarrow> map_option Some (reg2 sz ''b'')
        | Rsp \<Rightarrow> map_option Some (reg2 sz ''s'')
        | R8 \<Rightarrow> map_option Some (reg3 sz ''8'')
        | R9 \<Rightarrow> map_option Some (reg3 sz ''9'')
        | R10 \<Rightarrow> map_option Some (reg3 sz ''10'')
        | R11 \<Rightarrow> map_option Some (reg3 sz ''11'')
        | R12 \<Rightarrow> map_option Some (reg3 sz ''12'')
        | R13 \<Rightarrow> map_option Some (reg3 sz ''13'')
        | R14 \<Rightarrow> map_option Some (reg3 sz ''14'')
        | R15 \<Rightarrow> map_option Some (reg3 sz ''15'')
        | _ \<Rightarrow> Some None })"

definition mem_ptr_prefix :: "nat \<Rightarrow> string option" where
  "mem_ptr_prefix sz = (if sz = 1 then Some ''byte'' else if sz = 2 then Some ''word''
     else if sz = 4 then Some ''dword'' else if sz = 8 then Some ''qword'' else None)"

section \<open>Numbers\<close>

lemma reg_index_nth: "r \<in> set xs \<Longrightarrow> reg_index r xs < length xs \<and> xs ! reg_index r xs = r"
  by (induction xs) auto

lemma reg_index_distinct: "distinct xs \<Longrightarrow> i < length xs \<Longrightarrow> reg_index (xs ! i) xs = i"
proof (induction xs arbitrary: i)
  case (Cons x xs)
  then show ?case by (cases i) auto
qed simp

lemma DWARF_REGS_distinct: "distinct DWARF_REGS"
  by code_simp

lemma DWARF_REGS_length: "length DWARF_REGS = 68"
  by code_simp

lemma DWARF_REGS_all: "r \<in> set DWARF_REGS"
  by (cases r) (simp_all add: DWARF_REGS_def)

lemma dwarf_try_from_u16: "dwarf_try_from (of_nat (dwarf_u16 r)) = Some r"
  using reg_index_nth [OF DWARF_REGS_all, of r] DWARF_REGS_length
  by (simp add: dwarf_try_from_def dwarf_u16_def unat_of_nat)

text \<open>All names of sub-registers of the general-purpose registers.\<close>

lemma gp_names_distinct:
  "distinct (map (\<lambda>(r, sz). name_with_size r sz) (List.product GENERAL_PURPOSE_REGISTERS [1, 2, 4, 8]))"
  by code_simp

lemma gp_names_exist:
  "list_all (\<lambda>(r, sz). name_with_size r sz \<noteq> None \<and> name_with_size r sz \<noteq> Some None)
     (List.product GENERAL_PURPOSE_REGISTERS [1, 2, 4, 8])"
  by code_simp

section \<open>Properties\<close>

text \<open>
  Register operands are unambiguous. A DWARF number read from a stack map denotes the register
  that has this number, and every general-purpose register has, for each of the four operand sizes, a
  name that no other register or size shares.
\<close>

theorem registers_unambiguous:
  assumes "r \<in> set GENERAL_PURPOSE_REGISTERS" "sz \<in> {1, 2, 4, 8}"
  shows "dwarf_try_from (of_nat (dwarf_u16 r)) = Some r \<and>
    (\<exists>n. name_with_size r sz = Some (Some n) \<and>
       (\<forall>r'\<in>set GENERAL_PURPOSE_REGISTERS. \<forall>sz'\<in>{1, 2, 4, 8}. name_with_size r' sz' = Some (Some n) \<longrightarrow> r' = r \<and> sz' = sz))"
proof -
  let ?ps = "List.product GENERAL_PURPOSE_REGISTERS [1, 2, 4, 8]" and ?f = "\<lambda>(r, sz). name_with_size r sz"
  have p: "(r', sz') \<in> set ?ps" if "r' \<in> set GENERAL_PURPOSE_REGISTERS" "sz' \<in> {1, 2, 4, 8}" for r' sz'
    using that by simp
  have inj: "inj_on ?f (set ?ps)" using gp_names_distinct distinct_map by blast
  have "name_with_size r sz \<noteq> None \<and> name_with_size r sz \<noteq> Some None"
    using gp_names_exist p [OF assms] unfolding list_all_iff by fast
  then obtain n where n: "name_with_size r sz = Some (Some n)" by auto
  moreover have "r' = r \<and> sz' = sz"
    if "r' \<in> set GENERAL_PURPOSE_REGISTERS" "sz' \<in> {1, 2, 4, 8}" "name_with_size r' sz' = Some (Some n)" for r' sz'
    using inj_onD [OF inj, of "(r', sz')" "(r, sz)"] p [OF assms] p [OF that(1,2)] that(3) n by simp
  ultimately show ?thesis using dwarf_try_from_u16 by blast
qed

theorem registers_unambiguous_witness:
  "dwarf_try_from 11 = Some R11 \<and> name_with_size R11 2 = Some (Some ''r11w'') \<and> name_with_size Rsi 1 \<noteq> Some (Some ''r11w'')"
proof -
  have 1: "R11 \<in> set GENERAL_PURPOSE_REGISTERS" "Rsi \<in> set GENERAL_PURPOSE_REGISTERS"
    by (simp_all add: GENERAL_PURPOSE_REGISTERS_def)
  have 2: "dwarf_u16 R11 = 11" "name_with_size R11 2 = Some (Some ''r11w'')" by code_simp+
  from registers_unambiguous [OF 1(1), of 2] 1(2) 2 show ?thesis by auto
qed

end
