(* ===== verification/X86.thy ===== *)
theory X86
  imports Dwarf Proc_Maps
begin

text \<open>
  The fragment of x86-64 in which the just-in-time compiler of the agent writes its stubs
  (\<^verbatim>\<open>generator/agent/src/jit/jit.rs\<close>): the instructions, the assembler text they stand for, and their
  effect on registers and memory as the processor manual describes it. Memory is a function from
  addresses to bytes; code outside the stub that a stub calls is a parameter.
\<close>

section \<open>Memory\<close>

type_synonym memory = "u64 \<Rightarrow> u8"

fun load :: "memory \<Rightarrow> u64 \<Rightarrow> nat \<Rightarrow> u64" where
  "load m a 0 = 0"
| "load m a (Suc n) = ucast (m a) OR push_bit 8 (load m (a + 1) n)"

definition in_region :: "u64 \<Rightarrow> nat \<Rightarrow> u64 \<Rightarrow> bool" where
  "in_region a n b \<longleftrightarrow> unat (b - a) < n"

definition store :: "memory \<Rightarrow> u64 \<Rightarrow> nat \<Rightarrow> u64 \<Rightarrow> memory" where
  "store m a n w = (\<lambda>b. if in_region a n b then ucast (drop_bit (8 * unat (b - a)) w) else m b)"

section \<open>Instructions\<close>

text \<open>The first argument of a sized instruction is the operand size in bytes.\<close>

datatype instr =
    PUSH dwarf_reg
  | POP dwarf_reg
  | MOV_IMM dwarf_reg u64
  | MOVABS dwarf_reg u64
  | MOV_REG dwarf_reg dwarf_reg
  | MOV_LOAD nat dwarf_reg dwarf_reg nat
  | MOV_LOAD_IDX nat dwarf_reg dwarf_reg dwarf_reg nat
  | MOV_STORE nat dwarf_reg nat dwarf_reg
  | SHR_IMM dwarf_reg nat
  | SHR_CL dwarf_reg
  | SHL_IMM nat dwarf_reg nat
  | AND_IMM nat dwarf_reg u64
  | ADD_IMM nat dwarf_reg u64
  | SUB_IMM nat dwarf_reg u64
  | XOR_STORE nat dwarf_reg dwarf_reg
  | CMP nat dwarf_reg dwarf_reg
  | CMOVA nat dwarf_reg dwarf_reg
  | CALL_MEM dwarf_reg
  | NOP
  | RET

definition sized :: "nat \<Rightarrow> dwarf_reg \<Rightarrow> string" where
  "sized n r = (case name_with_size r n of Some (Some s) \<Rightarrow> s | _ \<Rightarrow> [])"

definition hex :: "nat \<Rightarrow> string" where
  "hex n = ''0x'' @ map char_of (digits_of 16 n)"

definition mem_prefix :: "nat \<Rightarrow> string" where
  "mem_prefix n = (case mem_ptr_prefix n of Some s \<Rightarrow> s | None \<Rightarrow> [])"

fun asm_text :: "instr \<Rightarrow> string" where
  "asm_text (PUSH r) = ''push '' @ reg_name r"
| "asm_text (POP r) = ''pop '' @ reg_name r"
| "asm_text (MOV_IMM r c) = ''mov '' @ reg_name r @ '', '' @ hex (unat c)"
| "asm_text (MOVABS r c) = ''movabs '' @ reg_name r @ '', '' @ hex (unat c)"
| "asm_text (MOV_REG r q) = ''mov '' @ reg_name r @ '', '' @ reg_name q"
| "asm_text (MOV_LOAD n r b d) = ''mov '' @ sized n r @ '', ['' @ reg_name b @ (if d = 0 then [] else '' + '' @ hex d) @ '']''"
| "asm_text (MOV_LOAD_IDX n r b i d) =
    ''mov '' @ sized n r @ '', '' @ mem_prefix n @ '' ['' @ reg_name b @ '' + '' @ reg_name i @ '' + '' @ hex d @ '']''"
| "asm_text (MOV_STORE n b d r) = ''mov '' @ mem_prefix n @ '' ['' @ reg_name b @ '' + '' @ hex d @ ''], '' @ sized n r"
| "asm_text (SHR_IMM r k) = ''shr '' @ reg_name r @ '', '' @ map char_of (digits_of 10 k)"
| "asm_text (SHR_CL r) = ''shr '' @ reg_name r @ '', cl''"
| "asm_text (SHL_IMM n r k) = ''shl '' @ sized n r @ '', '' @ map char_of (digits_of 10 k)"
| "asm_text (AND_IMM n r c) = ''and '' @ sized n r @ '', '' @ hex (unat c)"
| "asm_text (ADD_IMM n r c) = ''add '' @ sized n r @ '', '' @ hex (unat c)"
| "asm_text (SUB_IMM n r c) = ''sub '' @ sized n r @ '', '' @ hex (unat c)"
| "asm_text (XOR_STORE n b r) = ''xor ['' @ reg_name b @ ''], '' @ sized n r"
| "asm_text (CMP n r q) = ''cmp '' @ sized n r @ '', '' @ sized n q"
| "asm_text (CMOVA n r q) = ''cmova '' @ sized n r @ '', '' @ sized n q"
| "asm_text (CALL_MEM b) = ''call ['' @ reg_name b @ '']''"
| "asm_text NOP = ''nop''"
| "asm_text RET = ''ret''"

section \<open>Execution\<close>

record cpu =
  regs :: "dwarf_reg \<Rightarrow> u64"
  cmem :: memory
  cf :: bool
  zf :: bool

text \<open>
  \<open>callee a\<close> is what a call of the code at \<open>a\<close> does until its return, \<open>ret_addr\<close> the return address
  that the call pushes.
\<close>

record code_env =
  callee :: "u64 \<Rightarrow> cpu \<Rightarrow> cpu option"
  ret_addr :: u64

text \<open>Writing 4 bytes clears the upper half of a register, writing fewer keeps the rest.\<close>

definition write_part :: "nat \<Rightarrow> u64 \<Rightarrow> u64 \<Rightarrow> u64" where
  "write_part n old w = (if n \<ge> 4 then take_bit (8 * n) w
     else (old AND NOT (mask (8 * n))) OR take_bit (8 * n) w)"

definition set_reg :: "nat \<Rightarrow> dwarf_reg \<Rightarrow> u64 \<Rightarrow> cpu \<Rightarrow> cpu" where
  "set_reg n r w s = s\<lparr>regs := (regs s)(r := write_part n (regs s r) w)\<rparr>"

definition get_reg :: "nat \<Rightarrow> dwarf_reg \<Rightarrow> cpu \<Rightarrow> u64" where
  "get_reg n r s = take_bit (8 * n) (regs s r)"

definition set_flags :: "bool \<Rightarrow> u64 \<Rightarrow> cpu \<Rightarrow> cpu" where
  "set_flags c w s = s\<lparr>cf := c, zf := (w = 0)\<rparr>"

definition push_val :: "u64 \<Rightarrow> cpu \<Rightarrow> cpu" where
  "push_val w s = s\<lparr>regs := (regs s)(Rsp := regs s Rsp - 8), cmem := store (cmem s) (regs s Rsp - 8) 8 w\<rparr>"

definition shift_right :: "nat \<Rightarrow> dwarf_reg \<Rightarrow> cpu \<Rightarrow> cpu" where
  "shift_right k r s = (if k = 0 then s else
     let w = regs s r; v = drop_bit k w in set_flags (bit w (k - 1)) v (set_reg 8 r v s))"

fun exec1 :: "code_env \<Rightarrow> instr \<Rightarrow> cpu \<Rightarrow> cpu option" where
  "exec1 E (PUSH r) s = Some (push_val (regs s r) s)"
| "exec1 E (POP r) s = Some (s\<lparr>regs := (regs s)(Rsp := regs s Rsp + 8, r := load (cmem s) (regs s Rsp) 8)\<rparr>)"
| "exec1 E (MOV_IMM r c) s = Some (set_reg 8 r c s)"
| "exec1 E (MOVABS r c) s = Some (set_reg 8 r c s)"
| "exec1 E (MOV_REG r q) s = Some (set_reg 8 r (regs s q) s)"
| "exec1 E (MOV_LOAD n r b d) s = Some (set_reg n r (load (cmem s) (regs s b + of_nat d) n) s)"
| "exec1 E (MOV_LOAD_IDX n r b i d) s = Some (set_reg n r (load (cmem s) (regs s b + regs s i + of_nat d) n) s)"
| "exec1 E (MOV_STORE n b d r) s = Some (s\<lparr>cmem := store (cmem s) (regs s b + of_nat d) n (regs s r)\<rparr>)"
| "exec1 E (SHR_IMM r k) s = Some (shift_right (k mod 64) r s)"
| "exec1 E (SHR_CL r) s = Some (shift_right (unat (regs s Rcx) mod 64) r s)"
| "exec1 E (SHL_IMM n r k) s =
    (let w = get_reg n r s; v = take_bit (8 * n) (push_bit k w)
     in Some (set_flags (bit w (8 * n - k)) v (set_reg n r v s)))"
| "exec1 E (AND_IMM n r c) s = (let v = get_reg n r s AND take_bit (8 * n) c in Some (set_flags False v (set_reg n r v s)))"
| "exec1 E (ADD_IMM n r c) s =
    (let w = get_reg n r s; v = take_bit (8 * n) (w + c) in Some (set_flags (v < w) v (set_reg n r v s)))"
| "exec1 E (SUB_IMM n r c) s =
    (let w = get_reg n r s; v = take_bit (8 * n) (w - c) in Some (set_flags (w < take_bit (8 * n) c) v (set_reg n r v s)))"
| "exec1 E (XOR_STORE n b r) s =
    (let v = load (cmem s) (regs s b) n XOR get_reg n r s
     in Some (set_flags False v (s\<lparr>cmem := store (cmem s) (regs s b) n v\<rparr>)))"
| "exec1 E (CMP n r q) s =
    (let x = get_reg n r s; y = get_reg n q s in Some (s\<lparr>cf := x < y, zf := (x = y)\<rparr>))"
| "exec1 E (CMOVA n r q) s = Some (if \<not> cf s \<and> \<not> zf s then set_reg n r (regs s q) s else set_reg n r (regs s r) s)"
| "exec1 E (CALL_MEM b) s = callee E (load (cmem s) (regs s b) 8) (push_val (ret_addr E) s)"
| "exec1 E NOP s = Some s"
| "exec1 E RET s = Some (s\<lparr>regs := (regs s)(Rsp := regs s Rsp + 8, Rip := load (cmem s) (regs s Rsp) 8)\<rparr>)"

fun exec :: "code_env \<Rightarrow> instr list \<Rightarrow> cpu \<Rightarrow> cpu option" where
  "exec E [] s = Some s"
| "exec E (i # is) s = do { s \<leftarrow> exec1 E i s; exec E is s }"

lemma exec_append: "exec E (is @ js) s = Option.bind (exec E is s) (exec E js)"
proof (induction "is" arbitrary: s)
  case (Cons i "is")
  show ?case by (cases "exec1 E i s") (simp_all add: Cons)
qed simp

section \<open>Loads and stores\<close>

lemma bit_load:
  "bit (load m a n) j \<longleftrightarrow> j < 64 \<and> j < 8 * n \<and> bit (m (a + of_nat (j div 8))) (j mod 8)"
proof (induction n arbitrary: a j)
  case (Suc n)
  show ?case
  proof (cases "j < 8")
    case True
    then show ?thesis by (auto simp: bit_or_iff bit_push_bit_iff bit_ucast_iff)
  next
    case False
    then obtain k where k: "j = k + 8" using le_Suc_ex [of 8 j] by (auto simp: not_less)
    have "\<not> bit (ucast (m a) :: u64) j" using False bit_imp_le_length [of "m a" j] by (auto simp: bit_ucast_iff)
    moreover have "j div 8 = Suc (k div 8)" "j mod 8 = k mod 8" by (simp_all add: k)
    then have "bit (m (a + of_nat (j div 8))) (j mod 8) = bit (m (a + 1 + of_nat (k div 8))) (k mod 8)"
      by (simp add: algebra_simps)
    ultimately show ?thesis
      using Suc [of "a + 1" k] unfolding load.simps bit_or_iff bit_push_bit_iff
      by (auto simp: k bit_imp_le_length)
  qed
qed simp

lemma load_cong: "(\<And>b. in_region a n b \<Longrightarrow> m b = m' b) \<Longrightarrow> n \<le> 8 \<Longrightarrow> load m a n = load m' a n"
proof (rule bit_word_eqI)
  fix j assume eq: "\<And>b. in_region a n b \<Longrightarrow> m b = m' b" and "n \<le> 8" "j < LENGTH(64)"
  have "m (a + of_nat (j div 8)) = m' (a + of_nat (j div 8))" if "j < 8 * n"
  proof (rule eq)
    have "j div 8 < n" using that by (simp add: less_mult_imp_div_less mult.commute)
    moreover from this have "unat (of_nat (j div 8) :: u64) = j div 8" using \<open>n \<le> 8\<close> by (simp add: unat_of_nat)
    ultimately show "in_region a n (a + of_nat (j div 8))" by (simp add: in_region_def)
  qed
  then show "bit (load m a n) j = bit (load m' a n) j" by (auto simp: bit_load)
qed

lemma load_store_same: "n \<le> 8 \<Longrightarrow> load (store m a n w) a n = take_bit (8 * n) w"
proof (rule bit_word_eqI)
  fix j assume "n \<le> 8" "j < LENGTH(64)"
  have "bit (store m a n w (a + of_nat (j div 8))) (j mod 8) \<longleftrightarrow> bit w j" if "j < 8 * n"
  proof -
    have d: "j div 8 < n" using that by (simp add: less_mult_imp_div_less mult.commute)
    then have "unat (of_nat (j div 8) :: u64) = j div 8" using \<open>n \<le> 8\<close> by (simp add: unat_of_nat)
    with d show ?thesis by (simp add: store_def in_region_def bit_ucast_iff bit_drop_bit_eq)
  qed
  then show "bit (load (store m a n w) a n) j = bit (take_bit (8 * n) w) j"
    using \<open>j < LENGTH(64)\<close> by (auto simp: bit_load bit_take_bit_iff)
qed

definition disjoint :: "u64 \<Rightarrow> nat \<Rightarrow> u64 \<Rightarrow> nat \<Rightarrow> bool" where
  "disjoint a n b k \<longleftrightarrow> (\<forall>x. \<not> (in_region a n x \<and> in_region b k x))"

lemma load_store_disjoint:
  "disjoint a n b k \<Longrightarrow> n \<le> 8 \<Longrightarrow> load (store m b k w) a n = load m a n"
  by (rule load_cong) (auto simp: disjoint_def store_def)

lemma store_apply [simp]: "\<not> in_region a n b \<Longrightarrow> store m a n w b = m b"
  by (simp add: store_def)

section \<open>Signed offsets\<close>

lemma bit_31_iff: "bit (w :: u32) 31 \<longleftrightarrow> 2 ^ 31 \<le> uint w"
proof -
  have u: "uint w < 2 ^ 32" using unsigned_less [of w, where 'a = int] by simp
  have "bit w 31 \<longleftrightarrow> bit (uint w) 31" by (simp add: bit_uint_iff)
  also have "\<dots> \<longleftrightarrow> odd (uint w div 2 ^ 31)" by (simp only: bit_iff_odd)
  also have "\<dots> \<longleftrightarrow> 2 ^ 31 \<le> uint w"
  proof (cases "2 ^ 31 \<le> uint w")
    case True
    then have "uint w div 2 ^ 31 = 1" using u by (intro int_div_pos_eq [where r = "uint w - 2 ^ 31"]) simp_all
    then show ?thesis using True by simp
  qed (simp add: div_pos_pos_trivial)
  finally show ?thesis .
qed

lemma sint_u32: "sint (w :: u32) = (if uint w < 2 ^ 31 then uint w else uint w - 2 ^ 32)"
proof -
  have u: "uint w < 2 ^ 32" using unsigned_less [of w, where 'a = int] by simp
  have "sint w = signed_take_bit 31 (uint w)" by (simp add: sint_uint)
  also have "\<dots> = take_bit (Suc 31) (uint w) - 2 ^ Suc 31 * of_bool (bit (uint w) 31)"
    by (rule signed_take_bit_eq_take_bit_minus)
  also have "take_bit (Suc 31) (uint w) = uint w" using u by (simp add: take_bit_int_eq_self_iff)
  also have "bit (uint w) 31 \<longleftrightarrow> 2 ^ 31 \<le> uint w" using bit_31_iff [of w] by (simp add: bit_uint_iff)
  finally show ?thesis by simp
qed

lemma add_scast:
  fixes off :: u32 and w :: u64
  shows "0 <s off \<Longrightarrow> w + ucast off = w + scast off" "off <s 0 \<Longrightarrow> w - ucast (off * - 1) = w + scast off"
    "\<not> 0 <s off \<Longrightarrow> \<not> off <s 0 \<Longrightarrow> w + scast off = w"
proof -
  have sc: "(scast off :: u64) = word_of_int (sint off)" by (rule scast_eq)
  have uc: "(ucast v :: u64) = word_of_int (uint v)" for v :: u32 by (rule ucast_eq)
  show "0 <s off \<Longrightarrow> w + ucast off = w + scast off"
    unfolding sc uc word_sless_alt using unsigned_less [of off, where 'a = int] by (auto simp: sint_u32 split: if_splits)
  show "off <s 0 \<Longrightarrow> w - ucast (off * - 1) = w + scast off"
  proof -
    assume "off <s 0"
    then have n: "2 ^ 31 \<le> uint off" "sint off = uint off - 2 ^ 32"
      by (auto simp: word_sless_alt sint_u32 split: if_splits)
    have "uint (off * - 1) = 2 ^ 32 - uint off"
      using n(1) unsigned_less [of off, where 'a = int] by (simp add: uint_word_ariths zmod_zminus1_eq_if)
    then have "uint (off * - 1) = - sint off" using n by simp
    then show ?thesis unfolding sc uc by simp
  qed
  show "\<not> 0 <s off \<Longrightarrow> \<not> off <s 0 \<Longrightarrow> w + scast off = w"
    unfolding sc word_sless_alt by simp
qed

section \<open>Regions\<close>

lemma region_offset:
  assumes "k + n \<le> 2 ^ 64" "0 < n"
  shows "in_region (a + of_nat k) n x \<longleftrightarrow> k \<le> unat (x - a) \<and> unat (x - a) < k + n"
proof -
  define d where "d = x - a"
  have k: "unat (of_nat k :: u64) = k" using assms by (simp add: unat_of_nat)
  have d: "unat d < 2 ^ 64" using unsigned_less [of d, where 'a = nat] by simp
  have e: "x - (a + of_nat k) = d - of_nat k" by (simp add: d_def algebra_simps)
  have s: "unat (d - of_nat k) = (if k \<le> unat d then unat d - k else unat d + 2 ^ 64 - k)"
    using unat_sub_if' [of d "of_nat k"] k by simp
  show ?thesis
    unfolding in_region_def e s d_def [symmetric] using assms d by auto
qed

lemma region_sub:
  assumes "in_region (a + of_nat k) n x" "k + n \<le> N" "N \<le> 2 ^ 64"
  shows "in_region a N x"
proof (cases "0 < n")
  case True
  then show ?thesis using assms region_offset [of k n a x] by (simp add: in_region_def)
qed (use assms(1) in \<open>simp add: in_region_def\<close>)

lemma disjoint_sym: "disjoint a n b k \<Longrightarrow> disjoint b k a n"
  by (auto simp: disjoint_def)

lemma disjoint_sub:
  "disjoint a N b M \<Longrightarrow> k + n \<le> N \<Longrightarrow> N \<le> 2 ^ 64 \<Longrightarrow> disjoint (a + of_nat k) n b M"
  unfolding disjoint_def using region_sub by blast

lemma disjoint_offsets:
  assumes "k + n \<le> l" "l + m \<le> 2 ^ 64"
  shows "disjoint (a + of_nat k) n (a + of_nat l) m"
proof (cases "0 < n \<and> 0 < m")
  case True
  then show ?thesis
    using assms region_offset [of k n a] region_offset [of l m a] by (auto simp: disjoint_def)
qed (auto simp: disjoint_def in_region_def)

section \<open>Saving and restoring registers\<close>

lemma disjoint_by_distance: "n \<le> unat (b - a) \<Longrightarrow> unat (b - a) + m \<le> 2 ^ 64 \<Longrightarrow> disjoint a n b m"
  using disjoint_offsets [of 0 n "unat (b - a)" m a] by simp

lemma regs_ops [simp]:
  "regs (set_reg n r w s) = (regs s)(r := write_part n (regs s r) w)" "cmem (set_reg n r w s) = cmem s"
  "regs (set_flags c w s) = regs s" "cmem (set_flags c w s) = cmem s"
  "regs (push_val w s) = (regs s)(Rsp := regs s Rsp - 8)"
  "cmem (push_val w s) = store (cmem s) (regs s Rsp - 8) 8 w"
  "regs (shift_right k r s) = (regs s)(r := drop_bit k (regs s r))" "cmem (shift_right k r s) = cmem s"
  "write_part 8 old w = w"
  by (simp_all add: set_reg_def set_flags_def push_val_def shift_right_def write_part_def Let_def
      take_bit_word_eq_self)

text \<open>
  Addresses are counted from the lowest byte \<open>B\<close> of the stack that is used: a push at offset \<open>K\<close>
  writes the eight bytes below it.
\<close>

lemma push_list:
  "regs s Rsp = B + of_nat K \<Longrightarrow> 8 * length rs \<le> K \<Longrightarrow> K < 2 ^ 64 \<Longrightarrow>
   \<exists>s'. exec E (map PUSH rs) s = Some s' \<and> regs s' = (regs s)(Rsp := B + of_nat (K - 8 * length rs)) \<and>
     (\<forall>x. \<not> (K - 8 * length rs \<le> unat (x - B) \<and> unat (x - B) < K) \<longrightarrow> cmem s' x = cmem s x) \<and>
     (\<forall>i<length rs. load (cmem s') (B + of_nat (K - 8 * (i + 1))) 8 =
        (if rs ! i = Rsp then B + of_nat (K - 8 * i) else regs s (rs ! i)))"
proof (induction rs arbitrary: s K)
  case (Cons r rs)
  let ?s = "push_val (regs s r) s" and ?K = "K - 8"
  have K: "8 \<le> K" using Cons.prems(2) by simp
  have sp: "regs s Rsp - 8 = B + of_nat ?K" using Cons.prems(1) K by (simp add: of_nat_diff)
  have "\<exists>s'. exec E (map PUSH rs) ?s = Some s' \<and> regs s' = (regs ?s)(Rsp := B + of_nat (?K - 8 * length rs)) \<and>
     (\<forall>x. \<not> (?K - 8 * length rs \<le> unat (x - B) \<and> unat (x - B) < ?K) \<longrightarrow> cmem s' x = cmem ?s x) \<and>
     (\<forall>i<length rs. load (cmem s') (B + of_nat (?K - 8 * (i + 1))) 8 =
        (if rs ! i = Rsp then B + of_nat (?K - 8 * i) else regs ?s (rs ! i)))"
    by (rule Cons.IH) (use Cons.prems sp in auto)
  then obtain s' where s': "exec E (map PUSH rs) ?s = Some s'"
    "regs s' = (regs ?s)(Rsp := B + of_nat (?K - 8 * length rs))"
    "\<And>x. \<not> (?K - 8 * length rs \<le> unat (x - B) \<and> unat (x - B) < ?K) \<Longrightarrow> cmem s' x = cmem ?s x"
    "\<And>i. i < length rs \<Longrightarrow> load (cmem s') (B + of_nat (?K - 8 * (i + 1))) 8 =
        (if rs ! i = Rsp then B + of_nat (?K - 8 * i) else regs ?s (rs ! i))" by blast
  have reg: "in_region (B + of_nat ?K) 8 x \<longleftrightarrow> ?K \<le> unat (x - B) \<and> unat (x - B) < K" for x
    using region_offset [of ?K 8 B x] Cons.prems(3) K by simp
  have "load (cmem s') (B + of_nat ?K) 8 = load (cmem ?s) (B + of_nat ?K) 8"
    by (rule load_cong) (use reg s'(3) in auto)
  then have top: "load (cmem s') (B + of_nat ?K) 8 = regs s r"
    using load_store_same [of 8] by (simp add: sp take_bit_word_eq_self)
  have "load (cmem s') (B + of_nat (K - 8 * (i + 1))) 8 =
      (if (r # rs) ! i = Rsp then B + of_nat (K - 8 * i) else regs s ((r # rs) ! i))" if "i < length (r # rs)" for i
  proof (cases i)
    case 0
    then show ?thesis using top Cons.prems(1) by auto
  next
    case (Suc j)
    then show ?thesis using s'(4) [of j] that by (auto split: if_splits)
  qed
  moreover have "cmem s' x = cmem s x" if "\<not> (K - 8 * length (r # rs) \<le> unat (x - B) \<and> unat (x - B) < K)" for x
  proof -
    have "\<not> in_region (B + of_nat ?K) 8 x" using that reg [of x] by auto
    moreover have "cmem s' x = cmem ?s x" by (rule s'(3)) (use that K in auto)
    ultimately show ?thesis by (simp add: sp)
  qed
  ultimately show ?case using s'(1,2) by (auto simp: sp)
qed (auto simp: fun_eq_iff)

lemma pop_list:
  "regs s Rsp = B + of_nat k \<Longrightarrow>
   (\<And>i. i < length rs \<Longrightarrow> load (cmem s) (B + of_nat (k + 8 * i)) 8 =
      (if rs ! i = Rsp then B + of_nat (k + 8 * (i + 1)) else f (rs ! i))) \<Longrightarrow>
   \<exists>s'. exec E (map POP rs) s = Some s' \<and> cmem s' = cmem s \<and>
     regs s' = (\<lambda>r. if r \<in> set rs then f r else regs s r)(Rsp := B + of_nat (k + 8 * length rs))"
proof (induction rs arbitrary: s k)
  case (Cons r rs)
  let ?s = "s\<lparr>regs := (regs s)(Rsp := regs s Rsp + 8, r := load (cmem s) (regs s Rsp) 8)\<rparr>"
  have v: "load (cmem s) (regs s Rsp) 8 = (if r = Rsp then B + of_nat (k + 8) else f r)"
    using Cons.prems(2) [of 0] Cons.prems(1) by simp
  have "\<exists>s'. exec E (map POP rs) ?s = Some s' \<and> cmem s' = cmem ?s \<and>
     regs s' = (\<lambda>r. if r \<in> set rs then f r else regs ?s r)(Rsp := B + of_nat ((k + 8) + 8 * length rs))"
  proof (rule Cons.IH)
    show "regs ?s Rsp = B + of_nat (k + 8)" using v Cons.prems(1) by (simp add: algebra_simps)
    fix i assume "i < length rs"
    then show "load (cmem ?s) (B + of_nat (k + 8 + 8 * i)) 8 =
        (if rs ! i = Rsp then B + of_nat (k + 8 + 8 * (i + 1)) else f (rs ! i))"
      using Cons.prems(2) [of "Suc i"] by (simp add: algebra_simps)
  qed
  then show ?case using v by (auto simp: fun_eq_iff algebra_simps)
qed auto

text \<open>
  Saving registers around code: when the code between keeps the stack pointer, the saved values and
  all registers that are not saved, every register has its old value at the end. The stack pointer
  may be among the saved registers: what is popped into it is the address above its slot, where it
  points after any other \<^verbatim>\<open>pop\<close>, too.
\<close>

lemma save_restore:
  fixes s :: cpu and rs :: "dwarf_reg list"
  defines "N \<equiv> 8 * length rs"
  defines "B \<equiv> regs s Rsp - of_nat N"
  assumes N: "N < 2 ^ 64"
    and body: "\<And>s1. regs s1 = (regs s)(Rsp := B) \<Longrightarrow> (\<forall>x. \<not> in_region B N x \<longrightarrow> cmem s1 x = cmem s x) \<Longrightarrow>
      (\<forall>i<length rs. rs ! i \<noteq> Rsp \<longrightarrow> load (cmem s1) (B + of_nat (N - 8 * (i + 1))) 8 = regs s (rs ! i)) \<Longrightarrow>
      \<exists>s2. exec E body s1 = Some s2 \<and> (\<forall>r. r = Rsp \<or> r \<notin> set rs \<longrightarrow> regs s2 r = regs s1 r) \<and>
        (\<forall>x. in_region B N x \<longrightarrow> cmem s2 x = cmem s1 x) \<and> Q (cmem s1) (cmem s2)"
  shows "\<exists>m s3. exec E (map PUSH rs @ body @ map POP (rev rs)) s = Some s3 \<and> regs s3 = regs s \<and>
    (\<forall>x. \<not> in_region B N x \<longrightarrow> m x = cmem s x) \<and> Q m (cmem s3)"
proof -
  have sp: "regs s Rsp = B + of_nat N" by (simp add: B_def)
  obtain s1 where s1: "exec E (map PUSH rs) s = Some s1" "regs s1 = (regs s)(Rsp := B)"
    "\<And>x. \<not> in_region B N x \<Longrightarrow> cmem s1 x = cmem s x"
    "\<And>i. i < length rs \<Longrightarrow> load (cmem s1) (B + of_nat (N - 8 * (i + 1))) 8 =
       (if rs ! i = Rsp then B + of_nat (N - 8 * i) else regs s (rs ! i))"
    using push_list [OF sp _ N, of rs E] by (auto simp: N_def in_region_def)
  have "\<forall>i<length rs. rs ! i \<noteq> Rsp \<longrightarrow> load (cmem s1) (B + of_nat (N - 8 * (i + 1))) 8 = regs s (rs ! i)"
    using s1(4) by presburger
  with s1(2,3) obtain s2 where s2: "exec E body s1 = Some s2" "\<And>r. r = Rsp \<or> r \<notin> set rs \<Longrightarrow> regs s2 r = regs s1 r"
    "\<And>x. in_region B N x \<Longrightarrow> cmem s2 x = cmem s1 x" "Q (cmem s1) (cmem s2)"
    using body [of s1] by blast
  have slot: "load (cmem s2) (B + of_nat (0 + 8 * i)) 8 =
      (if rev rs ! i = Rsp then B + of_nat (0 + 8 * (i + 1)) else regs s (rev rs ! i))" if "i < length (rev rs)" for i
  proof -
    let ?j = "length rs - 1 - i"
    have j: "?j < length rs" "N - 8 * (?j + 1) = 8 * i" "8 * i + 8 \<le> N" "N - 8 * ?j = 8 * (i + 1)"
      using that by (auto simp: N_def)
    have "load (cmem s2) (B + of_nat (8 * i)) 8 = load (cmem s1) (B + of_nat (8 * i)) 8"
    proof (rule load_cong)
      fix x assume "in_region (B + of_nat (8 * i)) 8 x"
      then have "in_region B N x" by (rule region_sub) (use j(3) N in auto)
      then show "cmem s2 x = cmem s1 x" by (rule s2(3))
    qed simp
    also have "\<dots> = (if rs ! ?j = Rsp then B + of_nat (8 * (i + 1)) else regs s (rs ! ?j))"
      using s1(4) [OF j(1)] unfolding j(2,4) .
    finally show ?thesis using that by (simp add: rev_nth)
  qed
  have "regs s2 Rsp = B + of_nat 0" using s2(2) [of Rsp] s1(2) by simp
  then obtain s3 where "exec E (map POP (rev rs)) s2 = Some s3" "cmem s3 = cmem s2"
    "regs s3 = (\<lambda>r. if r \<in> set (rev rs) then regs s r else regs s2 r)(Rsp := B + of_nat (0 + 8 * length (rev rs)))"
    using pop_list [of s2 B 0 "rev rs" "regs s" E, OF _ slot] by auto
  moreover have "(\<lambda>r. if r \<in> set (rev rs) then regs s r else regs s2 r)(Rsp := B + of_nat (0 + 8 * length (rev rs))) = regs s"
    using s2(2) s1(2) sp by (auto simp: fun_eq_iff N_def)
  ultimately show ?thesis
    using s1(1,3) s2(1,4) by (intro exI [of _ "cmem s1"] exI [of _ s3]) (simp add: exec_append)
qed

end
