(* ===== verification/Process_Memory.thy ===== *)
theory Process_Memory
  imports X86 Proc_Maps
begin

text \<open>
  The memory of the process the agent lives in: the mappings the kernel knows, the copy of them that
  the agent keeps (\<^verbatim>\<open>PROC_MAPPINGS\<close>), the change of access rights (\<^verbatim>\<open>generator/agent/src/mem.rs\<close>), the
  test for readable memory (\<^verbatim>\<open>generator/agent/src/jit/util.rs\<close>) and the marking of mappings as writable or
  executable (\<^verbatim>\<open>generator/agent/src/jit/jit.rs\<close>). A write to memory that is not writable kills the process,
  which is \<open>None\<close>. \<^verbatim>\<open>mprotect\<close> is a system call and a parameter.
\<close>

section \<open>Bytes in memory\<close>

definition get_bytes :: "memory \<Rightarrow> u64 \<Rightarrow> nat \<Rightarrow> u8 list" where
  "get_bytes m a n = map (\<lambda>i. m (a + of_nat i)) [0..<n]"

definition put_bytes :: "memory \<Rightarrow> u64 \<Rightarrow> u8 list \<Rightarrow> memory" where
  "put_bytes m a bs = (\<lambda>x. if in_region a (length bs) x then bs ! unat (x - a) else m x)"

lemma length_get_bytes [simp]: "length (get_bytes m a n) = n"
  by (simp add: get_bytes_def)

lemma get_put_bytes: "length bs \<le> 2 ^ 64 \<Longrightarrow> get_bytes (put_bytes m a bs) a (length bs) = bs"
  by (rule nth_equalityI) (simp_all add: get_bytes_def put_bytes_def in_region_def unat_of_nat)

lemma get_bytes_cong: "(\<And>x. in_region a n x \<Longrightarrow> m x = m' x) \<Longrightarrow> n \<le> 2 ^ 64 \<Longrightarrow> get_bytes m a n = get_bytes m' a n"
  by (auto simp: get_bytes_def in_region_def unat_of_nat)

lemma get_bytes_nth: "in_region a n x \<Longrightarrow> get_bytes m a n ! unat (x - a) = m x"
  by (simp add: get_bytes_def in_region_def)

section \<open>Access rights\<close>

definition PAGE_SIZE :: u64 where
  "PAGE_SIZE = 4096"

definition align_to_page :: "u64 \<Rightarrow> u64" where
  "align_to_page v = v AND NOT 0xfff"

record perms_config =
  perm_exec :: bool
  perm_read :: bool
  perm_write :: bool

definition perms_default :: perms_config where
  "perms_default = \<lparr>perm_exec = False, perm_read = False, perm_write = False\<rparr>"

record mapped_memory_config =
  start_addr :: u64
  mm_size :: u64
  perms :: perms_config

definition mm_new :: "u64 \<Rightarrow> u64 \<Rightarrow> mapped_memory_config option" where
  "mm_new start sz = do {
     require (sz > 0);
     Some \<lparr>start_addr = start, mm_size = sz, perms = perms_default\<rparr> }"

definition mm_exec :: "bool \<Rightarrow> mapped_memory_config \<Rightarrow> mapped_memory_config" where
  "mm_exec state c = c\<lparr>perms := (perms c)\<lparr>perm_exec := state\<rparr>\<rparr>"

definition mm_read :: "bool \<Rightarrow> mapped_memory_config \<Rightarrow> mapped_memory_config" where
  "mm_read state c = c\<lparr>perms := (perms c)\<lparr>perm_read := state\<rparr>\<rparr>"

definition mm_write :: "bool \<Rightarrow> mapped_memory_config \<Rightarrow> mapped_memory_config" where
  "mm_write state c = c\<lparr>perms := (perms c)\<lparr>perm_write := state\<rparr>\<rparr>"

definition mm_reset :: "mapped_memory_config \<Rightarrow> mapped_memory_config" where
  "mm_reset c = c\<lparr>perms := perms_default\<rparr>"

definition save_perms :: "mapped_memory_config \<Rightarrow> perms_config" where
  "save_perms c = perms c"

definition load_perms :: "perms_config \<Rightarrow> mapped_memory_config \<Rightarrow> mapped_memory_config" where
  "load_perms p c = c\<lparr>perms := p\<rparr>"

text \<open>
  The system call: it takes the mappings of the process and returns them with the rights of the range
  changed, \<open>None\<close> on failure.
\<close>

type_synonym mprotect = "u64 \<Rightarrow> u64 \<Rightarrow> perms_config \<Rightarrow> map_range list \<Rightarrow> map_range list option"

text \<open>\<^verbatim>\<open>start_addr + size\<close> panics when it overflows; the result is \<^verbatim>\<open>Err\<close> when the system call fails.\<close>

definition commit_range :: "mapped_memory_config \<Rightarrow> (u64 \<times> u64) option" where
  "commit_range c = do {
     let addr = align_to_page (start_addr c);
     require (unat (start_addr c) + unat (mm_size c) < 2 ^ 64 \<and> 0 < start_addr c + mm_size c);
     let len = PAGE_SIZE + (align_to_page (start_addr c + mm_size c - 1) - align_to_page (start_addr c));
     require (len > 0 \<and> len mod PAGE_SIZE = 0);
     Some (addr, len) }"

definition mm_commit :: "mprotect \<Rightarrow> mapped_memory_config \<Rightarrow> map_range list \<Rightarrow> (unit + map_range list) option" where
  "mm_commit mp c maps = do {
     (addr, len) \<leftarrow> commit_range c;
     Some (case mp addr len (perms c) maps of None \<Rightarrow> Inl () | Some maps' \<Rightarrow> Inr maps') }"

section \<open>Readable memory\<close>

text \<open>
  The loop that writes the range into a pipe: \<open>sys_write a n\<close> is the result of \<^verbatim>\<open>write\<close> for \<open>n\<close> bytes at
  \<open>a\<close>. A pipe that takes no bytes would keep the loop going for ever.
\<close>

partial_function (option) readable_loop :: "(u64 \<Rightarrow> nat \<Rightarrow> int) \<Rightarrow> u64 \<Rightarrow> nat \<Rightarrow> bool option" where
  "readable_loop sys_write read_ptr bytes_left =
     (if bytes_left = 0 then Some True
      else let ret = sys_write read_ptr bytes_left in
        if ret < 0 then Some False
        else readable_loop sys_write (read_ptr + of_int ret) (bytes_left - nat ret))"

definition is_readable_mem_range :: "int \<Rightarrow> (u64 \<Rightarrow> nat \<Rightarrow> int) \<Rightarrow> u64 \<Rightarrow> nat \<Rightarrow> bool option" where
  "is_readable_mem_range pipe_ret sys_write addr len = do {
     require (pipe_ret = 0);
     readable_loop sys_write addr len }"

section \<open>The process\<close>

record process =
  pmem :: memory
  kernel_maps :: "map_range list"
  proc_mappings :: "map_range list"

definition update_proc_mappings :: "process \<Rightarrow> process" where
  "update_proc_mappings p = p\<lparr>proc_mappings := kernel_maps p\<rparr>"

definition get_enclosing_mapping :: "u64 \<Rightarrow> map_range list \<Rightarrow> map_range option" where
  "get_enclosing_mapping addr maps = find (\<lambda>m. addr \<ge> mr_start m \<and> addr < mr_start m + mr_size m) maps"

definition mark_enclosing_mapping_rwx :: "mprotect \<Rightarrow> u64 \<Rightarrow> process \<Rightarrow> (unit + process) option" where
  "mark_enclosing_mapping_rwx mp addr p = (case get_enclosing_mapping addr (proc_mappings p) of
     None \<Rightarrow> Some (Inl ())
   | Some mapping \<Rightarrow> do {
       w \<leftarrow> is_write mapping;
       if \<not> w then do {
         c \<leftarrow> mm_new (mr_start mapping) (mr_size mapping);
         r \<leftarrow> mm_commit mp (mm_exec True (mm_write True (mm_read True (mm_reset c)))) (kernel_maps p);
         maps \<leftarrow> (case r of Inl _ \<Rightarrow> None | Inr maps \<Rightarrow> Some maps);
         Some (Inr (update_proc_mappings (p\<lparr>kernel_maps := maps\<rparr>))) }
       else Some (Inr p) })"

definition mark_enclosing_mapping_rx :: "mprotect \<Rightarrow> u64 \<Rightarrow> process \<Rightarrow> (unit + process) option" where
  "mark_enclosing_mapping_rx mp addr p = (case get_enclosing_mapping addr (proc_mappings p) of
     None \<Rightarrow> Some (Inl ())
   | Some mapping \<Rightarrow> do {
       w \<leftarrow> is_write mapping;
       if w then do {
         c \<leftarrow> mm_new (mr_start mapping) (mr_size mapping);
         r \<leftarrow> mm_commit mp (mm_exec True (mm_write False (mm_read True (mm_reset c)))) (kernel_maps p);
         maps \<leftarrow> (case r of Inl _ \<Rightarrow> None | Inr maps \<Rightarrow> Some maps);
         Some (Inr (update_proc_mappings (p\<lparr>kernel_maps := maps\<rparr>))) }
       else Some (Inr p) })"

text \<open>\<^verbatim>\<open>unwrap\<close>.\<close>

definition unwrap :: "('e + 'a) option \<Rightarrow> 'a option" where
  "unwrap r = do { r \<leftarrow> r; case r of Inl _ \<Rightarrow> None | Inr a \<Rightarrow> Some a }"

definition writable :: "map_range list \<Rightarrow> u64 \<Rightarrow> bool" where
  "writable maps x = (case get_enclosing_mapping x maps of None \<Rightarrow> False | Some m \<Rightarrow> is_write m = Some True)"

definition readable :: "map_range list \<Rightarrow> u64 \<Rightarrow> bool" where
  "readable maps x = (case get_enclosing_mapping x maps of None \<Rightarrow> False | Some m \<Rightarrow> is_read m = Some True)"

definition write_mem :: "u64 \<Rightarrow> u8 list \<Rightarrow> process \<Rightarrow> process option" where
  "write_mem a bs p = do {
     require (list_all (\<lambda>i. writable (kernel_maps p) (a + of_nat i)) [0..<length bs]);
     Some (p\<lparr>pmem := put_bytes (pmem p) a bs\<rparr>) }"

section \<open>What the kernel promises\<close>

definition range_wf :: "map_range \<Rightarrow> bool" where
  "range_wf m \<longleftrightarrow> range_start m < range_end m \<and> 4096 dvd unat (range_start m) \<and> 4096 dvd unat (range_end m) \<and> 2 \<le> length (mr_flags m)"

definition maps_wf :: "map_range list \<Rightarrow> bool" where
  "maps_wf maps \<longleftrightarrow> list_all range_wf maps \<and> sorted_wrt (\<lambda>m m'. range_end m \<le> range_start m') maps"

definition same_mapping :: "map_range list \<Rightarrow> u64 \<Rightarrow> u64 \<Rightarrow> bool" where
  "same_mapping maps x y = (case get_enclosing_mapping x maps of None \<Rightarrow> False | Some m \<Rightarrow> map_contain_addr m y)"

text \<open>
  Changing the rights of a whole mapping succeeds and changes them for the addresses of the mapping
  only. The kernel may merge neighbours, so that the list of mappings can change.
\<close>

definition kernel_ok :: "mprotect \<Rightarrow> bool" where
  "kernel_ok mp \<longleftrightarrow> (\<forall>maps m pc. maps_wf maps \<and> m \<in> set maps \<longrightarrow>
     (\<exists>maps'. mp (range_start m) (range_end m - range_start m) pc maps = Some maps' \<and> maps_wf maps' \<and>
        (\<forall>x y. same_mapping maps x y \<longrightarrow> same_mapping maps' x y) \<and>
        (\<forall>x. writable maps' x \<longleftrightarrow> (if map_contain_addr m x then perm_write pc else writable maps x)) \<and>
        (\<forall>x. readable maps' x \<longleftrightarrow> (if map_contain_addr m x then perm_read pc else readable maps x))))"

lemma contain_iff: "map_contain_addr m x \<longleftrightarrow> range_start m \<le> x \<and> x < range_end m"
  by (simp add: map_contain_addr_def mr_start_def mr_size_def)

lemma get_enclosing_contain: "get_enclosing_mapping x maps = find (\<lambda>m. map_contain_addr m x) maps"
  by (simp add: get_enclosing_mapping_def map_contain_addr_def)

lemma maps_wf_unique:
  "maps_wf maps \<Longrightarrow> m \<in> set maps \<Longrightarrow> m' \<in> set maps \<Longrightarrow> map_contain_addr m x \<Longrightarrow> map_contain_addr m' x \<Longrightarrow> m = m'"
  by (induction maps) (force simp: maps_wf_def contain_iff)+

lemma get_enclosing_Some:
  "maps_wf maps \<Longrightarrow> get_enclosing_mapping x maps = Some m \<longleftrightarrow> m \<in> set maps \<and> map_contain_addr m x"
proof
  assume wf: "maps_wf maps" and m: "m \<in> set maps \<and> map_contain_addr m x"
  then have "find (\<lambda>m. map_contain_addr m x) maps \<noteq> None" by (auto simp: find_None_iff)
  then obtain m' where m': "find (\<lambda>m. map_contain_addr m x) maps = Some m'" by blast
  then have "m' \<in> set maps" "map_contain_addr m' x" by (auto simp: find_Some_iff)
  with wf m m' show "get_enclosing_mapping x maps = Some m"
    using maps_wf_unique [of maps m' m x] by (simp add: get_enclosing_contain)
qed (auto simp: get_enclosing_contain find_Some_iff)

lemma writable_iff:
  assumes "maps_wf maps"
  shows "writable maps x \<longleftrightarrow> (\<exists>m. m \<in> set maps \<and> map_contain_addr m x \<and> is_write m = Some True)"
proof -
  have "writable maps x \<longleftrightarrow> (\<exists>m. get_enclosing_mapping x maps = Some m \<and> is_write m = Some True)"
    by (simp add: writable_def split: option.split)
  then show ?thesis using assms by (simp add: get_enclosing_Some)
qed

lemma same_mapping_iff:
  assumes "maps_wf maps"
  shows "same_mapping maps x y \<longleftrightarrow> (\<exists>m. m \<in> set maps \<and> map_contain_addr m x \<and> map_contain_addr m y)"
proof -
  have "same_mapping maps x y \<longleftrightarrow> (\<exists>m. get_enclosing_mapping x maps = Some m \<and> map_contain_addr m y)"
    by (simp add: same_mapping_def split: option.split)
  then show ?thesis using assms by (simp add: get_enclosing_Some)
qed

lemma unat_u64: "unat (w :: u64) < 2 ^ 64"
  using unsigned_less [of w, where 'a = nat] by simp

lemma unat_align_to_page: "unat (align_to_page w) = unat w div 4096 * 4096"
proof -
  have "align_to_page w = w AND NOT (mask 12)" by (simp add: align_to_page_def mask_eq_exp_minus_1)
  also have "\<dots> = push_bit 12 (drop_bit 12 w)"
    by (rule bit_word_eqI) (auto simp: bit_and_iff bit_not_iff bit_mask_iff bit_push_bit_iff bit_drop_bit_eq)
  finally have "align_to_page w = push_bit 12 (drop_bit 12 w)" .
  moreover have "unat w div 4096 * 4096 < 2 ^ 64"
    using unat_u64 [of w] div_times_less_eq_dividend [of "unat w" 4096] by linarith
  ultimately show ?thesis
    by (simp add: push_bit_eq_mult drop_bit_eq_div unat_word_ariths unat_div)
qed

lemma commit_whole_range:
  assumes "range_wf m"
  shows "commit_range \<lparr>start_addr = mr_start m, mm_size = mr_size m, perms = pc\<rparr> = Some (range_start m, range_end m - range_start m)"
proof -
  obtain k j where k: "unat (range_start m) = 4096 * k" "unat (range_end m) = 4096 * j" "k < j"
    using assms by (auto simp: range_wf_def dvd_def word_less_nat_alt)
  have ps: "unat PAGE_SIZE = 4096" by (simp add: PAGE_SIZE_def)
  have sz: "unat (range_end m - range_start m) = 4096 * (j - k)"
    using k by (simp add: unat_sub_if' diff_mult_distrib2)
  have j: "4096 * j < 2 ^ 64" using unat_u64 [of "range_end m"] k(2) by simp
  have e1: "unat (range_end m - 1) = 4096 * j - 1" using k by (simp add: unat_sub_if')
  have "(4096 * j - 1) div 4096 = j - 1" using k(3) by (simp add: div_nat_eqI)
  then have e: "unat (align_to_page (range_end m - 1)) = 4096 * (j - 1)" by (simp add: unat_align_to_page e1)
  have s: "unat (align_to_page (range_start m)) = 4096 * k" by (simp add: unat_align_to_page k)
  then have s': "align_to_page (range_start m) = range_start m" using k by (simp add: word_unat_eq_iff)
  have d: "unat (align_to_page (range_end m - 1) - range_start m) = 4096 * (j - 1 - k)"
    using k e by (simp add: unat_sub_if' diff_mult_distrib2)
  have "unat (PAGE_SIZE + (align_to_page (range_end m - 1) - range_start m)) = (4096 + 4096 * (j - 1 - k)) mod 2 ^ 64"
    by (simp add: unat_word_ariths ps d)
  moreover have "4096 + 4096 * (j - 1 - k) = 4096 * (j - k)" "4096 * (j - k) < 2 ^ 64" using k(3) j by simp_all
  ultimately have "unat (PAGE_SIZE + (align_to_page (range_end m - 1) - range_start m)) = 4096 * (j - k)" by simp
  then have len: "PAGE_SIZE + (align_to_page (range_end m - 1) - range_start m) = range_end m - range_start m"
    using sz by (simp add: word_unat_eq_iff)
  have "unat ((range_end m - range_start m) mod PAGE_SIZE) = 0" by (simp add: unat_mod ps sz)
  then have "(range_end m - range_start m) mod PAGE_SIZE = 0" by (simp add: word_unat_eq_iff)
  moreover have "0 < range_end m - range_start m" using sz k(3) by (simp add: word_less_nat_alt)
  moreover have "unat (range_start m) + unat (range_end m - range_start m) < 2 ^ 64" "0 < range_end m"
    using sz k j by (simp_all add: word_less_nat_alt diff_mult_distrib2)
  ultimately show ?thesis
    by (simp add: commit_range_def Let_def mr_start_def mr_size_def s' len)
qed

section \<open>Marking mappings\<close>

definition proc_ok :: "process \<Rightarrow> bool" where
  "proc_ok p \<longleftrightarrow> maps_wf (kernel_maps p) \<and> proc_mappings p = kernel_maps p"

abbreviation with_maps :: "process \<Rightarrow> map_range list \<Rightarrow> process" where
  "with_maps p maps \<equiv> p\<lparr>kernel_maps := maps, proc_mappings := maps\<rparr>"

text \<open>
  What a change of rights keeps: the bytes of a mapping stay together, and what was readable is.
\<close>

definition keeps :: "process \<Rightarrow> process \<Rightarrow> bool" where
  "keeps p p' \<longleftrightarrow> proc_ok p' \<and> (\<forall>x y. same_mapping (kernel_maps p) x y \<longrightarrow> same_mapping (kernel_maps p') x y) \<and>
     (\<forall>x. readable (kernel_maps p) x \<longrightarrow> readable (kernel_maps p') x)"

lemma keeps_refl: "proc_ok p \<Longrightarrow> keeps p p"
  by (simp add: keeps_def)

lemma keeps_trans: "keeps p p' \<Longrightarrow> keeps p' p'' \<Longrightarrow> keeps p p''"
  by (simp add: keeps_def)

lemma is_write_total: "maps_wf maps \<Longrightarrow> m \<in> set maps \<Longrightarrow> \<exists>b. is_write m = Some b"
  by (auto simp: maps_wf_def list_all_iff range_wf_def is_write_def flag_at_def)

lemma same_mapping_unique:
  "maps_wf maps \<Longrightarrow> m \<in> set maps \<Longrightarrow> map_contain_addr m a \<Longrightarrow> same_mapping maps a x \<longleftrightarrow> map_contain_addr m x"
  using maps_wf_unique by (auto simp: same_mapping_iff)

lemma commit_mapping:
  assumes "kernel_ok mp" "maps_wf maps" "m \<in> set maps"
  obtains maps' where "mm_commit mp \<lparr>start_addr = mr_start m, mm_size = mr_size m, perms = pc\<rparr> maps = Some (Inr maps')" "maps_wf maps'"
    "\<And>x y. same_mapping maps x y \<Longrightarrow> same_mapping maps' x y"
    "\<And>x. writable maps' x \<longleftrightarrow> (if map_contain_addr m x then perm_write pc else writable maps x)"
    "perm_read pc \<Longrightarrow> (\<And>x. readable maps x \<Longrightarrow> readable maps' x)"
proof -
  have "range_wf m" using assms(2,3) by (simp add: maps_wf_def list_all_iff)
  note c = commit_whole_range [OF this, of pc]
  obtain maps' where "mp (range_start m) (range_end m - range_start m) pc maps = Some maps'" "maps_wf maps'"
    "\<And>x y. same_mapping maps x y \<Longrightarrow> same_mapping maps' x y"
    "\<And>x. writable maps' x \<longleftrightarrow> (if map_contain_addr m x then perm_write pc else writable maps x)"
    "\<And>x. readable maps' x \<longleftrightarrow> (if map_contain_addr m x then perm_read pc else readable maps x)"
    using assms unfolding kernel_ok_def by blast
  then show thesis by (intro that [of maps']) (simp_all add: mm_commit_def c)
qed

lemma enclosing_mapping:
  assumes "proc_ok p" "same_mapping (kernel_maps p) a a"
  obtains m w where "get_enclosing_mapping a (proc_mappings p) = Some m" "m \<in> set (kernel_maps p)" "is_write m = Some w"
    "\<And>x. same_mapping (kernel_maps p) a x \<longleftrightarrow> map_contain_addr m x" "\<And>x. map_contain_addr m x \<Longrightarrow> writable (kernel_maps p) x \<longleftrightarrow> w"
proof -
  let ?maps = "kernel_maps p"
  have wf: "maps_wf ?maps" "proc_mappings p = ?maps" using assms(1) by (simp_all add: proc_ok_def)
  obtain m where m: "m \<in> set ?maps" "map_contain_addr m a" using assms(2) wf(1) by (auto simp: same_mapping_iff)
  obtain w where w: "is_write m = Some w" using is_write_total [OF wf(1) m(1)] by blast
  show thesis
  proof (rule that [OF _ m(1) w])
    show "get_enclosing_mapping a (proc_mappings p) = Some m" using m wf by (simp add: get_enclosing_Some)
    show "same_mapping ?maps a x \<longleftrightarrow> map_contain_addr m x" for x using same_mapping_unique [OF wf(1) m] .
    show "writable ?maps x \<longleftrightarrow> w" if x: "map_contain_addr m x" for x
    proof -
      have "get_enclosing_mapping x ?maps = Some m" using wf(1) m(1) x by (simp add: get_enclosing_Some)
      then show ?thesis by (simp add: writable_def w)
    qed
  qed
qed

lemma mm_new_size: "maps_wf maps \<Longrightarrow> m \<in> set maps \<Longrightarrow> mr_size m > 0"
proof -
  assume "maps_wf maps" "m \<in> set maps"
  then have "range_start m < range_end m" by (simp add: maps_wf_def list_all_iff range_wf_def)
  then show "mr_size m > 0" by (simp add: mr_size_def word_gt_0)
qed

lemma mark_rwx:
  assumes "kernel_ok mp" "proc_ok p" "same_mapping (kernel_maps p) a a"
  obtains p' where "unwrap (mark_enclosing_mapping_rwx mp a p) = Some p'"
    "keeps p p'" "pmem p' = pmem p"
    "\<And>x. writable (kernel_maps p') x \<longleftrightarrow> writable (kernel_maps p) x \<or> same_mapping (kernel_maps p) a x"
proof -
  obtain m w where m: "get_enclosing_mapping a (proc_mappings p) = Some m" "m \<in> set (kernel_maps p)" "is_write m = Some w"
    "\<And>x. same_mapping (kernel_maps p) a x \<longleftrightarrow> map_contain_addr m x" "\<And>x. map_contain_addr m x \<Longrightarrow> writable (kernel_maps p) x \<longleftrightarrow> w"
    using enclosing_mapping [OF assms(2,3)] by blast
  have wf: "maps_wf (kernel_maps p)" using assms(2) by (simp add: proc_ok_def)
  show thesis
  proof (cases w)
    case True
    then show thesis using assms(2) m
      by (intro that [of p]) (auto simp: mark_enclosing_mapping_rwx_def unwrap_def keeps_def)
  next
    case False
    obtain maps' where c: "mm_commit mp \<lparr>start_addr = mr_start m, mm_size = mr_size m,
        perms = \<lparr>perm_exec = True, perm_read = True, perm_write = True\<rparr>\<rparr> (kernel_maps p) = Some (Inr maps')" "maps_wf maps'"
      "\<And>x y. same_mapping (kernel_maps p) x y \<Longrightarrow> same_mapping maps' x y"
      "\<And>x. writable maps' x \<longleftrightarrow> (if map_contain_addr m x then True else writable (kernel_maps p) x)"
      "\<And>x. readable (kernel_maps p) x \<Longrightarrow> readable maps' x"
      using commit_mapping [OF assms(1) wf m(2), of "\<lparr>perm_exec = True, perm_read = True, perm_write = True\<rparr>"]
      by (metis perms_config.select_convs(2,3))
    have "unwrap (mark_enclosing_mapping_rwx mp a p) = Some (with_maps p maps')"
      using False m(1,3) c(1) mm_new_size [OF wf m(2)]
      by (simp add: mark_enclosing_mapping_rwx_def unwrap_def mm_new_def mm_exec_def mm_write_def mm_read_def mm_reset_def
          perms_default_def update_proc_mappings_def)
    then show thesis by (rule that) (use c m(4) in \<open>auto simp: keeps_def proc_ok_def\<close>)
  qed
qed

lemma mark_rx:
  assumes "kernel_ok mp" "proc_ok p" "same_mapping (kernel_maps p) a a"
  obtains p' where "unwrap (mark_enclosing_mapping_rx mp a p) = Some p'"
    "keeps p p'" "pmem p' = pmem p"
    "\<And>x. writable (kernel_maps p') x \<longleftrightarrow> writable (kernel_maps p) x \<and> \<not> same_mapping (kernel_maps p) a x"
proof -
  obtain m w where m: "get_enclosing_mapping a (proc_mappings p) = Some m" "m \<in> set (kernel_maps p)" "is_write m = Some w"
    "\<And>x. same_mapping (kernel_maps p) a x \<longleftrightarrow> map_contain_addr m x" "\<And>x. map_contain_addr m x \<Longrightarrow> writable (kernel_maps p) x \<longleftrightarrow> w"
    using enclosing_mapping [OF assms(2,3)] by blast
  have wf: "maps_wf (kernel_maps p)" using assms(2) by (simp add: proc_ok_def)
  show thesis
  proof (cases w)
    case False
    then show thesis using assms(2) m
      by (intro that [of p]) (auto simp: mark_enclosing_mapping_rx_def unwrap_def keeps_def)
  next
    case True
    obtain maps' where c: "mm_commit mp \<lparr>start_addr = mr_start m, mm_size = mr_size m,
        perms = \<lparr>perm_exec = True, perm_read = True, perm_write = False\<rparr>\<rparr> (kernel_maps p) = Some (Inr maps')" "maps_wf maps'"
      "\<And>x y. same_mapping (kernel_maps p) x y \<Longrightarrow> same_mapping maps' x y"
      "\<And>x. writable maps' x \<longleftrightarrow> (if map_contain_addr m x then False else writable (kernel_maps p) x)"
      "\<And>x. readable (kernel_maps p) x \<Longrightarrow> readable maps' x"
      using commit_mapping [OF assms(1) wf m(2), of "\<lparr>perm_exec = True, perm_read = True, perm_write = False\<rparr>"]
      by (metis perms_config.select_convs(2,3))
    have "unwrap (mark_enclosing_mapping_rx mp a p) = Some (with_maps p maps')"
      using True m(1,3) c(1) mm_new_size [OF wf m(2)]
      by (simp add: mark_enclosing_mapping_rx_def unwrap_def mm_new_def mm_exec_def mm_write_def mm_read_def mm_reset_def
          perms_default_def update_proc_mappings_def)
    then show thesis by (rule that) (use c m(4) in \<open>auto simp: keeps_def proc_ok_def\<close>)
  qed
qed

lemma write_mem_ok:
  assumes "\<And>x. in_region a (length bs) x \<Longrightarrow> writable (kernel_maps p) x" "length bs \<le> 2 ^ 64"
  shows "write_mem a bs p = Some (p\<lparr>pmem := put_bytes (pmem p) a bs\<rparr>)"
  using assms by (auto simp: write_mem_def list_all_iff in_region_def unat_of_nat)

text \<open>
  The loop over the pipe: as long as \<^verbatim>\<open>write\<close> accepts some bytes of a range that starts with a readable
  byte and fails on one that does not, the loop ends and tells whether all bytes are readable.
\<close>

definition write_probes :: "(u64 \<Rightarrow> nat \<Rightarrow> int) \<Rightarrow> (u64 \<Rightarrow> bool) \<Rightarrow> bool" where
  "write_probes sys_write ok \<longleftrightarrow> (\<forall>a n. 0 < n \<longrightarrow>
     (if ok a then \<exists>k. sys_write a n = int k \<and> 0 < k \<and> k \<le> n \<and> (\<forall>i<k. ok (a + of_nat i)) else sys_write a n < 0))"

lemma readable_loop_result:
  assumes "write_probes sys_write ok"
  shows "readable_loop sys_write a n = Some (\<forall>i<n. ok (a + of_nat i))"
proof (induction n arbitrary: a rule: less_induct)
  case (less n)
  show ?case
  proof (cases "n = 0 \<or> \<not> ok a")
    case True
    then show ?thesis using assms unfolding write_probes_def
      by (subst readable_loop.simps) (auto simp: Let_def intro!: exI [of _ 0])
  next
    case False
    then obtain k where k: "sys_write a n = int k" "0 < k" "k \<le> n" "\<forall>i<k. ok (a + of_nat i)"
      using assms [unfolded write_probes_def, rule_format, of n a] by auto
    have "(\<forall>i<n - k. ok (a + of_nat k + of_nat i)) \<longleftrightarrow> (\<forall>i<n. ok (a + of_nat i))"
    proof
      assume r: "\<forall>i<n - k. ok (a + of_nat k + of_nat i)"
      show "\<forall>i<n. ok (a + of_nat i)"
      proof (intro allI impI)
        fix i assume "i < n"
        then show "ok (a + of_nat i)" using k(4) r [rule_format, of "i - k"] by (cases "i < k") (auto simp: of_nat_diff add.assoc)
      qed
    next
      assume r: "\<forall>i<n. ok (a + of_nat i)"
      show "\<forall>i<n - k. ok (a + of_nat k + of_nat i)"
        using r [rule_format, of "k + i" for i] by (auto simp: add.assoc)
    qed
    then show ?thesis
      using False k less.IH [of "n - k" "a + of_nat k"] by (subst readable_loop.simps) (simp add: Let_def)
  qed
qed

end
