(* ===== verification/Jit_Code.thy ===== *)
theory Jit_Code
  imports X86 Mutation_Cache_Entry
begin

text \<open>
  The code generators of the just-in-time compiler (\<^verbatim>\<open>gen_mutation\<close>, \<^verbatim>\<open>gen_call\<close> and
  \<^verbatim>\<open>gen_call_multiplexer\<close> of \<^verbatim>\<open>generator/agent/src/jit/jit.rs\<close>) and what the generated code does. A
  template is a list of instructions of \<^theory_text>\<open>X86\<close>; its assembler text is the text of each.
\<close>

section \<open>Templates\<close>

datatype function_arg = Constant u64 | RegisterArg dwarf_reg

datatype jit_error = UnsupportedMutation

record function_template =
  asm_body :: "instr list"
  ft_returns :: bool

definition template_new :: "instr list \<Rightarrow> bool \<Rightarrow> function_template" where
  "template_new body returns = \<lparr>asm_body = body, ft_returns = returns\<rparr>"

text \<open>The instructions that \<^verbatim>\<open>FunctionTemplate::assemble\<close> hands to the assembler.\<close>

definition template_code :: "function_template \<Rightarrow> instr list" where
  "template_code t = asm_body t @ (if ft_returns t then [RET] else [])"

section \<open>Calls\<close>





section \<open>Mutations\<close>

text \<open>The offsets of the fields in an entry (\<^verbatim>\<open>offset_of!\<close>), decided by the compiler.\<close>

record mce_offsets =
  read_pos_bits_offset :: nat
  offsetof_msk_len :: nat
  msk_start_offset :: nat

function power_from :: "nat \<Rightarrow> nat \<Rightarrow> nat" where
  "power_from p n = (if n \<le> p \<or> p = 0 then p else power_from (2 * p) n)"
  by pat_completeness auto
termination
  by (relation "measure (\<lambda>(p, n). n - p)") auto

declare power_from.simps [simp del]

definition next_power_of_two :: "nat \<Rightarrow> nat" where
  "next_power_of_two n = power_from 1 n"

text \<open>The number of bytes that are read from the mask, a register size.\<close>

definition mask_read_size :: "nat \<Rightarrow> nat option" where
  "mask_read_size bits = do {
     let n = div_ceil bits 8;
     let n = (if bits \<noteq> 1 \<and> bits mod 8 \<noteq> 0 then n + 1 else n);
     require (bits \<noteq> 1 \<and> bits mod 8 \<noteq> 0 \<longrightarrow> div_ceil n 8 \<le> 8);
     let n = next_power_of_two n;
     require (n \<le> 8);
     Some n }"

definition load_mask :: "mce_offsets \<Rightarrow> u64 \<Rightarrow> nat \<Rightarrow> instr list" where
  "load_mask O1 addr n =
    [MOV_IMM Rax addr, MOV_LOAD 4 Rbx Rax (read_pos_bits_offset O1), MOV_REG Rdx Rbx, SHR_IMM Rdx 3, MOV_REG Rcx Rbx,
     AND_IMM 8 Rcx 7, MOV_LOAD_IDX n R11 Rax Rdx (msk_start_offset O1), SHR_CL R11]"

definition slot_address :: "location \<Rightarrow> instr list" where
  "slot_address l = MOV_LOAD 8 Rdx Rsp 0 #
     (if loc_type l = LT_Direct then
        let off = offset_or_constant l in
        (if 0 <s off then [ADD_IMM 8 Rdx (ucast off)]
         else if off <s 0 then [SUB_IMM 8 Rdx (ucast (off * - 1))] else [])
      else [])"

text \<open>\<^verbatim>\<open>(1u32 << v) - 1\<close> overflows for 32 and more bits.\<close>

definition apply_mask :: "nat \<Rightarrow> nat \<Rightarrow> instr list option" where
  "apply_mask bits n = (if bits mod 8 = 0 then Some [XOR_STORE n Rdx R11]
     else do {
       require (bits < 32);
       Some [AND_IMM n R11 (of_nat (2 ^ bits - 1)), XOR_STORE n Rdx R11] })"

definition advance_read_pos :: "mce_offsets \<Rightarrow> nat \<Rightarrow> instr list" where
  "advance_read_pos O1 bits =
    [ADD_IMM 4 Rbx (of_nat bits), MOV_LOAD 4 Rcx Rax (offsetof_msk_len O1), SHL_IMM 4 Rcx 3, CMP 4 Rbx Rcx,
     CMOVA 4 Rbx Rcx, MOV_STORE 4 Rax (read_pos_bits_offset O1) Rbx]"

definition SCRATCH :: "dwarf_reg list" where
  "SCRATCH = [Rax, Rbx, Rcx, Rdx, R11]"

definition gen_mutation_reg_and_direct :: "mce_offsets \<Rightarrow> u64 \<Rightarrow> mce \<Rightarrow> (jit_error + function_template) option" where
  "gen_mutation_reg_and_direct O1 addr e = do {
     let slot = md_spill_slot (mce_md e);
     spill_reg \<leftarrow> dwarf_try_from (dwarf_regnum slot);
     require (spill_reg \<noteq> Rsp);
     bits \<leftarrow> map_option unat (chunk_size_bits e);
     if bits > 8 * 8 then Some (Inl UnsupportedMutation)
     else do {
       n \<leftarrow> mask_read_size bits;
       xor_code \<leftarrow> apply_mask bits n;
       let asm = map PUSH (SCRATCH @ [spill_reg]);
       let asm = asm @ load_mask O1 addr n @ slot_address slot @ xor_code @ advance_read_pos O1 bits;
       let asm = asm @ map POP (spill_reg # rev SCRATCH);
       Some (Inr (template_new asm True)) } }"

definition gen_mutation :: "mce_offsets \<Rightarrow> u64 \<Rightarrow> mce \<Rightarrow> (jit_error + function_template) option" where
  "gen_mutation O1 addr e = do {
     require (msk_len e > 0);
     case loc_type (md_spill_slot (mce_md e)) of
       LT_Register \<Rightarrow> gen_mutation_reg_and_direct O1 addr e
     | LT_Direct \<Rightarrow> gen_mutation_reg_and_direct O1 addr e
     | _ \<Rightarrow> Some (Inl UnsupportedMutation) }"

section \<open>Size of a read\<close>

lemma mask_sizes:
  "list_all (\<lambda>b. case mask_read_size b of None \<Rightarrow> True | Some n \<Rightarrow>
     (n = 1 \<or> n = 2 \<or> n = 4 \<or> n = 8) \<and> b \<le> 8 * n \<and> (b \<noteq> 1 \<and> b mod 8 \<noteq> 0 \<longrightarrow> b + 7 \<le> 8 * n)) [1..<65]"
  by code_simp

lemma mask_read_size_Some:
  assumes "mask_read_size bits = Some n" "0 < bits" "bits \<le> 64"
  shows "n = 1 \<or> n = 2 \<or> n = 4 \<or> n = 8" "bits \<le> 8 * n" "bits \<noteq> 1 \<Longrightarrow> bits mod 8 \<noteq> 0 \<Longrightarrow> bits + 7 \<le> 8 * n"
proof -
  have "bits \<in> set [1..<65]" using assms(2,3) by simp
  then show "n = 1 \<or> n = 2 \<or> n = 4 \<or> n = 8" "bits \<le> 8 * n" "bits \<noteq> 1 \<Longrightarrow> bits mod 8 \<noteq> 0 \<Longrightarrow> bits + 7 \<le> 8 * n"
    using mask_sizes assms(1) unfolding list_all_iff by fastforce+
qed

section \<open>Execution of the parts of a stub\<close>

lemma take_bit_load: "take_bit (8 * n) (load m a n) = load m a n"
  by (rule bit_word_eqI) (auto simp: bit_take_bit_iff bit_load)

lemma write_part_load4 [simp]: "write_part 4 old (load m a 4) = load m a 4"
  using take_bit_load [of 4 m a] by (simp add: write_part_def)

lemma load_mask_exec:
  fixes O1 :: mce_offsets
  defines "P s addr \<equiv> load (cmem s) (addr + of_nat (read_pos_bits_offset O1)) 4"
  shows "\<exists>s'. exec E (load_mask O1 addr n) s = Some s' \<and> cmem s' = cmem s \<and>
    regs s' = (regs s)(Rax := addr, Rbx := P s addr, Rdx := drop_bit 3 (P s addr), Rcx := P s addr AND 7,
      R11 := drop_bit (unat (P s addr AND 7) mod 64)
        (write_part n (regs s R11) (load (cmem s) (addr + drop_bit 3 (P s addr) + of_nat (msk_start_offset O1)) n)))"
  unfolding P_def by (simp add: load_mask_def Let_def get_reg_def take_bit_word_eq_self fun_upd_twist)

definition slot_offset :: "location \<Rightarrow> u64" where
  "slot_offset l = (if loc_type l = LT_Direct then scast (offset_or_constant l) else 0)"

lemma slot_address_exec:
  "\<exists>s'. exec E (slot_address l) s = Some s' \<and> cmem s' = cmem s \<and>
    regs s' = (regs s)(Rdx := load (cmem s) (regs s Rsp) 8 + slot_offset l)"
proof -
  let ?w = "load (cmem s) (regs s Rsp) 8" and ?off = "offset_or_constant l"
  note a = add_scast(1) [of ?off ?w] add_scast(2) [of ?off ?w] add_scast(3) [of ?off ?w]
  show ?thesis
    using a by (auto simp: slot_address_def slot_offset_def Let_def get_reg_def take_bit_word_eq_self)
qed

definition xor_width :: "nat \<Rightarrow> nat \<Rightarrow> nat" where
  "xor_width bits n = (if bits mod 8 = 0 then 8 * n else bits)"

lemma take_bit_write_part: "n \<le> 8 \<Longrightarrow> take_bit (8 * n) (write_part n old w) = take_bit (8 * n) w"
  by (rule bit_word_eqI) (auto simp: write_part_def bit_take_bit_iff bit_or_iff bit_and_iff bit_not_iff bit_mask_iff)

lemma apply_mask_exec:
  assumes "apply_mask bits n = Some code" "n \<le> 8" "bits \<le> 8 * n"
  shows "\<exists>s'. exec E code s = Some s' \<and> (\<forall>r. r \<noteq> R11 \<longrightarrow> regs s' r = regs s r) \<and>
    cmem s' = store (cmem s) (regs s Rdx) n (load (cmem s) (regs s Rdx) n XOR take_bit (xor_width bits n) (regs s R11))"
proof (cases "bits mod 8 = 0")
  case True
  then have "code = [XOR_STORE n Rdx R11]" using assms(1) by (simp add: apply_mask_def)
  with True show ?thesis by (simp add: Let_def get_reg_def xor_width_def)
next
  case False
  let ?m = "of_nat (2 ^ bits - 1) :: u64"
  have c: "code = [AND_IMM n R11 ?m, XOR_STORE n Rdx R11]" "bits < 32"
    using assms(1) False by (auto simp: apply_mask_def split: if_splits)
  have "?m = mask bits" by (simp add: mask_eq_exp_minus_1 of_nat_diff)
  then have "take_bit (8 * n) (regs s R11) AND take_bit (8 * n) ?m = take_bit bits (regs s R11)"
    using assms(3) by (simp add: take_bit_eq_mask bit_eq_iff bit_and_iff bit_mask_iff) auto
  moreover have "take_bit (8 * n) (take_bit bits (regs s R11)) = take_bit bits (regs s R11)"
    using assms(3) by (simp add: min_absorb2)
  ultimately show ?thesis
    using False assms(2) by (simp add: c(1) Let_def get_reg_def xor_width_def take_bit_write_part)
qed

lemma take_bit_u32: "p < 2 ^ 32 \<Longrightarrow> take_bit 32 (of_nat p :: u64) = of_nat p"
  by (simp add: word_unat_eq_iff unsigned_take_bit_eq unat_of_nat take_bit_nat_eq_self)

lemma advance_exec:
  assumes "regs s Rax = addr" "regs s Rbx = of_nat p" "p + bits < 2 ^ 32" "8 * ml < 2 ^ 32"
    and "load (cmem s) (addr + of_nat (offsetof_msk_len O1)) 4 = of_nat ml"
  shows "\<exists>s'. exec E (advance_read_pos O1 bits) s = Some s' \<and> (\<forall>r. r \<noteq> Rbx \<and> r \<noteq> Rcx \<longrightarrow> regs s' r = regs s r) \<and>
    cmem s' = store (cmem s) (addr + of_nat (read_pos_bits_offset O1)) 4 (of_nat (min (p + bits) (8 * ml)))"
proof -
  have p: "take_bit 32 (of_nat p :: u64) = of_nat p" "take_bit 32 (of_nat p + of_nat bits :: u64) = of_nat (p + bits)"
    using assms(3) take_bit_u32 [of p] take_bit_u32 [of "p + bits"] by simp_all
  have ml: "write_part 4 old (of_nat ml) = of_nat ml" "take_bit 32 (of_nat ml :: u64) = of_nat ml" for old
    using assms(4) take_bit_u32 [of ml] by (simp_all add: write_part_def)
  have sh: "take_bit 32 (push_bit 3 (of_nat ml :: u64)) = of_nat (8 * ml)"
    using assms(4) take_bit_u32 [of "8 * ml"] by (simp add: push_bit_eq_mult mult.commute)
  have w: "write_part 4 old (of_nat (p + bits)) = of_nat (p + bits)" "write_part 4 old (of_nat (8 * ml)) = of_nat (8 * ml)" for old
    using take_bit_u32 [OF assms(3)] take_bit_u32 [OF assms(4)] by (simp_all add: write_part_def del: of_nat_add of_nat_mult)
  have lt: "(of_nat (p + bits) :: u64) < of_nat (8 * ml) \<longleftrightarrow> p + bits < 8 * ml"
    "(of_nat (p + bits) :: u64) = of_nat (8 * ml) \<longleftrightarrow> p + bits = 8 * ml"
    using assms(3,4) by (simp_all add: word_less_nat_alt word_unat_eq_iff unat_of_nat del: of_nat_add of_nat_mult)
  show ?thesis
    using assms(1,2,5) take_bit_u32 [OF assms(3)] take_bit_u32 [OF assms(4)]
    by (simp add: advance_read_pos_def Let_def get_reg_def p ml sh w lt del: of_nat_add of_nat_mult)
qed

section \<open>The mutation stub\<close>

text \<open>The \<open>w\<close> bits of the mask at \<open>a\<close> that start at bit \<open>p\<close>.\<close>

definition chunk_at :: "memory \<Rightarrow> u64 \<Rightarrow> nat \<Rightarrow> nat \<Rightarrow> u64" where
  "chunk_at m a p w = take_bit w (drop_bit (p mod 8) (load m (a + of_nat (p div 8)) 8))"

lemma chunk_at_read:
  assumes "w + p mod 8 \<le> 8 * n" "n \<le> 8"
  shows "take_bit w (drop_bit (p mod 8) (write_part n old (load m (a + of_nat (p div 8)) n))) = chunk_at m a p w"
proof (rule bit_word_eqI)
  fix j assume "j < LENGTH(64)"
  show "bit (take_bit w (drop_bit (p mod 8) (write_part n old (load m (a + of_nat (p div 8)) n)))) j =
      bit (chunk_at m a p w) j"
    using assms by (auto simp: chunk_at_def write_part_def bit_take_bit_iff bit_drop_bit_eq bit_or_iff
        bit_and_iff bit_not_iff bit_mask_iff bit_load)
qed

lemma u32_pos_parts:
  assumes "p < 2 ^ 32"
  shows "drop_bit 3 (of_nat p :: u64) = of_nat (p div 8)" "unat (of_nat p AND 7 :: u64) mod 64 = p mod 8"
proof -
  have u: "unat (of_nat p :: u64) = p" using assms by (simp add: unat_of_nat)
  show "drop_bit 3 (of_nat p :: u64) = of_nat (p div 8)"
    using assms by (simp add: word_unat_eq_iff drop_bit_eq_div unat_div u unat_of_nat)
  have "(of_nat p AND 7 :: u64) = take_bit 3 (of_nat p)" by (simp add: take_bit_eq_mask mask_eq_exp_minus_1)
  then have "unat (of_nat p AND 7 :: u64) = take_bit 3 p" by (simp only: unsigned_take_bit_eq u)
  then show "unat (of_nat p AND 7 :: u64) mod 64 = p mod 8" by (simp add: take_bit_eq_mod)
qed

text \<open>The code between the saving and the restoring of the registers.\<close>

lemma stub_body_exec:
  fixes O1 :: mce_offsets and l :: location and s :: cpu
  defines "ro \<equiv> of_nat (read_pos_bits_offset O1)" and "mo \<equiv> of_nat (offsetof_msk_len O1)"
    and "ms \<equiv> of_nat (msk_start_offset O1)"
  defines "T \<equiv> load (cmem s) (regs s Rsp) 8 + slot_offset l"
  assumes code: "apply_mask bits n = Some code" and n: "n \<le> 8" "bits \<le> 8 * n"
    and al: "xor_width bits n + p mod 8 \<le> 8 * n" and p: "p + bits < 2 ^ 32" "8 * ml < 2 ^ 32"
    and rp: "load (cmem s) (addr + ro) 4 = of_nat p" and lm: "load (cmem s) (addr + mo) 4 = of_nat ml"
    and dj: "disjoint (addr + mo) 4 T n"
  shows "\<exists>s'. exec E (load_mask O1 addr n @ slot_address l @ code @ advance_read_pos O1 bits) s = Some s' \<and>
    (\<forall>r. r \<notin> set SCRATCH \<longrightarrow> regs s' r = regs s r) \<and>
    cmem s' = store (store (cmem s) T n (load (cmem s) T n XOR chunk_at (cmem s) (addr + ms) p (xor_width bits n)))
      (addr + ro) 4 (of_nat (min (p + bits) (8 * ml)))"
proof -
  have p32: "p < 2 ^ 32" using p(1) by simp
  let ?c = "chunk_at (cmem s) (addr + ms) p (xor_width bits n)"
  obtain s1 where s1: "exec E (load_mask O1 addr n) s = Some s1" "cmem s1 = cmem s"
    "regs s1 = (regs s)(Rax := addr, Rbx := of_nat p, Rdx := of_nat (p div 8), Rcx := of_nat p AND 7,
      R11 := drop_bit (p mod 8) (write_part n (regs s R11) (load (cmem s) (addr + of_nat (p div 8) + ms) n)))"
    using load_mask_exec [of E O1 addr n s] rp u32_pos_parts [OF p32] by (auto simp: ro_def ms_def)
  obtain s2 where s2: "exec E (slot_address l) s1 = Some s2" "cmem s2 = cmem s" "regs s2 = (regs s1)(Rdx := T)"
    using slot_address_exec [of E l s1] s1 by (auto simp: T_def)
  have "take_bit (xor_width bits n) (regs s2 R11) = ?c"
    using chunk_at_read [OF al n(1), of "regs s R11" "cmem s" "addr + ms"] s2(3) s1(3)
    by (simp add: add.assoc add.commute add.left_commute)
  then obtain s3 where s3: "exec E code s2 = Some s3" "\<And>r. r \<noteq> R11 \<Longrightarrow> regs s3 r = regs s2 r"
    "cmem s3 = store (cmem s) T n (load (cmem s) T n XOR ?c)"
    using apply_mask_exec [OF code n, of E s2] s2(2,3) by auto
  have "load (cmem s3) (addr + mo) 4 = of_nat ml"
    unfolding s3(3) using load_store_disjoint [OF dj, of "cmem s"] lm by simp
  then obtain s4 where s4: "exec E (advance_read_pos O1 bits) s3 = Some s4"
    "\<And>r. r \<noteq> Rbx \<Longrightarrow> r \<noteq> Rcx \<Longrightarrow> regs s4 r = regs s3 r"
    "cmem s4 = store (cmem s3) (addr + ro) 4 (of_nat (min (p + bits) (8 * ml)))"
    using advance_exec [of s3 addr p bits ml O1 E] p s3(2) [of Rax] s3(2) [of Rbx] s2(3) s1(3)
    by (auto simp: mo_def ro_def)
  have "regs s4 r = regs s r" if "r \<notin> set SCRATCH" for r
    using that s4(2) s3(2) s2(3) s1(3) by (simp add: SCRATCH_def)
  then show ?thesis using s1(1) s2(1) s3(1,3) s4(1,3) by (simp add: exec_append)
qed

lemma load_outside:
  assumes "\<And>x. \<not> in_region B N x \<Longrightarrow> m x = m' x" "disjoint a k B N" "k \<le> 8"
  shows "load m a k = load m' a k"
  by (rule load_cong) (use assms in \<open>auto simp: disjoint_def\<close>)

lemma chunk_at_outside:
  assumes "\<And>x. \<not> in_region B N x \<Longrightarrow> m x = m' x" "disjoint (a + of_nat (p div 8)) n B N"
    and "w + p mod 8 \<le> 8 * n" "n \<le> 8"
  shows "chunk_at m a p w = chunk_at m' a p w"
proof -
  have "load m (a + of_nat (p div 8)) n = load m' (a + of_nat (p div 8)) n"
    by (rule load_outside [OF _ assms(2,4)]) (rule assms(1))
  then show ?thesis
    unfolding chunk_at_read [OF assms(3,4), of 0 m a, symmetric] chunk_at_read [OF assms(3,4), of 0 m' a, symmetric]
    by simp
qed

text \<open>
  The memory after a stub has mutated the value of \<open>n\<close> bytes at \<open>T\<close> with the chunk at bit \<open>p\<close> of the
  mask of the entry at \<open>addr\<close>, and has moved the read position.
\<close>

definition mutated_memory :: "mce_offsets \<Rightarrow> u64 \<Rightarrow> u64 \<Rightarrow> nat \<Rightarrow> nat \<Rightarrow> nat \<Rightarrow> nat \<Rightarrow> memory \<Rightarrow> memory" where
  "mutated_memory O1 addr T bits n p ml m =
     store (store m T n (load m T n XOR chunk_at m (addr + of_nat (msk_start_offset O1)) p (xor_width bits n)))
       (addr + of_nat (read_pos_bits_offset O1)) 4 (of_nat (min (p + bits) (8 * ml)))"

text \<open>
  What a stub relies on: the entry and its fields in memory, a read position inside the mask (and on a
  byte for chunks of whole bytes), and that the stack below the stub, the entry and the value do not
  overlap.
\<close>

definition stub_ready :: "mce_offsets \<Rightarrow> u64 \<Rightarrow> u64 \<Rightarrow> nat \<Rightarrow> nat \<Rightarrow> nat \<Rightarrow> nat \<Rightarrow> cpu \<Rightarrow> bool" where
  "stub_ready O1 addr T bits n p ml s \<longleftrightarrow>
     load (cmem s) (addr + of_nat (read_pos_bits_offset O1)) 4 = of_nat p \<and>
     load (cmem s) (addr + of_nat (offsetof_msk_len O1)) 4 = of_nat ml \<and>
     p \<le> 8 * ml \<and> ml \<le> MAX_MASK_LEN \<and> (bits mod 8 = 0 \<longrightarrow> p mod 8 = 0) \<and>
     read_pos_bits_offset O1 + 4 \<le> msk_start_offset O1 \<and> offsetof_msk_len O1 + 4 \<le> msk_start_offset O1 \<and>
     msk_start_offset O1 + ml + 8 \<le> 2 ^ 64 \<and>
     disjoint addr (msk_start_offset O1 + ml + 8) (regs s Rsp - 48) 56 \<and>
     disjoint T n (regs s Rsp - 48) 56 \<and> disjoint addr (msk_start_offset O1) T n"

lemma disjoint_sub2: "disjoint a N b 56 \<Longrightarrow> disjoint a N b 48"
  by (auto simp: disjoint_def in_region_def)

lemma stub_ready_bounds:
  assumes "mask_read_size bits = Some n" "0 < bits" "bits \<le> 64" "stub_ready O1 addr T bits n p ml s"
  shows "n \<le> 8" "bits \<le> 8 * n" "xor_width bits n + p mod 8 \<le> 8 * n" "p + bits < 2 ^ 32" "8 * ml < 2 ^ 32"
proof -
  note R = assms(4) [unfolded stub_ready_def]
  show "n \<le> 8" "bits \<le> 8 * n" using mask_read_size_Some(1,2) [OF assms(1-3)] by auto
  have "p mod 8 < 8" "bits mod 8 = 0 \<Longrightarrow> p mod 8 = 0" "8 \<le> 8 * n"
    using R mask_read_size_Some(1) [OF assms(1-3)] by auto
  then show "xor_width bits n + p mod 8 \<le> 8 * n"
    using mask_read_size_Some(3) [OF assms(1-3)] by (cases "bits mod 8 = 0"; cases "bits = 1") (auto simp: xor_width_def)
  show "p + bits < 2 ^ 32" "8 * ml < 2 ^ 32" using R assms(3) by (auto simp: MAX_MASK_LEN_def)
qed

lemma stub_ready_disjoint:
  assumes "n \<le> 8" "stub_ready O1 addr T bits n p ml s"
  shows "disjoint T n (regs s Rsp - 48) 48"
    "disjoint (addr + of_nat (read_pos_bits_offset O1)) 4 (regs s Rsp - 48) 48"
    "disjoint (addr + of_nat (offsetof_msk_len O1)) 4 (regs s Rsp - 48) 48"
    "disjoint (addr + of_nat (offsetof_msk_len O1)) 4 T n"
    "disjoint (addr + of_nat (msk_start_offset O1) + of_nat (p div 8)) n (regs s Rsp - 48) 48"
proof -
  let ?B = "regs s Rsp - 48"
  note R = assms(2) [unfolded stub_ready_def]
  have dj: "disjoint addr (msk_start_offset O1 + ml + 8) ?B 48" using R disjoint_sub2 by blast
  show "disjoint T n ?B 48" using R disjoint_sub2 by blast
  show "disjoint (addr + of_nat (read_pos_bits_offset O1)) 4 ?B 48" "disjoint (addr + of_nat (offsetof_msk_len O1)) 4 ?B 48"
    "disjoint (addr + of_nat (offsetof_msk_len O1)) 4 T n"
    "disjoint (addr + of_nat (msk_start_offset O1) + of_nat (p div 8)) n ?B 48"
    using R disjoint_sub [OF dj, of "read_pos_bits_offset O1" 4] disjoint_sub [OF dj, of "offsetof_msk_len O1" 4]
      disjoint_sub [of addr "msk_start_offset O1" T n "offsetof_msk_len O1" 4]
      disjoint_sub [OF dj, of "msk_start_offset O1 + p div 8" n] assms(1) by (auto simp: add.assoc)
qed

text \<open>The body runs in the state \<open>s1\<close> that the saving of the registers makes of the stub's entry state \<open>s\<close>.\<close>

lemma stub_body_saved:
  fixes s s1 :: cpu and l :: location and spill :: dwarf_reg
  defines "T \<equiv> regs s spill + slot_offset l" and "B \<equiv> regs s Rsp - 48"
  assumes code: "apply_mask bits n = Some code" "mask_read_size bits = Some n" "0 < bits" "bits \<le> 64"
    and ready: "stub_ready O1 addr T bits n p ml s"
    and s1: "regs s1 = (regs s)(Rsp := B)" "\<And>x. \<not> in_region B 48 x \<Longrightarrow> cmem s1 x = cmem s x"
      "load (cmem s1) B 8 = regs s spill"
  shows "\<exists>s2. exec E (load_mask O1 addr n @ slot_address l @ code @ advance_read_pos O1 bits) s1 = Some s2 \<and>
    (\<forall>r. r \<notin> set SCRATCH \<longrightarrow> regs s2 r = regs s1 r) \<and> (\<forall>x. in_region B 48 x \<longrightarrow> cmem s2 x = cmem s1 x) \<and>
    cmem s2 = mutated_memory O1 addr T bits n p ml (cmem s1)"
proof -
  note b = stub_ready_bounds [OF code(2-4) ready]
  note d = stub_ready_disjoint [OF b(1) ready, folded B_def]
  have T: "load (cmem s1) (regs s1 Rsp) 8 + slot_offset l = T" using s1(1,3) by (simp add: T_def)
  have f: "load (cmem s1) (addr + of_nat (read_pos_bits_offset O1)) 4 = of_nat p"
    "load (cmem s1) (addr + of_nat (offsetof_msk_len O1)) 4 = of_nat ml"
    using load_outside [OF s1(2) d(2)] load_outside [OF s1(2) d(3)] ready by (simp_all add: stub_ready_def)
  note sb = stub_body_exec [OF code(1) b f, of l E, unfolded T]
  obtain s2 where s2: "exec E (load_mask O1 addr n @ slot_address l @ code @ advance_read_pos O1 bits) s1 = Some s2"
    "\<forall>r. r \<notin> set SCRATCH \<longrightarrow> regs s2 r = regs s1 r" "cmem s2 = mutated_memory O1 addr T bits n p ml (cmem s1)"
    using sb [OF d(4)] unfolding mutated_memory_def by blast
  have "cmem s2 x = cmem s1 x" if "in_region B 48 x" for x
  proof -
    have "\<not> in_region T n x" "\<not> in_region (addr + of_nat (read_pos_bits_offset O1)) 4 x"
      using that d(1,2) unfolding disjoint_def by blast+
    then show ?thesis by (simp add: s2(3) mutated_memory_def)
  qed
  with s2 show ?thesis by auto
qed

lemma mutated_memory_outside:
  assumes "mask_read_size bits = Some n" "0 < bits" "bits \<le> 64" "stub_ready O1 addr T bits n p ml s"
    and m: "\<And>x. \<not> in_region (regs s Rsp - 48) 48 x \<Longrightarrow> m x = cmem s x"
    and x: "\<not> in_region (regs s Rsp - 48) 48 x"
  shows "mutated_memory O1 addr T bits n p ml m x = mutated_memory O1 addr T bits n p ml (cmem s) x"
proof -
  note b = stub_ready_bounds [OF assms(1-4)]
  note d = stub_ready_disjoint [OF b(1) assms(4)]
  have "load m T n = load (cmem s) T n" by (rule load_outside [OF _ d(1) b(1)]) (rule m)
  moreover have "chunk_at m (addr + of_nat (msk_start_offset O1)) p (xor_width bits n) =
      chunk_at (cmem s) (addr + of_nat (msk_start_offset O1)) p (xor_width bits n)"
    by (rule chunk_at_outside [OF _ d(5) b(3,1)]) (rule m)
  ultimately show ?thesis using m [OF x] by (simp add: mutated_memory_def store_def)
qed

lemma mutation_code_exec:
  fixes s :: cpu and l :: location
  assumes r: "spill \<noteq> Rsp" and code: "apply_mask bits n = Some code" "mask_read_size bits = Some n" "0 < bits" "bits \<le> 64"
    and ready: "stub_ready O1 addr (regs s spill + slot_offset l) bits n p ml s"
  shows "\<exists>s'. exec E (map PUSH (SCRATCH @ [spill]) @ (load_mask O1 addr n @ slot_address l @ code @ advance_read_pos O1 bits) @
      map POP (rev (SCRATCH @ [spill]))) s = Some s' \<and> regs s' = regs s \<and>
    (\<forall>x. \<not> in_region (regs s Rsp - 48) 48 x \<longrightarrow>
       cmem s' x = mutated_memory O1 addr (regs s spill + slot_offset l) bits n p ml (cmem s) x)"
proof -
  let ?T = "regs s spill + slot_offset l" and ?B = "regs s Rsp - 48" and ?rs = "SCRATCH @ [spill]"
  let ?code = "load_mask O1 addr n @ slot_address l @ code @ advance_read_pos O1 bits"
  have len: "8 * length ?rs = 48" by (simp add: SCRATCH_def)
  have body: "\<exists>s2. exec E ?code s1 = Some s2 \<and> (\<forall>r. r = Rsp \<or> r \<notin> set ?rs \<longrightarrow> regs s2 r = regs s1 r) \<and>
      (\<forall>x. in_region ?B 48 x \<longrightarrow> cmem s2 x = cmem s1 x) \<and> cmem s2 = mutated_memory O1 addr ?T bits n p ml (cmem s1)"
    if s1: "regs s1 = (regs s)(Rsp := ?B)" "\<forall>x. \<not> in_region ?B 48 x \<longrightarrow> cmem s1 x = cmem s x"
      "\<forall>i<length ?rs. ?rs ! i \<noteq> Rsp \<longrightarrow> load (cmem s1) (?B + of_nat (48 - 8 * (i + 1))) 8 = regs s (?rs ! i)" for s1
  proof -
    have "load (cmem s1) (?B + of_nat (48 - 8 * (5 + 1))) 8 = regs s (?rs ! 5)"
      by (rule s1(3) [rule_format]) (simp_all add: SCRATCH_def r)
    then have "load (cmem s1) ?B 8 = regs s spill" by (simp add: SCRATCH_def)
    then show ?thesis using stub_body_saved [OF code ready s1(1), of E] s1(2) by (auto simp: SCRATCH_def)
  qed
  obtain m s3 where s3: "exec E (map PUSH ?rs @ ?code @ map POP (rev ?rs)) s = Some s3" "regs s3 = regs s"
    "\<And>x. \<not> in_region ?B 48 x \<Longrightarrow> m x = cmem s x" "cmem s3 = mutated_memory O1 addr ?T bits n p ml m"
  proof -
    note sr = save_restore [of ?rs s E ?code "\<lambda>m m'. m' = mutated_memory O1 addr ?T bits n p ml m",
        unfolded len of_nat_numeral]
    have "(48 :: nat) < 2 ^ 64" by simp
    from sr [OF this body] that show thesis by blast
  qed
  then show ?thesis using mutated_memory_outside [OF code(2-4) ready s3(3)] by auto
qed

lemma gen_mutation_SomeD:
  assumes "gen_mutation O1 addr e = Some (Inr t)" "dwarf_try_from (dwarf_regnum (md_spill_slot (mce_md e))) = Some spill"
    and "chunk_size_bits e = Some b"
  obtains n code where "mask_read_size (unat b) = Some n" "apply_mask (unat b) n = Some code" "unat b \<le> 64" "spill \<noteq> Rsp"
    "template_code t = (map PUSH (SCRATCH @ [spill]) @ (load_mask O1 addr n @ slot_address (md_spill_slot (mce_md e)) @
       code @ advance_read_pos O1 (unat b)) @ map POP (rev (SCRATCH @ [spill]))) @ [RET]"
proof -
  have "gen_mutation_reg_and_direct O1 addr e = Some (Inr t)"
    using assms(1) by (auto simp: gen_mutation_def split: location_type.splits if_splits)
  then show thesis
    using assms(2,3) that
    by (auto simp: gen_mutation_reg_and_direct_def template_new_def template_code_def Let_def split: if_splits bind_splits)
qed

lemma mutated_memory_return:
  assumes "stub_ready O1 addr T bits n p ml s" "\<And>x. \<not> in_region (regs s Rsp - 48) 48 x \<Longrightarrow> m x = mutated_memory O1 addr T bits n p ml (cmem s) x"
  shows "load m (regs s Rsp) 8 = load (cmem s) (regs s Rsp) 8"
proof (rule load_cong)
  fix x assume x: "in_region (regs s Rsp) 8 x"
  let ?B = "regs s Rsp - 48"
  have sp: "regs s Rsp = ?B + of_nat 48" by simp
  have i: "48 \<le> unat (x - ?B)" "unat (x - ?B) < 56" using region_offset [of 48 8 ?B x] x sp by simp_all
  then have "in_region ?B 56 x" by (simp add: in_region_def)
  then have "\<not> in_region T n x" "\<not> in_region addr (msk_start_offset O1 + ml + 8) x"
    using assms(1) unfolding stub_ready_def disjoint_def by blast+
  moreover from this(2) have "\<not> in_region (addr + of_nat (read_pos_bits_offset O1)) 4 x"
    using region_sub [of addr "read_pos_bits_offset O1" 4 x "msk_start_offset O1 + ml + 8"] assms(1)
    by (auto simp: stub_ready_def)
  moreover have "\<not> in_region ?B 48 x" using i by (simp add: in_region_def)
  ultimately show "m x = cmem s x" using assms(2) [of x] by (simp add: mutated_memory_def)
qed simp

lemma mutation_stub_exec:
  fixes e :: mce and s :: cpu
  defines "slot \<equiv> md_spill_slot (mce_md e)"
  assumes gen: "gen_mutation O1 addr e = Some (Inr t)" "dwarf_try_from (dwarf_regnum slot) = Some spill"
      "chunk_size_bits e = Some b" "0 < unat b" "mask_read_size (unat b) = Some n"
    and ready: "stub_ready O1 addr (regs s spill + slot_offset slot) (unat b) n p ml s"
  shows "\<exists>s'. exec E (template_code t) s = Some s' \<and>
    regs s' = (regs s)(Rsp := regs s Rsp + 8, Rip := load (cmem s) (regs s Rsp) 8) \<and>
    (\<forall>x. \<not> in_region (regs s Rsp - 48) 48 x \<longrightarrow>
       cmem s' x = mutated_memory O1 addr (regs s spill + slot_offset slot) (unat b) n p ml (cmem s) x)"
proof -
  obtain n' code where c: "mask_read_size (unat b) = Some n'" "apply_mask (unat b) n' = Some code" "unat b \<le> 64" "spill \<noteq> Rsp"
    "template_code t = (map PUSH (SCRATCH @ [spill]) @ (load_mask O1 addr n' @ slot_address slot @
       code @ advance_read_pos O1 (unat b)) @ map POP (rev (SCRATCH @ [spill]))) @ [RET]"
    using gen_mutation_SomeD [OF gen(1) gen(2) [unfolded slot_def] gen(3)] unfolding slot_def by blast
  have n: "n' = n" using c(1) gen(5) by simp
  obtain s1 where s1: "exec E (map PUSH (SCRATCH @ [spill]) @ (load_mask O1 addr n @ slot_address slot @
       code @ advance_read_pos O1 (unat b)) @ map POP (rev (SCRATCH @ [spill]))) s = Some s1" "regs s1 = regs s"
    "\<And>x. \<not> in_region (regs s Rsp - 48) 48 x \<Longrightarrow>
       cmem s1 x = mutated_memory O1 addr (regs s spill + slot_offset slot) (unat b) n p ml (cmem s) x"
    using mutation_code_exec [OF c(4) c(2) [unfolded n] gen(5,4) c(3) ready, of E] by blast
  have ret: "load (cmem s1) (regs s Rsp) 8 = load (cmem s) (regs s Rsp) 8"
    by (rule mutated_memory_return [OF ready]) (rule s1(3))
  have "exec E [RET] s1 = Some (s1\<lparr>regs := (regs s)(Rsp := regs s Rsp + 8, Rip := load (cmem s) (regs s Rsp) 8)\<rparr>)"
    by (simp add: Let_def get_reg_def s1(2) ret fun_upd_twist)
  then have "exec E (template_code t) s =
      Some (s1\<lparr>regs := (regs s)(Rsp := regs s Rsp + 8, Rip := load (cmem s) (regs s Rsp) 8)\<rparr>)"
    by (simp only: c(5) n exec_append [where js = "[RET]"] s1(1) bind.simps)
  then show ?thesis using s1(3) by auto
qed

lemma mutated_memory_loads:
  assumes "n \<le> 8" "stub_ready O1 addr T bits n p ml s"
    and m: "\<And>x. \<not> in_region (regs s Rsp - 48) 48 x \<Longrightarrow> m x = mutated_memory O1 addr T bits n p ml (cmem s) x"
    and w: "xor_width bits n \<le> 8 * n" "8 * ml < 2 ^ 32" "p + bits < 2 ^ 32"
  shows "load m T n = load (cmem s) T n XOR chunk_at (cmem s) (addr + of_nat (msk_start_offset O1)) p (xor_width bits n)"
    "load m (addr + of_nat (read_pos_bits_offset O1)) 4 = of_nat (min (p + bits) (8 * ml))"
proof -
  let ?R = "addr + of_nat (read_pos_bits_offset O1)" and ?v = "of_nat (min (p + bits) (8 * ml)) :: u64"
  let ?c = "chunk_at (cmem s) (addr + of_nat (msk_start_offset O1)) p (xor_width bits n)"
  note d = stub_ready_disjoint [OF assms(1,2)]
  have RT: "disjoint T n ?R 4"
    using assms(2) disjoint_sym [OF disjoint_sub [of addr "msk_start_offset O1" T n "read_pos_bits_offset O1" 4]]
    by (simp add: stub_ready_def)
  have "load m T n = load (mutated_memory O1 addr T bits n p ml (cmem s)) T n"
    by (rule load_outside [OF _ d(1) assms(1)]) (rule m)
  also have "\<dots> = take_bit (8 * n) (load (cmem s) T n XOR ?c)"
    unfolding mutated_memory_def load_store_disjoint [OF RT assms(1)] by (rule load_store_same [OF assms(1)])
  also have "\<dots> = load (cmem s) T n XOR ?c"
    using w(1) by (auto simp: bit_eq_iff bit_take_bit_iff bit_xor_iff bit_load chunk_at_def)
  finally show "load m T n = load (cmem s) T n XOR ?c" .
  have "load m ?R 4 = load (mutated_memory O1 addr T bits n p ml (cmem s)) ?R 4"
    by (rule load_outside [OF _ d(2)]) (use m in simp_all)
  then show "load m ?R 4 = ?v"
    unfolding mutated_memory_def using load_store_same [of 4 _ ?R ?v] take_bit_u32 [of "min (p + bits) (8 * ml)"] w(2) by simp
qed

section \<open>Calls\<close>


















section \<open>Properties\<close>

text \<open>
  C35: The code that \<^verbatim>\<open>gen_mutation\<close> emits for an entry returns to its caller with every register as
  it was, has XORed the value in the spill slot with the chunk of the mask at the read position, has
  moved the read position by one chunk, at most to the end of the mask, and has changed no other
  memory but the 48 bytes below the stack pointer.
\<close>

theorem mutation_stub_correct:
  fixes e :: mce and s :: cpu
  defines "slot \<equiv> md_spill_slot (mce_md e)"
  assumes gen: "gen_mutation O1 addr e = Some (Inr t)" "dwarf_try_from (dwarf_regnum slot) = Some spill"
      "chunk_size_bits e = Some b" "0 < unat b" "mask_read_size (unat b) = Some n"
    and T: "T = regs s spill + slot_offset slot" and ready: "stub_ready O1 addr T (unat b) n p ml s"
  shows "\<exists>s'. exec E (template_code t) s = Some s' \<and>
    regs s' = (regs s)(Rsp := regs s Rsp + 8, Rip := load (cmem s) (regs s Rsp) 8) \<and>
    load (cmem s') T n = load (cmem s) T n XOR chunk_at (cmem s) (addr + of_nat (msk_start_offset O1)) p (xor_width (unat b) n) \<and>
    load (cmem s') (addr + of_nat (read_pos_bits_offset O1)) 4 = of_nat (min (p + unat b) (8 * ml)) \<and>
    (\<forall>x. in_region (regs s Rsp - 48) 48 x \<or> in_region T n x \<or> in_region (addr + of_nat (read_pos_bits_offset O1)) 4 x \<or>
       cmem s' x = cmem s x)"
proof -
  obtain s' where s': "exec E (template_code t) s = Some s'"
    "regs s' = (regs s)(Rsp := regs s Rsp + 8, Rip := load (cmem s) (regs s Rsp) 8)"
    "\<And>x. \<not> in_region (regs s Rsp - 48) 48 x \<Longrightarrow> cmem s' x = mutated_memory O1 addr T (unat b) n p ml (cmem s) x"
    using mutation_stub_exec [OF gen(1) gen(2) [unfolded slot_def] gen(3-5) ready [unfolded T slot_def], of E]
    unfolding T slot_def by blast
  have b: "unat b \<le> 64" using gen_mutation_SomeD [OF gen(1) gen(2) [unfolded slot_def] gen(3)] by blast
  note bounds = stub_ready_bounds [OF gen(5,4) b ready]
  note L = mutated_memory_loads [OF bounds(1) ready s'(3) _ bounds(5,4)]
  have "cmem s' x = cmem s x" if "\<not> in_region (regs s Rsp - 48) 48 x" "\<not> in_region T n x"
      "\<not> in_region (addr + of_nat (read_pos_bits_offset O1)) 4 x" for x
    using s'(3) [OF that(1)] that(2,3) by (simp add: mutated_memory_def)
  then show ?thesis using s'(1,2) L bounds(3) by (intro exI [of _ s']) auto
qed

text \<open>
  A process for the examples: the entry of \<^const>\<open>sample_mce\<close> at \<open>0x10000\<close>, a 4-byte value at \<open>0x7010\<close> (16
  bytes above what \<^verbatim>\<open>rbp\<close> points to) and a stack at \<open>0x8000\<close> with the return address \<open>0x40\<close>.
\<close>

definition sample_offsets :: mce_offsets where
  "sample_offsets = \<lparr>read_pos_bits_offset = 40, offsetof_msk_len = 44, msk_start_offset = 48\<rparr>"

definition sample_cpu :: cpu where
  "sample_cpu = \<lparr>regs = (\<lambda>_. 0)(Rsp := 0x8000, Rbp := 0x7000),
     cmem = (\<lambda>_. 0)(0x1002C := 4, 0x10030 := 1, 0x10031 := 2, 0x10032 := 3, 0x10033 := 4, 0x7010 := 0xFF, 0x8000 := 0x40),
     cf = False, zf = False\<rparr>"

definition sample_env :: code_env where
  "sample_env = \<lparr>callee = (\<lambda>_. Some), ret_addr = 0\<rparr>"

lemma sample_stub_ready: "stub_ready sample_offsets 0x10000 0x7010 32 4 0 4 sample_cpu"
proof -
  have "load (cmem sample_cpu) (0x10000 + 40) 4 = 0" by code_simp
  moreover have "load (cmem sample_cpu) (0x10000 + 44) 4 = 4" by code_simp
  ultimately show ?thesis
    by (auto simp: stub_ready_def sample_offsets_def MAX_MASK_LEN_def sample_cpu_def
        intro!: disjoint_by_distance disjoint_sym [OF disjoint_by_distance])
qed

lemma sample_stub_facts:
  "dwarf_try_from (dwarf_regnum (md_spill_slot (mce_md (sample_mce 7)))) = Some Rbp"
  "chunk_size_bits (sample_mce 7) = Some 32" "mask_read_size (unat (32 :: u16)) = Some 4"
  "0x7010 = regs sample_cpu Rbp + slot_offset (md_spill_slot (mce_md (sample_mce 7)))"
  "\<exists>t. gen_mutation sample_offsets 0x10000 (sample_mce 7) = Some (Inr t)"
proof -
  have sl: "md_spill_slot (mce_md (sample_mce 7)) = \<lparr>loc_type = LT_Direct, loc_size = 8, dwarf_regnum = 6, offset_or_constant = 16\<rparr>"
    by (simp add: sample_mce_def)
  show 1: "dwarf_try_from (dwarf_regnum (md_spill_slot (mce_md (sample_mce 7)))) = Some Rbp"
    by (simp add: sl dwarf_try_from_def DWARF_REGS_def)
  show 2: "chunk_size_bits (sample_mce 7) = Some 32" by (simp add: chunk_size_bits_def sample_mce_def try_u16_def)
  show 3: "mask_read_size (unat (32 :: u16)) = Some 4" by code_simp
  show "0x7010 = regs sample_cpu Rbp + slot_offset (md_spill_slot (mce_md (sample_mce 7)))"
    by (simp add: sl slot_offset_def sample_cpu_def)
  show "\<exists>t. gen_mutation sample_offsets 0x10000 (sample_mce 7) = Some (Inr t)"
    using 1 2 3 by (simp add: gen_mutation_def gen_mutation_reg_and_direct_def sl Let_def apply_mask_def sample_mce_facts)
qed

theorem mutation_stub_correct_witness:
  "\<exists>t s'. gen_mutation sample_offsets 0x10000 (sample_mce 7) = Some (Inr t) \<and>
    exec sample_env (template_code t) sample_cpu = Some s' \<and> regs s' Rip = 0x40 \<and> regs s' Rsp = 0x8008 \<and> regs s' Rax = 0 \<and>
    load (cmem s') 0x7010 4 = 0x040302FE \<and> load (cmem s') 0x10028 4 = 32"
proof -
  obtain t where t: "gen_mutation sample_offsets 0x10000 (sample_mce 7) = Some (Inr t)" using sample_stub_facts(5) by blast
  have r: "stub_ready sample_offsets 0x10000 0x7010 (unat (32 :: u16)) 4 0 4 sample_cpu" using sample_stub_ready by simp
  have "load (cmem sample_cpu) 0x7010 4 = 0xFF" "load (cmem sample_cpu) 0x10030 8 = 0x04030201"
    "load (cmem sample_cpu) 0x8000 8 = 0x40" by code_simp+
  then have v: "load (cmem sample_cpu) 0x7010 4 XOR chunk_at (cmem sample_cpu) (0x10000 + of_nat (msk_start_offset sample_offsets)) 0
      (xor_width (unat (32 :: u16)) 4) = 0x040302FE" "load (cmem sample_cpu) (regs sample_cpu Rsp) 8 = 0x40"
    by (simp_all add: chunk_at_def sample_offsets_def xor_width_def sample_cpu_def)
  obtain s' where s': "exec sample_env (template_code t) sample_cpu = Some s'"
    "regs s' = (regs sample_cpu)(Rsp := regs sample_cpu Rsp + 8, Rip := 0x40)" "load (cmem s') 0x7010 4 = 0x040302FE"
    "load (cmem s') (0x10000 + of_nat (read_pos_bits_offset sample_offsets)) 4 = of_nat (min (0 + unat (32 :: u16)) (8 * 4))"
    using mutation_stub_correct [OF t sample_stub_facts(1,2) _ sample_stub_facts(3,4) r, of sample_env] unfolding v by auto
  then have "regs s' Rip = 0x40" "regs s' Rsp = 0x8008" "regs s' Rax = 0" "load (cmem s') 0x10028 4 = 32"
    by (simp_all add: sample_cpu_def sample_offsets_def)
  with t s'(1,3) show ?thesis by blast
qed







text \<open>
  Which values a stub can mutate: for 1 to 64 bits the stub XORs at least the bits of the value
  and stays inside the register that it reads, but for values of 24, 40, 48 and 56 bits it XORs more
  bits than the value has.
\<close>

theorem mutation_width:
  assumes "mask_read_size bits = Some n" "0 < bits" "bits \<le> 64"
  shows "bits \<le> xor_width bits n \<and> xor_width bits n \<le> 8 * n \<and> 8 * n \<le> 64 \<and> (xor_width bits n = bits \<longleftrightarrow> bits \<notin> {24, 40, 48, 56})"
proof -
  have "list_all (\<lambda>b. case mask_read_size b of None \<Rightarrow> True | Some n \<Rightarrow>
      b \<le> xor_width b n \<and> xor_width b n \<le> 8 * n \<and> 8 * n \<le> 64 \<and> (xor_width b n = b \<longleftrightarrow> b \<notin> {24, 40, 48, 56})) [1..<65]"
    by code_simp
  moreover have "bits \<in> set [1..<65]" using assms(2,3) by simp
  ultimately show ?thesis using assms(1) unfolding list_all_iff by fastforce
qed

theorem mutation_width_witness:
  "mask_read_size 24 = Some 4 \<and> xor_width 24 4 \<noteq> 24 \<and> mask_read_size 13 = Some 4 \<and> xor_width 13 4 = 13"
proof -
  have m: "mask_read_size 24 = Some 4" "mask_read_size 13 = Some 4" by code_simp+
  show ?thesis using mutation_width [OF m(1)] mutation_width [OF m(2)] m by simp
qed

end
