(* ===== verification/Jit.thy ===== *)
theory Jit
  imports Process_Memory Jit_Code
begin

text \<open>
  The just-in-time compiler of the agent (\<^verbatim>\<open>generator/agent/src/jit/jit.rs\<close>): the cache that holds
  generated code, the patch points with their original bytes, and how code is written to both. The
  assembler (Keystone), \<^verbatim>\<open>mprotect\<close>, \<^verbatim>\<open>pipe\<close> and \<^verbatim>\<open>write\<close> are parameters; a panic, a failed assertion and a
  write to memory that is not writable are \<open>None\<close>.
\<close>

definition NOP_PATTERN :: "u8 list" where
  "NOP_PATTERN = [0x66, 0x66, 0x66, 0x66, 0x66, 0x2e, 0x66, 0x0f, 0x1f, 0x84, 0x00, 0x00, 0x02, 0x00, 0x00, 0x66,
     0x66, 0x66, 0x66, 0x66, 0x2e, 0x66, 0x0f, 0x1f, 0x84, 0x00, 0x00, 0x02, 0x00, 0x00, 0x66, 0x90]"

record os =
  os_mprotect :: mprotect
  os_pipe :: int
  os_write :: "map_range list \<Rightarrow> u64 \<Rightarrow> nat \<Rightarrow> int"
  ks_asm :: "string \<Rightarrow> u8 list option"

text \<open>A loop over a list whose body may panic.\<close>

fun fold_opt :: "('a \<Rightarrow> 's \<Rightarrow> 's option) \<Rightarrow> 'a list \<Rightarrow> 's \<Rightarrow> 's option" where
  "fold_opt f [] s = Some s"
| "fold_opt f (x # xs) s = do { s \<leftarrow> f x s; fold_opt f xs s }"

section \<open>Patchable locations\<close>

record patchable_location =
  pl_addr :: u64
  pl_size :: nat
  reset_value :: "u8 list"

definition location_new :: "u64 \<Rightarrow> nat \<Rightarrow> patchable_location option" where
  "location_new addr sz = do {
     require (sz = PATCH_POINT_SIZE);
     Some \<lparr>pl_addr = addr, pl_size = sz, reset_value = replicate PATCH_POINT_SIZE 0\<rparr> }"

definition location_reset :: "patchable_location \<Rightarrow> process \<Rightarrow> process option" where
  "location_reset l p = write_mem (pl_addr l) (take (pl_size l) (reset_value l)) p"

definition copy_default_from_addr :: "os \<Rightarrow> process \<Rightarrow> patchable_location \<Rightarrow> (unit + patchable_location) option" where
  "copy_default_from_addr os p l = do {
     ok \<leftarrow> is_readable_mem_range (os_pipe os) (os_write os (kernel_maps p)) (pl_addr l) (pl_size l);
     Some (if \<not> ok then Inl ()
           else Inr (l\<lparr>reset_value := get_bytes (pmem p) (pl_addr l) (pl_size l)\<rparr>)) }"

section \<open>The code cache\<close>

definition DEFAULT_CODE_CACHE_SIZE :: nat where
  "DEFAULT_CODE_CACHE_SIZE = 1024 * 1024 * 64"

record code_cache =
  cc_buffer :: u64
  cc_size :: nat
  un_start :: u64
  un_len :: nat

text \<open>\<open>buffer\<close> is the result of \<^verbatim>\<open>mmap\<close> and \<open>maps\<close> the mappings after it.\<close>

definition code_cache_new :: "u64 option \<Rightarrow> map_range list \<Rightarrow> nat \<Rightarrow> process \<Rightarrow> (code_cache \<times> process) option" where
  "code_cache_new buffer maps sz p = do {
     buffer \<leftarrow> buffer;
     let p = update_proc_mappings (p\<lparr>kernel_maps := maps\<rparr>);
     Some (\<lparr>cc_buffer = buffer, cc_size = sz, un_start = buffer, un_len = sz\<rparr>, p) }"

definition allocate_slot :: "os \<Rightarrow> nat \<Rightarrow> code_cache \<Rightarrow> process \<Rightarrow> ((u64 \<times> nat) option \<times> code_cache \<times> process) option" where
  "allocate_slot os len c p = do {
     p \<leftarrow> unwrap (mark_enclosing_mapping_rwx (os_mprotect os) (cc_buffer c) p);
     if un_len c < len then Some (None, c, p)
     else Some (Some (un_start c, len), c\<lparr>un_start := un_start c + of_nat len, un_len := un_len c - len\<rparr>, p) }"

definition make_rx :: "os \<Rightarrow> code_cache \<Rightarrow> process \<Rightarrow> process option" where
  "make_rx os c p = unwrap (mark_enclosing_mapping_rx (os_mprotect os) (cc_buffer c) p)"

definition code_cache_reset :: "os \<Rightarrow> code_cache \<Rightarrow> process \<Rightarrow> (code_cache \<times> process) option" where
  "code_cache_reset os c p = do {
     p \<leftarrow> unwrap (mark_enclosing_mapping_rwx (os_mprotect os) (cc_buffer c) p);
     let c = c\<lparr>un_start := cc_buffer c, un_len := cc_size c\<rparr>;
     p \<leftarrow> write_mem (un_start c) (replicate (un_len c) 0) p;
     p \<leftarrow> unwrap (mark_enclosing_mapping_rx (os_mprotect os) (cc_buffer c) p);
     Some (c, p) }"

text \<open>\<open>unmap_ret\<close> is the result of \<^verbatim>\<open>munmap\<close>.\<close>

definition code_cache_drop :: "int \<Rightarrow> code_cache \<Rightarrow> unit option" where
  "code_cache_drop unmap_ret c = require (unmap_ret = 0)"

section \<open>Functions\<close>

record native_function =
  nf_vma :: u64
  nargs :: u64

definition from_fn :: "u64 \<Rightarrow> u64 \<Rightarrow> native_function" where
  "from_fn function_addr n = \<lparr>nf_vma = function_addr, nargs = n\<rparr>"

definition native_args :: "native_function \<Rightarrow> u64" where
  "native_args f = nargs f"

definition native_vma :: "native_function \<Rightarrow> u64" where
  "native_vma f = nf_vma f"

record function_instance =
  fi_asm :: "string list"
  machine_code :: "u8 list"
  fi_vma :: "u64 option"

definition from_assembled_template :: "string list \<Rightarrow> u8 list \<Rightarrow> function_instance" where
  "from_assembled_template asm code = \<lparr>fi_asm = asm, machine_code = code, fi_vma = None\<rparr>"

definition instance_len :: "function_instance \<Rightarrow> nat" where
  "instance_len f = length (machine_code f)"

definition write_safe :: "u64 \<times> nat \<Rightarrow> function_instance \<Rightarrow> process \<Rightarrow> (function_instance \<times> process) option" where
  "write_safe dst f p = do {
     require (length (machine_code f) > 0);
     let f = f\<lparr>fi_vma := Some (fst dst)\<rparr>;
     require (length (machine_code f) \<le> snd dst);
     p \<leftarrow> write_mem (fst dst) (machine_code f) p;
     Some (f, p) }"

definition instance_write :: "u64 \<Rightarrow> function_instance \<Rightarrow> process \<Rightarrow> (function_instance \<times> process) option" where
  "instance_write dst f p = do {
     require (length (machine_code f) \<le> PATCH_POINT_SIZE);
     require (length (machine_code f) > 0);
     require (NOP_PATTERN = get_bytes (pmem p) dst 32);
     let f = f\<lparr>fi_vma := Some dst\<rparr>;
     p \<leftarrow> write_mem dst (replicate PATCH_POINT_SIZE 0x90) p;
     p \<leftarrow> write_mem dst (machine_code f) p;
     Some (f, p) }"

definition instance_vma :: "function_instance \<Rightarrow> u64 option" where
  "instance_vma f = fi_vma f"

section \<open>The compiler\<close>

record jit =
  code_cache_of :: code_cache
  registered_patch_points :: "(u64 \<times> patchable_location) list"

definition jit_new :: "u64 option \<Rightarrow> map_range list \<Rightarrow> process \<Rightarrow> (jit \<times> process) option" where
  "jit_new buffer maps p = do {
     (c, p) \<leftarrow> code_cache_new buffer maps DEFAULT_CODE_CACHE_SIZE p;
     Some (\<lparr>code_cache_of = c, registered_patch_points = []\<rparr>, p) }"

definition snapshot_patch_point :: "os \<Rightarrow> process \<Rightarrow> mce \<Rightarrow> jit \<Rightarrow> jit option" where
  "snapshot_patch_point os p e j = do {
     let addr = md_vma (mce_md e);
     case map_of (registered_patch_points j) addr of
       Some _ \<Rightarrow> Some j
     | None \<Rightarrow> do {
         l \<leftarrow> location_new addr PATCH_POINT_SIZE;
         l \<leftarrow> unwrap (copy_default_from_addr os p l);
         Some (j\<lparr>registered_patch_points := (addr, l) # registered_patch_points j\<rparr>) } }"

definition mark_mappings_rx :: "os \<Rightarrow> jit \<Rightarrow> process \<Rightarrow> process option" where
  "mark_mappings_rx os j p = make_rx os (code_cache_of j) p"

definition reset_point :: "os \<Rightarrow> u64 \<times> patchable_location \<Rightarrow> process \<Rightarrow> process option" where
  "reset_point os e p = do {
     p \<leftarrow> unwrap (mark_enclosing_mapping_rwx (os_mprotect os) (pl_addr (snd e)) p);
     location_reset (snd e) p }"

definition protect_point :: "os \<Rightarrow> u64 \<times> patchable_location \<Rightarrow> process \<Rightarrow> process option" where
  "protect_point os e p = unwrap (mark_enclosing_mapping_rx (os_mprotect os) (pl_addr (snd e)) p)"

definition jit_reset :: "os \<Rightarrow> jit \<Rightarrow> process \<Rightarrow> (jit \<times> process) option" where
  "jit_reset os j p = do {
     p \<leftarrow> fold_opt (reset_point os) (registered_patch_points j) p;
     p \<leftarrow> fold_opt (protect_point os) (registered_patch_points j) p;
     (c, p) \<leftarrow> code_cache_reset os (code_cache_of j) p;
     Some (j\<lparr>code_cache_of := c, registered_patch_points := []\<rparr>, p) }"

text \<open>The text that is assembled: the instructions, one per line.\<close>

fun join_lines :: "string list \<Rightarrow> string" where
  "join_lines [] = []"
| "join_lines [l] = l"
| "join_lines (l # ls) = l @ CHR 0x0A # join_lines ls"

definition template_assemble :: "os \<Rightarrow> function_template \<Rightarrow> (string list \<times> u8 list) option" where
  "template_assemble os t = do {
     let asm = map asm_text (template_code t);
     code \<leftarrow> ks_asm os (join_lines asm);
     Some (asm, code) }"

definition jit_assemble :: "os \<Rightarrow> function_template \<Rightarrow> function_instance option" where
  "jit_assemble os t = do {
     (asm, code) \<leftarrow> template_assemble os t;
     Some (from_assembled_template asm code) }"

definition jit_allocate :: "os \<Rightarrow> function_template \<Rightarrow> jit \<Rightarrow> process \<Rightarrow> (function_instance \<times> jit \<times> process) option" where
  "jit_allocate os t j p = do {
     inst \<leftarrow> jit_assemble os t;
     (slot, c, p) \<leftarrow> allocate_slot os (instance_len inst) (code_cache_of j) p;
     slot \<leftarrow> slot;
     (inst, p) \<leftarrow> write_safe slot inst p;
     Some (inst, j\<lparr>code_cache_of := c\<rparr>, p) }"

section \<open>Invariant\<close>

definition in_mapping :: "process \<Rightarrow> u64 \<Rightarrow> nat \<Rightarrow> bool" where
  "in_mapping p a n \<longleftrightarrow> 0 < n \<and> n \<le> 2 ^ 64 \<and> (\<forall>x. in_region a n x \<longrightarrow> same_mapping (kernel_maps p) a x)"

definition point_ok :: "process \<Rightarrow> u64 \<times> patchable_location \<Rightarrow> bool" where
  "point_ok p e \<longleftrightarrow> pl_addr (snd e) = fst e \<and> pl_size (snd e) = PATCH_POINT_SIZE \<and>
     length (reset_value (snd e)) = PATCH_POINT_SIZE \<and> in_mapping p (fst e) PATCH_POINT_SIZE"

definition cache_ok :: "process \<Rightarrow> code_cache \<Rightarrow> bool" where
  "cache_ok p c \<longleftrightarrow> in_mapping p (cc_buffer c) (cc_size c) \<and> un_len c \<le> cc_size c \<and>
     un_start c = cc_buffer c + of_nat (cc_size c - un_len c)"

text \<open>Patch points do not overlap each other.\<close>

definition apart :: "u64 list \<Rightarrow> bool" where
  "apart as \<longleftrightarrow> distinct as \<and> (\<forall>a\<in>set as. \<forall>b\<in>set as. a \<noteq> b \<longrightarrow> disjoint a PATCH_POINT_SIZE b PATCH_POINT_SIZE)"

definition jit_ok :: "jit \<Rightarrow> process \<Rightarrow> bool" where
  "jit_ok j p \<longleftrightarrow> proc_ok p \<and> cache_ok p (code_cache_of j) \<and> list_all (point_ok p) (registered_patch_points j) \<and>
     apart (map fst (registered_patch_points j)) \<and>
     (\<forall>a\<in>set (map fst (registered_patch_points j)).
        disjoint a PATCH_POINT_SIZE (cc_buffer (code_cache_of j)) (cc_size (code_cache_of j)))"

lemma in_mapping_keeps: "keeps p p' \<Longrightarrow> in_mapping p a n \<Longrightarrow> in_mapping p' a n"
  by (simp add: in_mapping_def keeps_def)

lemma in_mapping_self: "in_mapping p a n \<Longrightarrow> same_mapping (kernel_maps p) a a"
  by (auto simp: in_mapping_def in_region_def)

lemma point_ok_keeps: "keeps p p' \<Longrightarrow> point_ok p e \<Longrightarrow> point_ok p' e"
  using in_mapping_keeps by (auto simp: point_ok_def)

lemma keeps_mem: "keeps p p' \<Longrightarrow> keeps p (p'\<lparr>pmem := m\<rparr>)"
  by (simp add: keeps_def proc_ok_def)

section \<open>Reset\<close>

lemma reset_point_run:
  assumes "kernel_ok (os_mprotect os)" "proc_ok p" "point_ok p e"
  obtains p' where "reset_point os e p = Some p'" "keeps p p'" "pmem p' = put_bytes (pmem p) (fst e) (reset_value (snd e))"
    "\<And>x. writable (kernel_maps p') x \<Longrightarrow> writable (kernel_maps p) x \<or> same_mapping (kernel_maps p) (fst e) x"
proof -
  have e: "pl_addr (snd e) = fst e" "pl_size (snd e) = length (reset_value (snd e))" "in_mapping p (fst e) (length (reset_value (snd e)))"
    using assms(3) by (auto simp: point_ok_def)
  obtain p1 where p1: "unwrap (mark_enclosing_mapping_rwx (os_mprotect os) (fst e) p) = Some p1" "keeps p p1" "pmem p1 = pmem p"
    "\<And>x. writable (kernel_maps p1) x \<longleftrightarrow> writable (kernel_maps p) x \<or> same_mapping (kernel_maps p) (fst e) x"
    using mark_rwx [OF assms(1,2) in_mapping_self [OF e(3)]] by blast
  have w: "write_mem (fst e) (reset_value (snd e)) p1 = Some (p1\<lparr>pmem := put_bytes (pmem p1) (fst e) (reset_value (snd e))\<rparr>)"
    by (rule write_mem_ok) (use p1(4) e(3) in \<open>auto simp: in_mapping_def\<close>)
  show thesis
    by (rule that [of "p1\<lparr>pmem := put_bytes (pmem p1) (fst e) (reset_value (snd e))\<rparr>"])
      (use p1 e w keeps_mem in \<open>auto simp: reset_point_def location_reset_def\<close>)
qed

lemma reset_points_run:
  assumes "kernel_ok (os_mprotect os)"
  shows "proc_ok p \<Longrightarrow> list_all (point_ok p) es \<Longrightarrow> \<exists>p'. fold_opt (reset_point os) es p = Some p' \<and> keeps p p' \<and>
    pmem p' = fold (\<lambda>e m. put_bytes m (fst e) (reset_value (snd e))) es (pmem p) \<and>
    (\<forall>x. writable (kernel_maps p') x \<longrightarrow> writable (kernel_maps p) x \<or> (\<exists>e\<in>set es. same_mapping (kernel_maps p') (fst e) x))"
proof (induction es arbitrary: p)
  case Nil
  then show ?case by (simp add: keeps_refl)
next
  case (Cons e es)
  have pe: "point_ok p e" using Cons.prems(2) by simp
  obtain p1 where p1: "reset_point os e p = Some p1" "keeps p p1" "pmem p1 = put_bytes (pmem p) (fst e) (reset_value (snd e))"
    "\<And>x. writable (kernel_maps p1) x \<Longrightarrow> writable (kernel_maps p) x \<or> same_mapping (kernel_maps p) (fst e) x"
    using reset_point_run [OF assms Cons.prems(1) pe] by blast
  have "proc_ok p1" "list_all (point_ok p1) es"
    using p1(2) Cons.prems(2) point_ok_keeps [OF p1(2)] by (auto simp: keeps_def list_all_iff)
  from Cons.IH [OF this] obtain p2 where p2: "fold_opt (reset_point os) es p1 = Some p2" "keeps p1 p2"
    "pmem p2 = fold (\<lambda>e m. put_bytes m (fst e) (reset_value (snd e))) es (pmem p1)"
    "\<And>x. writable (kernel_maps p2) x \<Longrightarrow> writable (kernel_maps p1) x \<or> (\<exists>e\<in>set es. same_mapping (kernel_maps p2) (fst e) x)"
    by blast
  have k: "keeps p p2" using p1(2) p2(2) by (rule keeps_trans)
  have "writable (kernel_maps p) x \<or> (\<exists>e\<in>set (e # es). same_mapping (kernel_maps p2) (fst e) x)" if "writable (kernel_maps p2) x" for x
    using p2(4) [OF that] p1(4) [of x] k by (auto simp: keeps_def)
  then show ?case using p1(1,3) p2(1,3) k by simp
qed

lemma protect_points_run:
  assumes "kernel_ok (os_mprotect os)"
  shows "proc_ok p \<Longrightarrow> list_all (point_ok p) es \<Longrightarrow> \<exists>p'. fold_opt (protect_point os) es p = Some p' \<and> keeps p p' \<and>
    pmem p' = pmem p \<and> (\<forall>x. writable (kernel_maps p') x \<longrightarrow> writable (kernel_maps p) x \<and>
      \<not> (\<exists>e\<in>set es. same_mapping (kernel_maps p) (fst e) x))"
proof (induction es arbitrary: p)
  case Nil
  then show ?case by (simp add: keeps_refl)
next
  case (Cons e es)
  have e: "pl_addr (snd e) = fst e" "in_mapping p (fst e) PATCH_POINT_SIZE" using Cons.prems(2) by (auto simp: point_ok_def)
  obtain p1 where p1: "protect_point os e p = Some p1" "keeps p p1" "pmem p1 = pmem p"
    "\<And>x. writable (kernel_maps p1) x \<longleftrightarrow> writable (kernel_maps p) x \<and> \<not> same_mapping (kernel_maps p) (fst e) x"
    using mark_rx [OF assms Cons.prems(1) in_mapping_self [OF e(2)]] e(1) unfolding protect_point_def by metis
  have "proc_ok p1" "list_all (point_ok p1) es"
    using p1(2) Cons.prems(2) point_ok_keeps [OF p1(2)] by (auto simp: keeps_def list_all_iff)
  from Cons.IH [OF this] obtain p2 where p2: "fold_opt (protect_point os) es p1 = Some p2" "keeps p1 p2" "pmem p2 = pmem p1"
    "\<And>x. writable (kernel_maps p2) x \<Longrightarrow> writable (kernel_maps p1) x \<and> \<not> (\<exists>e\<in>set es. same_mapping (kernel_maps p1) (fst e) x)"
    by blast
  have "writable (kernel_maps p) x \<and> \<not> (\<exists>e\<in>set (e # es). same_mapping (kernel_maps p) (fst e) x)" if "writable (kernel_maps p2) x" for x
    using p2(4) [OF that] p1(4) [of x] p1(2) by (auto simp: keeps_def)
  then show ?case using p1(1,3) p2(1,3) keeps_trans [OF p1(2) p2(2)] by simp
qed

lemma code_cache_reset_run:
  assumes "kernel_ok (os_mprotect os)" "proc_ok p" "cache_ok p c"
  obtains p' where "code_cache_reset os c p = Some (c\<lparr>un_start := cc_buffer c, un_len := cc_size c\<rparr>, p')" "keeps p p'"
    "pmem p' = put_bytes (pmem p) (cc_buffer c) (replicate (cc_size c) 0)"
    "\<And>x. writable (kernel_maps p') x \<Longrightarrow> writable (kernel_maps p) x \<and> \<not> same_mapping (kernel_maps p) (cc_buffer c) x"
proof -
  let ?z = "replicate (cc_size c) (0 :: u8)"
  have c: "in_mapping p (cc_buffer c) (cc_size c)" using assms(3) by (simp add: cache_ok_def)
  obtain p1 where p1: "unwrap (mark_enclosing_mapping_rwx (os_mprotect os) (cc_buffer c) p) = Some p1" "keeps p p1" "pmem p1 = pmem p"
    "\<And>x. writable (kernel_maps p1) x \<longleftrightarrow> writable (kernel_maps p) x \<or> same_mapping (kernel_maps p) (cc_buffer c) x"
    using mark_rwx [OF assms(1,2) in_mapping_self [OF c]] by blast
  let ?p1 = "p1\<lparr>pmem := put_bytes (pmem p1) (cc_buffer c) ?z\<rparr>"
  have w: "write_mem (cc_buffer c) ?z p1 = Some ?p1"
    by (rule write_mem_ok) (use p1(4) c in \<open>auto simp: in_mapping_def\<close>)
  have k: "keeps p ?p1" by (rule keeps_mem [OF p1(2)])
  then have "proc_ok ?p1" "same_mapping (kernel_maps ?p1) (cc_buffer c) (cc_buffer c)"
    using in_mapping_self [OF c] by (auto simp: keeps_def)
  then obtain p2 where p2: "unwrap (mark_enclosing_mapping_rx (os_mprotect os) (cc_buffer c) ?p1) = Some p2" "keeps ?p1 p2" "pmem p2 = pmem ?p1"
    "\<And>x. writable (kernel_maps p2) x \<longleftrightarrow> writable (kernel_maps ?p1) x \<and> \<not> same_mapping (kernel_maps ?p1) (cc_buffer c) x"
    using mark_rx [OF assms(1)] by blast
  show thesis
  proof (rule that [of p2])
    show "code_cache_reset os c p = Some (c\<lparr>un_start := cc_buffer c, un_len := cc_size c\<rparr>, p2)"
      using p1(1) w p2(1) by (simp add: code_cache_reset_def Let_def)
    show "keeps p p2" using k p2(2) by (rule keeps_trans)
    show "pmem p2 = put_bytes (pmem p) (cc_buffer c) ?z" using p2(3) p1(3) by simp
    show "writable (kernel_maps p) x \<and> \<not> same_mapping (kernel_maps p) (cc_buffer c) x" if "writable (kernel_maps p2) x" for x
      using that p2(4) [of x] p1(2) p1(4) [of x] by (auto simp: keeps_def)
  qed
qed

lemma jit_reset_run:
  assumes "kernel_ok (os_mprotect os)" "jit_ok j p"
  obtains p' where
    "jit_reset os j p = Some (j\<lparr>code_cache_of := (code_cache_of j)\<lparr>un_start := cc_buffer (code_cache_of j), un_len := cc_size (code_cache_of j)\<rparr>,
        registered_patch_points := []\<rparr>, p')" "keeps p p'"
    "pmem p' = put_bytes (fold (\<lambda>e m. put_bytes m (fst e) (reset_value (snd e))) (registered_patch_points j) (pmem p))
       (cc_buffer (code_cache_of j)) (replicate (cc_size (code_cache_of j)) 0)"
    "\<And>x. writable (kernel_maps p') x \<Longrightarrow> writable (kernel_maps p) x \<and>
       \<not> same_mapping (kernel_maps p) (cc_buffer (code_cache_of j)) x \<and>
       \<not> (\<exists>a\<in>set (map fst (registered_patch_points j)). same_mapping (kernel_maps p) a x)"
proof -
  let ?es = "registered_patch_points j" and ?c = "code_cache_of j"
  have ok: "proc_ok p" "cache_ok p ?c" "list_all (point_ok p) ?es" using assms(2) by (auto simp: jit_ok_def)
  obtain p1 where p1: "fold_opt (reset_point os) ?es p = Some p1" "keeps p p1"
    "pmem p1 = fold (\<lambda>e m. put_bytes m (fst e) (reset_value (snd e))) ?es (pmem p)"
    "\<And>x. writable (kernel_maps p1) x \<Longrightarrow> writable (kernel_maps p) x \<or> (\<exists>e\<in>set ?es. same_mapping (kernel_maps p1) (fst e) x)"
    using reset_points_run [OF assms(1) ok(1,3)] by blast
  have ok1: "proc_ok p1" "list_all (point_ok p1) ?es"
    using p1(2) ok(3) point_ok_keeps [OF p1(2)] by (auto simp: keeps_def list_all_iff)
  obtain p2 where p2: "fold_opt (protect_point os) ?es p1 = Some p2" "keeps p1 p2" "pmem p2 = pmem p1"
    "\<And>x. writable (kernel_maps p2) x \<Longrightarrow> writable (kernel_maps p1) x \<and> \<not> (\<exists>e\<in>set ?es. same_mapping (kernel_maps p1) (fst e) x)"
    using protect_points_run [OF assms(1) ok1] by blast
  have k: "keeps p p2" using p1(2) p2(2) by (rule keeps_trans)
  then have ok2: "proc_ok p2" "cache_ok p2 ?c" using ok(2) in_mapping_keeps [OF k] by (auto simp: cache_ok_def keeps_def)
  obtain p3 where p3: "code_cache_reset os ?c p2 = Some (?c\<lparr>un_start := cc_buffer ?c, un_len := cc_size ?c\<rparr>, p3)" "keeps p2 p3"
    "pmem p3 = put_bytes (pmem p2) (cc_buffer ?c) (replicate (cc_size ?c) 0)"
    "\<And>x. writable (kernel_maps p3) x \<Longrightarrow> writable (kernel_maps p2) x \<and> \<not> same_mapping (kernel_maps p2) (cc_buffer ?c) x"
    using code_cache_reset_run [OF assms(1) ok2] by blast
  show thesis
  proof (rule that [of p3])
    show "keeps p p3" using k p3(2) by (rule keeps_trans)
    fix x assume "writable (kernel_maps p3) x"
    then show "writable (kernel_maps p) x \<and> \<not> same_mapping (kernel_maps p) (cc_buffer ?c) x \<and>
        \<not> (\<exists>a\<in>set (map fst ?es). same_mapping (kernel_maps p) a x)"
      using p3(4) [of x] p2(4) [of x] p1(4) [of x] k p1(2) by (auto simp: keeps_def)
  qed (use p1 p2 p3 in \<open>auto simp: jit_reset_def\<close>)
qed

abbreviation restored :: "(u64 \<times> patchable_location) list \<Rightarrow> memory \<Rightarrow> memory" where
  "restored es m \<equiv> fold (\<lambda>e m. put_bytes m (fst e) (reset_value (snd e))) es m"

lemma put_bytes_outside: "\<not> in_region a (length bs) x \<Longrightarrow> put_bytes m a bs x = m x"
  by (simp add: put_bytes_def)

lemma put_bytes_inside: "in_region a (length bs) x \<Longrightarrow> put_bytes m a bs x = bs ! unat (x - a)"
  by (simp add: put_bytes_def)

lemma restored_outside:
  "(\<And>e. e \<in> set es \<Longrightarrow> length (reset_value (snd e)) = PATCH_POINT_SIZE \<and> \<not> in_region (fst e) PATCH_POINT_SIZE x) \<Longrightarrow> restored es m x = m x"
  by (induction es arbitrary: m) (simp_all add: put_bytes_outside)

lemma restored_inside:
  "apart (map fst es) \<Longrightarrow> (\<And>e. e \<in> set es \<Longrightarrow> length (reset_value (snd e)) = PATCH_POINT_SIZE) \<Longrightarrow>
   e \<in> set es \<Longrightarrow> in_region (fst e) PATCH_POINT_SIZE x \<Longrightarrow> restored es m x = reset_value (snd e) ! unat (x - fst e)"
proof (induction es arbitrary: m)
  case (Cons d es)
  have "apart (map fst es)" using Cons.prems(1) by (auto simp: apart_def)
  show ?case
  proof (cases "e = d")
    case True
    have "restored es (put_bytes m (fst d) (reset_value (snd d))) x = put_bytes m (fst d) (reset_value (snd d)) x"
    proof (rule restored_outside)
      fix c assume c: "c \<in> set es"
      then have "disjoint (fst d) PATCH_POINT_SIZE (fst c) PATCH_POINT_SIZE" using Cons.prems(1) by (auto simp: apart_def)
      then show "length (reset_value (snd c)) = PATCH_POINT_SIZE \<and> \<not> in_region (fst c) PATCH_POINT_SIZE x"
        using Cons.prems(2,4) c True by (auto simp: disjoint_def)
    qed
    then show ?thesis using True Cons.prems(2,4) by (simp add: put_bytes_inside)
  next
    case False
    then show ?thesis using Cons.IH [OF \<open>apart (map fst es)\<close>] Cons.prems(2-4) by simp
  qed
qed simp

lemma jit_ok_pointD:
  assumes "jit_ok j p" "e \<in> set (registered_patch_points j)"
  shows "length (reset_value (snd e)) = PATCH_POINT_SIZE" "in_mapping p (fst e) PATCH_POINT_SIZE"
    "disjoint (fst e) PATCH_POINT_SIZE (cc_buffer (code_cache_of j)) (cc_size (code_cache_of j))"
  using assms by (auto simp: jit_ok_def list_all_iff point_ok_def)

lemma jit_reset_memory:
  assumes "jit_ok j p" "pmem p' = put_bytes (restored (registered_patch_points j) (pmem p))
      (cc_buffer (code_cache_of j)) (replicate (cc_size (code_cache_of j)) 0)"
  shows "e \<in> set (registered_patch_points j) \<Longrightarrow> get_bytes (pmem p') (fst e) PATCH_POINT_SIZE = reset_value (snd e)"
    and "\<not> in_region (cc_buffer (code_cache_of j)) (cc_size (code_cache_of j)) x \<Longrightarrow>
      (\<And>e. e \<in> set (registered_patch_points j) \<Longrightarrow> \<not> in_region (fst e) PATCH_POINT_SIZE x) \<Longrightarrow> pmem p' x = pmem p x"
    and "e \<in> set (registered_patch_points j) \<Longrightarrow> in_region (fst e) PATCH_POINT_SIZE x \<Longrightarrow> pmem p' x = reset_value (snd e) ! unat (x - fst e)"
proof -
  let ?es = "registered_patch_points j"
  note D = jit_ok_pointD [OF assms(1)]
  have ap: "apart (map fst ?es)" using assms(1) by (simp add: jit_ok_def)
  show in_point: "pmem p' x = reset_value (snd e) ! unat (x - fst e)" if e: "e \<in> set ?es" and x: "in_region (fst e) PATCH_POINT_SIZE x" for e x
  proof -
    have "\<not> in_region (cc_buffer (code_cache_of j)) (cc_size (code_cache_of j)) x" using D(3) [OF e] x by (auto simp: disjoint_def)
    then show ?thesis using restored_inside [OF ap D(1) e x] assms(2) by (simp add: put_bytes_outside)
  qed
  show "get_bytes (pmem p') (fst e) PATCH_POINT_SIZE = reset_value (snd e)" if e: "e \<in> set ?es"
  proof (rule nth_equalityI)
    fix i assume "i < length (get_bytes (pmem p') (fst e) PATCH_POINT_SIZE)"
    then have i: "i < PATCH_POINT_SIZE" by simp
    then have "in_region (fst e) PATCH_POINT_SIZE (fst e + of_nat i)" "unat (fst e + of_nat i - fst e) = i"
      by (simp_all add: in_region_def PATCH_POINT_SIZE_def unat_of_nat)
    then show "get_bytes (pmem p') (fst e) PATCH_POINT_SIZE ! i = reset_value (snd e) ! i"
      using in_point [OF e, of "fst e + of_nat i"] i by (simp add: get_bytes_def)
  qed (simp add: D(1) [OF e])
  show "pmem p' x = pmem p x" if "\<not> in_region (cc_buffer (code_cache_of j)) (cc_size (code_cache_of j)) x"
      "\<And>e. e \<in> set ?es \<Longrightarrow> \<not> in_region (fst e) PATCH_POINT_SIZE x"
    using that assms(2) restored_outside [of ?es x "pmem p"] D(1) by (simp add: put_bytes_outside)
qed

section \<open>Snapshots and patches\<close>

definition os_ok :: "os \<Rightarrow> bool" where
  "os_ok os \<longleftrightarrow> kernel_ok (os_mprotect os) \<and> os_pipe os = 0 \<and>
     (\<forall>maps. maps_wf maps \<longrightarrow> write_probes (os_write os maps) (readable maps))"

abbreviation snapshot_of :: "process \<Rightarrow> u64 \<Rightarrow> u64 \<times> patchable_location" where
  "snapshot_of p a \<equiv> (a, \<lparr>pl_addr = a, pl_size = PATCH_POINT_SIZE, reset_value = get_bytes (pmem p) a PATCH_POINT_SIZE\<rparr>)"

lemma snapshot_run:
  assumes "os_ok os" "proc_ok p" "map_of (registered_patch_points j) (md_vma (mce_md e)) = None"
    and "\<And>x. in_region (md_vma (mce_md e)) PATCH_POINT_SIZE x \<Longrightarrow> readable (kernel_maps p) x"
  shows "snapshot_patch_point os p e j =
    Some (j\<lparr>registered_patch_points := snapshot_of p (md_vma (mce_md e)) # registered_patch_points j\<rparr>)"
proof -
  let ?a = "md_vma (mce_md e)"
  have "readable_loop (os_write os (kernel_maps p)) ?a PATCH_POINT_SIZE = Some (\<forall>i<PATCH_POINT_SIZE. readable (kernel_maps p) (?a + of_nat i))"
    using assms(1,2) by (intro readable_loop_result) (auto simp: os_ok_def proc_ok_def)
  moreover have "\<forall>i<PATCH_POINT_SIZE. readable (kernel_maps p) (?a + of_nat i)"
    using assms(4) by (auto simp: in_region_def PATCH_POINT_SIZE_def unat_of_nat)
  ultimately show ?thesis
    using assms(1,3) by (simp add: snapshot_patch_point_def location_new_def copy_default_from_addr_def unwrap_def
        is_readable_mem_range_def os_ok_def Let_def)
qed

lemma snapshot_all_run:
  assumes "os_ok os" "proc_ok p"
  shows "distinct (map (md_vma \<circ> mce_md) es) \<Longrightarrow> set (map (md_vma \<circ> mce_md) es) \<inter> set (map fst (registered_patch_points j)) = {} \<Longrightarrow>
    (\<And>e x. e \<in> set es \<Longrightarrow> in_region (md_vma (mce_md e)) PATCH_POINT_SIZE x \<Longrightarrow> readable (kernel_maps p) x) \<Longrightarrow>
    fold_opt (snapshot_patch_point os p) es j =
      Some (j\<lparr>registered_patch_points := rev (map (snapshot_of p \<circ> md_vma \<circ> mce_md) es) @ registered_patch_points j\<rparr>)"
proof (induction es arbitrary: j)
  case (Cons e es)
  let ?j = "j\<lparr>registered_patch_points := snapshot_of p (md_vma (mce_md e)) # registered_patch_points j\<rparr>"
  have "snapshot_patch_point os p e j = Some ?j"
    using Cons.prems by (intro snapshot_run [OF assms]) (auto simp: map_of_eq_None_iff)
  moreover have "fold_opt (snapshot_patch_point os p) es ?j =
      Some (?j\<lparr>registered_patch_points := rev (map (snapshot_of p \<circ> md_vma \<circ> mce_md) es) @ registered_patch_points ?j\<rparr>)"
    using Cons.prems by (intro Cons.IH) auto
  ultimately show ?case by simp
qed simp

lemma instance_write_effect:
  assumes "instance_write a f p = Some (f', p')"
  shows "kernel_maps p' = kernel_maps p" "proc_mappings p' = proc_mappings p"
    "get_bytes (pmem p') a PATCH_POINT_SIZE = machine_code f @ replicate (PATCH_POINT_SIZE - length (machine_code f)) 0x90"
    "\<And>x. \<not> in_region a PATCH_POINT_SIZE x \<Longrightarrow> pmem p' x = pmem p x"
proof -
  let ?c = "machine_code f" and ?n = "replicate PATCH_POINT_SIZE (0x90 :: u8)"
  have len: "length ?c \<le> PATCH_POINT_SIZE" and p': "p' = p\<lparr>pmem := put_bytes (put_bytes (pmem p) a ?n) a ?c\<rparr>"
    using assms by (auto simp: instance_write_def write_mem_def Let_def split: bind_splits if_splits)
  show "kernel_maps p' = kernel_maps p" "proc_mappings p' = proc_mappings p" by (simp_all add: p')
  show "pmem p' x = pmem p x" if "\<not> in_region a PATCH_POINT_SIZE x" for x
    using that len by (auto simp: p' put_bytes_def in_region_def)
  show "get_bytes (pmem p') a PATCH_POINT_SIZE = ?c @ replicate (PATCH_POINT_SIZE - length ?c) 0x90"
    using len by (intro nth_equalityI) (auto simp: p' get_bytes_def put_bytes_def in_region_def PATCH_POINT_SIZE_def unat_of_nat nth_append)
qed

lemma instance_write_run:
  assumes "0 < instance_len f" "instance_len f \<le> PATCH_POINT_SIZE" "get_bytes (pmem p) a PATCH_POINT_SIZE = NOP_PATTERN"
    and w: "\<And>x. in_region a PATCH_POINT_SIZE x \<Longrightarrow> writable (kernel_maps p) x"
  shows "\<exists>p'. instance_write a f p = Some (f\<lparr>fi_vma := Some a\<rparr>, p')"
proof -
  let ?n = "replicate PATCH_POINT_SIZE (0x90 :: u8)"
  have sub: "in_region a (length (machine_code f)) x \<Longrightarrow> in_region a PATCH_POINT_SIZE x" for x
    using assms(2) by (simp add: in_region_def instance_len_def)
  have "write_mem a ?n p = Some (p\<lparr>pmem := put_bytes (pmem p) a ?n\<rparr>)"
    by (rule write_mem_ok) (use w in \<open>simp_all add: PATCH_POINT_SIZE_def\<close>)
  moreover have "write_mem a (machine_code f) (p\<lparr>pmem := put_bytes (pmem p) a ?n\<rparr>) =
      Some (p\<lparr>pmem := put_bytes (put_bytes (pmem p) a ?n) a (machine_code f)\<rparr>)"
    using write_mem_ok [of a "machine_code f" "p\<lparr>pmem := put_bytes (pmem p) a ?n\<rparr>"] w sub assms(2)
    by (simp add: PATCH_POINT_SIZE_def instance_len_def)
  ultimately show ?thesis
    using assms(1-3) by (simp add: instance_write_def instance_len_def Let_def PATCH_POINT_SIZE_def)
qed

definition patch :: "u64 \<times> function_instance \<Rightarrow> process \<Rightarrow> process option" where
  "patch w p = map_option snd (instance_write (fst w) (snd w) p)"

lemma patches_effect:
  "fold_opt patch ws p = Some p' \<Longrightarrow> kernel_maps p' = kernel_maps p \<and> proc_mappings p' = proc_mappings p \<and>
   (\<forall>x. (\<forall>w\<in>set ws. \<not> in_region (fst w) PATCH_POINT_SIZE x) \<longrightarrow> pmem p' x = pmem p x)"
proof (induction ws arbitrary: p)
  case (Cons w ws)
  then obtain f p1 where "instance_write (fst w) (snd w) p = Some (f, p1)" "fold_opt patch ws p1 = Some p'"
    by (auto simp: patch_def [of w p] split: bind_splits)
  with Cons.IH [of p1] instance_write_effect [of "fst w" "snd w" p f p1] show ?case by auto
qed simp

lemma jit_ok_keeps:
  assumes "keeps p p'" "jit_ok j p"
  shows "jit_ok j p'"
proof -
  have "proc_ok p'" using assms(1) by (simp add: keeps_def)
  moreover have "cache_ok p' (code_cache_of j)" using assms(2) in_mapping_keeps [OF assms(1)] by (auto simp: jit_ok_def cache_ok_def)
  moreover have "list_all (point_ok p') (registered_patch_points j)"
    using assms(2) point_ok_keeps [OF assms(1)] by (auto simp: jit_ok_def list_all_iff)
  ultimately show ?thesis using assms(2) unfolding jit_ok_def by blast
qed

text \<open>What the entries of the mutation cache must be like: patch points that do not overlap, readable and in one mapping each.\<close>

definition vmas :: "mce list \<Rightarrow> u64 list" where
  "vmas es = map (md_vma \<circ> mce_md) es"

definition patchable :: "jit \<Rightarrow> process \<Rightarrow> u64 list \<Rightarrow> bool" where
  "patchable j p as \<longleftrightarrow> apart as \<and> (\<forall>a\<in>set as. in_mapping p a PATCH_POINT_SIZE \<and>
     (\<forall>x. in_region a PATCH_POINT_SIZE x \<longrightarrow> readable (kernel_maps p) x) \<and>
     disjoint a PATCH_POINT_SIZE (cc_buffer (code_cache_of j)) (cc_size (code_cache_of j)))"

lemma snapshots_ok:
  assumes "os_ok os" "jit_ok j p" "registered_patch_points j = []" "patchable j p (vmas es)"
  shows "fold_opt (snapshot_patch_point os p) es j = Some (j\<lparr>registered_patch_points := rev (map (snapshot_of p) (vmas es))\<rparr>)"
    "jit_ok (j\<lparr>registered_patch_points := rev (map (snapshot_of p) (vmas es))\<rparr>) p"
proof -
  have "proc_ok p" using assms(2) by (simp add: jit_ok_def)
  from snapshot_all_run [OF assms(1) this, of es j]
  show "fold_opt (snapshot_patch_point os p) es j = Some (j\<lparr>registered_patch_points := rev (map (snapshot_of p) (vmas es))\<rparr>)"
    using assms(3,4) by (auto simp: patchable_def vmas_def apart_def comp_assoc)
  have k: "map fst (rev (map (snapshot_of p) (vmas es))) = rev (vmas es)" by (simp add: rev_map comp_def)
  have "list_all (point_ok p) (rev (map (snapshot_of p) (vmas es)))"
    using assms(4) by (auto simp: list_all_iff point_ok_def patchable_def)
  moreover have "apart (rev (vmas es))" using assms(4) by (simp add: patchable_def apart_def)
  moreover have "\<forall>a\<in>set (rev (vmas es)). disjoint a PATCH_POINT_SIZE (cc_buffer (code_cache_of j)) (cc_size (code_cache_of j))"
    using assms(4) by (simp add: patchable_def)
  ultimately show "jit_ok (j\<lparr>registered_patch_points := rev (map (snapshot_of p) (vmas es))\<rparr>) p"
    using assms(2) k unfolding jit_ok_def by simp
qed

section \<open>Allocation\<close>

lemma allocate_run:
  assumes "kernel_ok (os_mprotect os)" "proc_ok p" "cache_ok p (code_cache_of j)" "jit_assemble os t = Some f"
    and "0 < instance_len f" "instance_len f \<le> un_len (code_cache_of j)"
  defines "c \<equiv> code_cache_of j"
  defines "c' \<equiv> c\<lparr>un_start := un_start c + of_nat (instance_len f), un_len := un_len c - instance_len f\<rparr>"
  obtains p' where "jit_allocate os t j p = Some (f\<lparr>fi_vma := Some (un_start c)\<rparr>, j\<lparr>code_cache_of := c'\<rparr>, p')" "keeps p p'"
    "pmem p' = put_bytes (pmem p) (un_start c) (machine_code f)" "cache_ok p' c'"
    "\<And>x. writable (kernel_maps p') x \<longleftrightarrow> writable (kernel_maps p) x \<or> same_mapping (kernel_maps p) (cc_buffer c) x"
proof -
  have c: "in_mapping p (cc_buffer c) (cc_size c)" "un_len c \<le> cc_size c" "un_start c = cc_buffer c + of_nat (cc_size c - un_len c)"
    using assms(3) by (auto simp: cache_ok_def c_def)
  let ?bs = "machine_code f"
  have len: "length ?bs = instance_len f" by (simp add: instance_len_def)
  have l6: "instance_len f \<le> un_len c" using assms(6) by (simp add: c_def)
  obtain p1 where p1: "unwrap (mark_enclosing_mapping_rwx (os_mprotect os) (cc_buffer c) p) = Some p1" "keeps p p1" "pmem p1 = pmem p"
    "\<And>x. writable (kernel_maps p1) x \<longleftrightarrow> writable (kernel_maps p) x \<or> same_mapping (kernel_maps p) (cc_buffer c) x"
    using mark_rwx [OF assms(1,2) in_mapping_self [OF c(1)]] by blast
  have sub: "in_region (cc_buffer c) (cc_size c) x" if "in_region (un_start c) (length ?bs) x" for x
  proof (rule region_sub)
    show "in_region (cc_buffer c + of_nat (cc_size c - un_len c)) (length ?bs) x" using that c(3) by simp
    show "cc_size c - un_len c + length ?bs \<le> cc_size c" using l6 c(2) len by simp
    show "cc_size c \<le> 2 ^ 64" using c(1) by (simp add: in_mapping_def)
  qed
  have w: "write_mem (un_start c) ?bs p1 = Some (p1\<lparr>pmem := put_bytes (pmem p1) (un_start c) ?bs\<rparr>)"
  proof (rule write_mem_ok)
    show "writable (kernel_maps p1) x" if "in_region (un_start c) (length ?bs) x" for x
      using p1(4) [of x] sub [OF that] c(1) by (simp add: in_mapping_def)
    show "length ?bs \<le> 2 ^ 64" using c(1,2) l6 len by (simp add: in_mapping_def)
  qed
  have split: "cc_size c - (un_len c - instance_len f) = (cc_size c - un_len c) + instance_len f" using c(2) l6 by simp
  show thesis
  proof (rule that [of "p1\<lparr>pmem := put_bytes (pmem p1) (un_start c) ?bs\<rparr>"])
    show "jit_allocate os t j p = Some (f\<lparr>fi_vma := Some (un_start c)\<rparr>, j\<lparr>code_cache_of := c'\<rparr>,
        p1\<lparr>pmem := put_bytes (pmem p1) (un_start c) ?bs\<rparr>)"
      using assms(4-6) p1(1) w len by (auto simp: jit_allocate_def allocate_slot_def write_safe_def c_def c'_def Let_def)
    show "keeps p (p1\<lparr>pmem := put_bytes (pmem p1) (un_start c) ?bs\<rparr>)" by (rule keeps_mem [OF p1(2)])
    show "cache_ok (p1\<lparr>pmem := put_bytes (pmem p1) (un_start c) ?bs\<rparr>) c'"
      using in_mapping_keeps [OF p1(2) c(1)] c(2,3) by (simp add: cache_ok_def c'_def in_mapping_def split)
  qed (use p1 in simp_all)
qed

text \<open>The allocations between two resets: the instances, in order.\<close>

fun allocate_all :: "os \<Rightarrow> function_template list \<Rightarrow> jit \<Rightarrow> process \<Rightarrow> (function_instance list \<times> jit \<times> process) option" where
  "allocate_all os [] j p = Some ([], j, p)"
| "allocate_all os (t # ts) j p = do {
     (f, j, p) \<leftarrow> jit_allocate os t j p;
     (fs, j, p) \<leftarrow> allocate_all os ts j p;
     Some (f # fs, j, p) }"

text \<open>The slots of \<open>fs\<close> lie one after the other from \<open>a\<close> on and hold their code in \<open>m\<close>.\<close>

fun placed :: "memory \<Rightarrow> u64 \<Rightarrow> function_instance list \<Rightarrow> bool" where
  "placed m a [] = True"
| "placed m a (f # fs) \<longleftrightarrow> fi_vma f = Some a \<and> get_bytes m a (instance_len f) = machine_code f \<and>
     placed m (a + of_nat (instance_len f)) fs"

lemma allocate_all_run:
  assumes "kernel_ok (os_mprotect os)"
  shows "proc_ok p \<Longrightarrow> cache_ok p (code_cache_of j) \<Longrightarrow> list_all2 (\<lambda>t f. jit_assemble os t = Some f \<and> 0 < instance_len f) ts fs \<Longrightarrow>
    sum_list (map instance_len fs) \<le> un_len (code_cache_of j) \<Longrightarrow>
    \<exists>fs' j' p'. allocate_all os ts j p = Some (fs', j', p') \<and> map machine_code fs' = map machine_code fs \<and> keeps p p' \<and>
      placed (pmem p') (un_start (code_cache_of j)) fs' \<and>
      (\<forall>x. \<not> in_region (un_start (code_cache_of j)) (sum_list (map instance_len fs)) x \<longrightarrow> pmem p' x = pmem p x)"
proof (induction ts arbitrary: fs j p)
  case (Cons t ts)
  from Cons.prems(3) obtain f fs0 where f: "fs = f # fs0" "jit_assemble os t = Some f" "0 < instance_len f"
    and rest: "list_all2 (\<lambda>t f. jit_assemble os t = Some f \<and> 0 < instance_len f) ts fs0"
    by (auto simp: list_all2_Cons1)
  let ?c = "code_cache_of j" and ?n = "instance_len f" and ?k = "sum_list (map instance_len fs0)"
  let ?c' = "?c\<lparr>un_start := un_start ?c + of_nat ?n, un_len := un_len ?c - ?n\<rparr>" and ?f = "f\<lparr>fi_vma := Some (un_start ?c)\<rparr>"
  have fit: "?n \<le> un_len ?c" "?k \<le> un_len ?c - ?n" "?n + ?k \<le> 2 ^ 64"
    using Cons.prems(2,4) f(1) by (auto simp: cache_ok_def in_mapping_def)
  obtain p1 where p1: "jit_allocate os t j p = Some (?f, j\<lparr>code_cache_of := ?c'\<rparr>, p1)" "keeps p p1"
    "pmem p1 = put_bytes (pmem p) (un_start ?c) (machine_code f)" "cache_ok p1 ?c'"
    using allocate_run [OF assms Cons.prems(1,2) f(2,3) fit(1)] by blast
  have "proc_ok p1" using p1(2) by (simp add: keeps_def)
  with Cons.IH [of p1 "j\<lparr>code_cache_of := ?c'\<rparr>" fs0] p1(4) rest fit(2)
  obtain fs2 j2 p2 where p2: "allocate_all os ts (j\<lparr>code_cache_of := ?c'\<rparr>) p1 = Some (fs2, j2, p2)" "map machine_code fs2 = map machine_code fs0"
    "keeps p1 p2" "placed (pmem p2) (un_start ?c + of_nat ?n) fs2"
    "\<And>x. \<not> in_region (un_start ?c + of_nat ?n) ?k x \<Longrightarrow> pmem p2 x = pmem p1 x" by auto
  have len: "length (machine_code f) = ?n" by (simp add: instance_len_def)
  have dj: "disjoint (un_start ?c) ?n (un_start ?c + of_nat ?n) ?k"
    using disjoint_offsets [of 0 ?n ?n ?k "un_start ?c"] fit(3) by simp
  have "get_bytes (pmem p2) (un_start ?c) ?n = get_bytes (pmem p1) (un_start ?c) ?n"
    by (rule get_bytes_cong) (use p2(5) dj fit(3) in \<open>auto simp: disjoint_def\<close>)
  also have "\<dots> = machine_code f" using get_put_bytes [of "machine_code f"] fit(3) len p1(3) by simp
  finally have "placed (pmem p2) (un_start ?c) (?f # fs2)" using p2(4) by (simp add: instance_len_def)
  moreover have "pmem p2 x = pmem p x" if "\<not> in_region (un_start ?c) (?n + ?k) x" for x
  proof -
    have "\<not> in_region (un_start ?c) ?n x" "\<not> in_region (un_start ?c + of_nat ?n) ?k x"
      using that region_sub [of "un_start ?c" ?n ?k x "?n + ?k"] fit(3) by (auto simp: in_region_def)
    then show ?thesis using p2(5) [of x] p1(3) len by (simp add: put_bytes_outside)
  qed
  ultimately show ?case using p1(1) p2(1,2) keeps_trans [OF p1(2) p2(3)] f(1) by simp
qed (simp add: keeps_refl)

section \<open>A system for the examples\<close>

lemma region_unat: "in_region a n x \<Longrightarrow> unat a + n \<le> 2 ^ 64 \<Longrightarrow> unat a \<le> unat x \<and> unat x < unat a + n"
proof -
  assume a: "in_region a n x" "unat a + n \<le> 2 ^ 64"
  have "unat x = unat (a + (x - a))" by simp
  also have "\<dots> = (unat a + unat (x - a)) mod 2 ^ 64" by (simp only: unat_word_ariths) simp
  also have "\<dots> = unat a + unat (x - a)" using a by (simp add: in_region_def)
  finally have "unat x = unat a + unat (x - a)" .
  then show ?thesis using a(1) by (simp add: in_region_def)
qed

lemma in_mappingI:
  assumes "proc_ok p" "m \<in> set (kernel_maps p)" "range_start m \<le> a" "unat a + n \<le> unat (range_end m)" "0 < n"
  shows "in_mapping p a n"
proof -
  have wf: "maps_wf (kernel_maps p)" using assms(1) by (simp add: proc_ok_def)
  have b: "unat a + n \<le> 2 ^ 64" using assms(4) unat_u64 [of "range_end m"] by linarith
  have x: "map_contain_addr m x" if "in_region a n x" for x
    using region_unat [OF that b] assms(3,4) by (auto simp: contain_iff word_le_nat_alt word_less_nat_alt)
  have "in_region a n a" using assms(5) by (simp add: in_region_def)
  then have "map_contain_addr m a" by (rule x)
  then show ?thesis using x same_mapping_unique [OF wf assms(2)] assms(5) b by (simp add: in_mapping_def)
qed

definition flags_of :: "perms_config \<Rightarrow> str" where
  "flags_of pc = [if perm_read pc then 114 else 45, if perm_write pc then 119 else 45, if perm_exec pc then 120 else 45, 112]"

definition sample_mprotect :: mprotect where
  "sample_mprotect a len pc maps = Some (map (\<lambda>m. if range_start m = a \<and> range_end m - range_start m = len
     then m\<lparr>mr_flags := flags_of pc\<rparr> else m) maps)"

definition sample_os :: os where
  "sample_os = \<lparr>os_mprotect = sample_mprotect, os_pipe = 0, os_write = (\<lambda>maps a n. if readable maps a then 1 else - 1),
     ks_asm = (\<lambda>s. Some (map (\<lambda>c. of_char c) (take 3 s)))\<rparr>"

lemma flags_of_tests: "is_write (m\<lparr>mr_flags := flags_of pc\<rparr>) = Some (perm_write pc)" "is_read (m\<lparr>mr_flags := flags_of pc\<rparr>) = Some (perm_read pc)"
  by (simp_all add: is_write_def is_read_def flag_at_def flags_of_def)

lemma readable_iff:
  assumes "maps_wf maps"
  shows "readable maps x \<longleftrightarrow> (\<exists>m. m \<in> set maps \<and> map_contain_addr m x \<and> is_read m = Some True)"
proof -
  have "readable maps x \<longleftrightarrow> (\<exists>m. get_enclosing_mapping x maps = Some m \<and> is_read m = Some True)"
    by (simp add: readable_def split: option.split)
  then show ?thesis using assms by (simp add: get_enclosing_Some)
qed

lemma sample_kernel_ok: "kernel_ok sample_mprotect"
  unfolding kernel_ok_def
proof (intro allI impI, elim conjE)
  fix maps m pc assume wf: "maps_wf maps" and m: "m \<in> set maps"
  define f :: "map_range \<Rightarrow> map_range" where "f = (\<lambda>r. if range_start r = range_start m \<and> range_end r - range_start r = range_end m - range_start m
     then r\<lparr>mr_flags := flags_of pc\<rparr> else r)"
  have c: "map_contain_addr (f r) x \<longleftrightarrow> map_contain_addr r x" for r x by (simp add: contain_iff f_def)
  have w: "range_wf (f r)" "range_start (f r) = range_start r" "range_end (f r) = range_end r" if "range_wf r" for r
    using that by (auto simp: range_wf_def flags_of_def f_def)
  have wf': "maps_wf (map f maps)"
    using wf w by (auto simp: maps_wf_def list_all_iff sorted_wrt_map elim!: sorted_wrt_mono_rel [rotated])
  have same: "f r = m\<lparr>mr_flags := flags_of pc\<rparr>" if "r \<in> set maps" "map_contain_addr r x" "map_contain_addr m x" for r x
    using maps_wf_unique [OF wf that(1) m that(2,3)] by (simp add: f_def)
  have other: "f r = r" if "r \<in> set maps" "map_contain_addr r x" "\<not> map_contain_addr m x" for r x
    using that by (auto simp: contain_iff f_def)
  have q: "(\<exists>r'. r' \<in> set (map f maps) \<and> map_contain_addr r' x \<and> P r') \<longleftrightarrow>
      (if map_contain_addr m x then P (m\<lparr>mr_flags := flags_of pc\<rparr>) else (\<exists>r. r \<in> set maps \<and> map_contain_addr r x \<and> P r))" for x P
  proof -
    have "(\<exists>r'. r' \<in> set (map f maps) \<and> map_contain_addr r' x \<and> P r') \<longleftrightarrow> (\<exists>r. r \<in> set maps \<and> map_contain_addr r x \<and> P (f r))"
      using c by auto
    also have "\<dots> \<longleftrightarrow> (if map_contain_addr m x then P (m\<lparr>mr_flags := flags_of pc\<rparr>) else (\<exists>r. r \<in> set maps \<and> map_contain_addr r x \<and> P r))"
      using same [of _ x] other [of _ x] m by (cases "map_contain_addr m x") metis+
    finally show ?thesis .
  qed
  have "same_mapping (map f maps) x y" if "same_mapping maps x y" for x y
    using that c wf wf' by (auto simp: same_mapping_iff)
  moreover have "writable (map f maps) x \<longleftrightarrow> (if map_contain_addr m x then perm_write pc else writable maps x)" for x
    unfolding writable_iff [OF wf'] q by (simp add: writable_iff [OF wf] flags_of_tests)
  moreover have "readable (map f maps) x \<longleftrightarrow> (if map_contain_addr m x then perm_read pc else readable maps x)" for x
    unfolding readable_iff [OF wf'] q by (simp add: readable_iff [OF wf] flags_of_tests)
  ultimately show "\<exists>maps'. sample_mprotect (range_start m) (range_end m - range_start m) pc maps = Some maps' \<and> maps_wf maps' \<and>
      (\<forall>x y. same_mapping maps x y \<longrightarrow> same_mapping maps' x y) \<and>
      (\<forall>x. writable maps' x = (if map_contain_addr m x then perm_write pc else writable maps x)) \<and>
      (\<forall>x. readable maps' x = (if map_contain_addr m x then perm_read pc else readable maps x))"
    using wf' unfolding sample_mprotect_def f_def by blast
qed

lemma sample_os_ok: "os_ok sample_os"
  using sample_kernel_ok by (auto simp: os_ok_def sample_os_def write_probes_def intro!: exI [of _ "Suc 0"])

definition sample_maps :: "map_range list" where
  "sample_maps =
    [\<lparr>range_start = 0x400000, range_end = 0x402000, mr_offset = 0, mr_dev = [], mr_flags = [114, 45, 120, 112], mr_inode = 0, mr_pathname = None\<rparr>,
     \<lparr>range_start = 0x500000, range_end = 0x501000, mr_offset = 0, mr_dev = [], mr_flags = [114, 45, 120, 112], mr_inode = 0, mr_pathname = None\<rparr>]"

definition sample_proc :: process where
  "sample_proc = \<lparr>pmem = put_bytes (\<lambda>_. 0) 0x401000 NOP_PATTERN, kernel_maps = sample_maps, proc_mappings = sample_maps\<rparr>"

definition sample_jit :: jit where
  "sample_jit = \<lparr>code_cache_of = \<lparr>cc_buffer = 0x500000, cc_size = 0x1000, un_start = 0x500000, un_len = 0x1000\<rparr>,
     registered_patch_points = []\<rparr>"

lemma sample_proc_ok: "proc_ok sample_proc"
proof -
  have "(4096 :: nat) dvd 4194304" "(4096 :: nat) dvd 4202496" "(4096 :: nat) dvd 5242880" "(4096 :: nat) dvd 5246976"
    by presburger+
  then show ?thesis by (simp add: proc_ok_def sample_proc_def sample_maps_def maps_wf_def range_wf_def)
qed

lemma sample_regions:
  "in_mapping sample_proc 0x500000 0x1000" "in_mapping sample_proc 0x401000 PATCH_POINT_SIZE"
  "disjoint 0x401000 PATCH_POINT_SIZE 0x500000 0x1000"
  "\<And>x. in_region 0x401000 PATCH_POINT_SIZE x \<Longrightarrow> readable (kernel_maps sample_proc) x"
proof -
  show "in_mapping sample_proc 0x500000 0x1000"
    by (rule in_mappingI [OF sample_proc_ok, of "sample_maps ! 1"]) (simp_all add: sample_proc_def sample_maps_def)
  show m: "in_mapping sample_proc 0x401000 PATCH_POINT_SIZE"
    by (rule in_mappingI [OF sample_proc_ok, of "sample_maps ! 0"]) (simp_all add: sample_proc_def sample_maps_def PATCH_POINT_SIZE_def)
  show "disjoint 0x401000 PATCH_POINT_SIZE 0x500000 0x1000"
    by (rule disjoint_by_distance) (simp_all add: PATCH_POINT_SIZE_def)
  fix x assume "in_region 0x401000 PATCH_POINT_SIZE x"
  then have "same_mapping sample_maps 0x401000 x" using m by (simp add: in_mapping_def sample_proc_def)
  then have "map_contain_addr (sample_maps ! 0) x" by (simp add: same_mapping_def get_enclosing_contain contain_iff sample_maps_def)
  then show "readable (kernel_maps sample_proc) x"
    by (simp add: readable_def get_enclosing_contain sample_proc_def sample_maps_def is_read_def flag_at_def)
qed

lemma sample_jit_ok: "jit_ok sample_jit sample_proc"
  using sample_proc_ok sample_regions(1) by (simp add: jit_ok_def sample_jit_def cache_ok_def apart_def)

lemma sample_patchable: "patchable sample_jit sample_proc (vmas [sample_mce 7])"
  using sample_regions by (simp add: patchable_def vmas_def apart_def sample_mce_def sample_jit_def)

lemma NOP_PATTERN_length: "length NOP_PATTERN = PATCH_POINT_SIZE"
  by (simp add: NOP_PATTERN_def PATCH_POINT_SIZE_def)

lemma sample_proc_bytes: "get_bytes (pmem sample_proc) 0x401000 PATCH_POINT_SIZE = NOP_PATTERN"
  using get_put_bytes [where bs = NOP_PATTERN and m = "\<lambda>_. 0" and a = "0x401000"] NOP_PATTERN_length
  by (simp add: sample_proc_def PATCH_POINT_SIZE_def)

section \<open>Properties\<close>

text \<open>
  C38: \<^verbatim>\<open>Jit::reset\<close> always succeeds: every patch point that was registered has its saved bytes again, the
  code cache is zeroed and free, all other memory is untouched, no patch point is registered any
  more, and neither a patch point nor the code cache is left writable.
\<close>

theorem jit_reset_correct:
  assumes "kernel_ok (os_mprotect os)" "jit_ok j p"
  defines "c \<equiv> code_cache_of j"
  shows "\<exists>j' p'. jit_reset os j p = Some (j', p') \<and> registered_patch_points j' = [] \<and> jit_ok j' p' \<and>
    un_len (code_cache_of j') = cc_size c \<and>
    (\<forall>e\<in>set (registered_patch_points j). get_bytes (pmem p') (fst e) PATCH_POINT_SIZE = reset_value (snd e)) \<and>
    get_bytes (pmem p') (cc_buffer c) (cc_size c) = replicate (cc_size c) 0 \<and>
    (\<forall>x. in_region (cc_buffer c) (cc_size c) x \<or> (\<exists>e\<in>set (registered_patch_points j). in_region (fst e) PATCH_POINT_SIZE x) \<or>
       pmem p' x = pmem p x) \<and>
    (\<forall>x. writable (kernel_maps p') x \<longrightarrow> \<not> in_region (cc_buffer c) (cc_size c) x \<and>
       (\<forall>e\<in>set (registered_patch_points j). \<not> in_region (fst e) PATCH_POINT_SIZE x))"
proof -
  let ?c = "c\<lparr>un_start := cc_buffer c, un_len := cc_size c\<rparr>"
  let ?j = "j\<lparr>code_cache_of := ?c, registered_patch_points := []\<rparr>"
  obtain p' where p': "jit_reset os j p = Some (?j, p')" "keeps p p'"
    "pmem p' = put_bytes (restored (registered_patch_points j) (pmem p)) (cc_buffer c) (replicate (cc_size c) 0)"
    "\<And>x. writable (kernel_maps p') x \<Longrightarrow> writable (kernel_maps p) x \<and> \<not> same_mapping (kernel_maps p) (cc_buffer c) x \<and>
       \<not> (\<exists>a\<in>set (map fst (registered_patch_points j)). same_mapping (kernel_maps p) a x)"
    using jit_reset_run [OF assms(1,2)] unfolding c_def by blast
  have c: "in_mapping p (cc_buffer c) (cc_size c)" using assms(2) by (simp add: jit_ok_def cache_ok_def c_def)
  note m = jit_reset_memory [OF assms(2) p'(3) [unfolded c_def]]
  have "jit_ok ?j p'"
    using p'(2) in_mapping_keeps [OF p'(2) c] by (simp add: jit_ok_def cache_ok_def apart_def keeps_def)
  moreover have "get_bytes (pmem p') (cc_buffer c) (cc_size c) = replicate (cc_size c) 0"
    unfolding p'(3) using get_put_bytes [of "replicate (cc_size c) 0"] c by (simp add: in_mapping_def)
  moreover have "\<not> in_region (cc_buffer c) (cc_size c) x" "\<forall>e\<in>set (registered_patch_points j). \<not> in_region (fst e) PATCH_POINT_SIZE x"
    if "writable (kernel_maps p') x" for x
    using p'(4) [OF that] c jit_ok_pointD(2) [OF assms(2)] by (auto simp: in_mapping_def)
  moreover have "in_region (cc_buffer c) (cc_size c) x \<or> (\<exists>e\<in>set (registered_patch_points j). in_region (fst e) PATCH_POINT_SIZE x) \<or>
      pmem p' x = pmem p x" for x
    using m(2) [of x] unfolding c_def by blast
  moreover have "\<forall>e\<in>set (registered_patch_points j). get_bytes (pmem p') (fst e) PATCH_POINT_SIZE = reset_value (snd e)" using m(1) by blast
  ultimately show ?thesis
    unfolding p'(1) by (intro exI [of _ ?j] exI [of _ p'] conjI allI impI) simp_all
qed

theorem jit_reset_correct_witness:
  "\<exists>j' p'. jit_reset sample_os (sample_jit\<lparr>registered_patch_points := [snapshot_of sample_proc 0x401000]\<rparr>) (sample_proc\<lparr>pmem := \<lambda>_. 7\<rparr>) = Some (j', p') \<and>
    registered_patch_points j' = [] \<and> get_bytes (pmem p') 0x401000 PATCH_POINT_SIZE = NOP_PATTERN"
proof -
  let ?j = "sample_jit\<lparr>registered_patch_points := [snapshot_of sample_proc 0x401000]\<rparr>"
  have "vmas [sample_mce 7] = [0x401000]" by (simp add: vmas_def sample_mce_def)
  then have "jit_ok ?j sample_proc"
    using snapshots_ok(2) [OF sample_os_ok sample_jit_ok _ sample_patchable] by (simp add: sample_jit_def)
  then have ok: "jit_ok ?j (sample_proc\<lparr>pmem := \<lambda>_. 7\<rparr>)"
    by (rule jit_ok_keeps [OF keeps_mem [OF keeps_refl [OF sample_proc_ok]]])
  have k: "kernel_ok (os_mprotect sample_os)" using sample_os_ok by (simp add: os_ok_def)
  show ?thesis using jit_reset_correct [OF k ok] sample_proc_bytes by auto
qed

text \<open>
  C39: Patching is undone: after snapshots of the patch points of the entries and any successful writes
  of code into them, a reset gives back the memory as it was, except for the code cache.
\<close>

theorem patch_reset_roundtrip:
  assumes "os_ok os" "jit_ok j p" "registered_patch_points j = []" "patchable j p (vmas es)"
    and "keeps p p1" "pmem p1 = pmem p" "fold_opt patch ws p1 = Some p2" "fst ` set ws \<subseteq> set (vmas es)"
  shows "\<exists>j1 j2 p'. fold_opt (snapshot_patch_point os p) es j = Some j1 \<and> jit_reset os j1 p2 = Some (j2, p') \<and>
    (\<forall>x. in_region (cc_buffer (code_cache_of j)) (cc_size (code_cache_of j)) x \<or> pmem p' x = pmem p x)"
proof -
  let ?j1 = "j\<lparr>registered_patch_points := rev (map (snapshot_of p) (vmas es))\<rparr>"
  note s = snapshots_ok [OF assms(1-4)]
  note w = patches_effect [OF assms(7)]
  have "keeps p p2" using assms(5) w by (simp add: keeps_def proc_ok_def)
  then have ok: "jit_ok ?j1 p2" using s(2) by (rule jit_ok_keeps)
  have k: "kernel_ok (os_mprotect os)" using assms(1) by (simp add: os_ok_def)
  obtain j2 p' where p': "jit_reset os ?j1 p2 = Some (j2, p')"
    "pmem p' = put_bytes (restored (registered_patch_points ?j1) (pmem p2)) (cc_buffer (code_cache_of ?j1)) (replicate (cc_size (code_cache_of ?j1)) 0)"
    by (rule jit_reset_run [OF k ok])
  note m = jit_reset_memory [OF ok p'(2)]
  have "pmem p' x = pmem p x" if x: "\<not> in_region (cc_buffer (code_cache_of j)) (cc_size (code_cache_of j)) x" for x
  proof (cases "\<exists>a\<in>set (vmas es). in_region a PATCH_POINT_SIZE x")
    case True
    then obtain a where a: "a \<in> set (vmas es)" "in_region a PATCH_POINT_SIZE x" by blast
    then have "snapshot_of p a \<in> set (registered_patch_points ?j1)" by simp
    from m(3) [OF this] a(2) show ?thesis by (simp add: get_bytes_nth)
  next
    case False
    then have "\<forall>w\<in>set ws. \<not> in_region (fst w) PATCH_POINT_SIZE x" using assms(8) by blast
    then have "pmem p2 x = pmem p x" using w assms(6) by metis
    moreover have "pmem p' x = pmem p2 x"
    proof (rule m(2))
      show "\<not> in_region (cc_buffer (code_cache_of ?j1)) (cc_size (code_cache_of ?j1)) x" using x by simp
      fix e assume "e \<in> set (registered_patch_points ?j1)"
      then have "fst e \<in> set (vmas es)" by auto
      then show "\<not> in_region (fst e) PATCH_POINT_SIZE x" using False by blast
    qed
    ultimately show ?thesis by simp
  qed
  with s(1) p'(1) show ?thesis by blast
qed

theorem patch_reset_roundtrip_witness:
  "\<exists>p1 p2 j1 j2 p'. unwrap (mark_enclosing_mapping_rwx sample_mprotect 0x401000 sample_proc) = Some p1 \<and>
    fold_opt patch [(0x401000, from_assembled_template [] [0xC3])] p1 = Some p2 \<and> pmem p2 0x401000 = 0xC3 \<and>
    fold_opt (snapshot_patch_point sample_os sample_proc) [sample_mce 7] sample_jit = Some j1 \<and>
    jit_reset sample_os j1 p2 = Some (j2, p') \<and> pmem p' 0x401000 = pmem sample_proc 0x401000"
proof -
  let ?f = "from_assembled_template [] [0xC3]"
  obtain p1 where p1: "unwrap (mark_enclosing_mapping_rwx sample_mprotect 0x401000 sample_proc) = Some p1" "keeps sample_proc p1"
    "pmem p1 = pmem sample_proc" "\<And>x. writable (kernel_maps p1) x \<longleftrightarrow> writable (kernel_maps sample_proc) x \<or>
       same_mapping (kernel_maps sample_proc) 0x401000 x"
    using mark_rwx [OF sample_kernel_ok sample_proc_ok in_mapping_self [OF sample_regions(2)]] by metis
  have "writable (kernel_maps p1) x" if "in_region 0x401000 PATCH_POINT_SIZE x" for x
    unfolding p1(4) using that sample_regions(2) by (simp add: in_mapping_def)
  moreover have "0 < instance_len ?f" "instance_len ?f \<le> PATCH_POINT_SIZE" "get_bytes (pmem p1) 0x401000 PATCH_POINT_SIZE = NOP_PATTERN"
    using p1(3) sample_proc_bytes by (simp_all add: instance_len_def from_assembled_template_def PATCH_POINT_SIZE_def)
  ultimately obtain p2 where "instance_write 0x401000 ?f p1 = Some (?f\<lparr>fi_vma := Some 0x401000\<rparr>, p2)"
    using instance_write_run by blast
  note p2 = this instance_write_effect(3) [OF this]
  then have f: "fold_opt patch [(0x401000, ?f)] p1 = Some p2" by (simp add: patch_def)
  have "get_bytes (pmem p2) 0x401000 PATCH_POINT_SIZE ! 0 = 0xC3" using p2(2) by (simp add: from_assembled_template_def)
  then have "pmem p2 0x401000 = 0xC3" by (simp add: get_bytes_def PATCH_POINT_SIZE_def)
  moreover have "\<not> in_region (cc_buffer (code_cache_of sample_jit)) (cc_size (code_cache_of sample_jit)) 0x401000"
    by (simp add: sample_jit_def in_region_def)
  moreover have "registered_patch_points sample_jit = []" "fst ` set [(0x401000, ?f)] \<subseteq> set (vmas [sample_mce 7])"
    by (simp_all add: sample_jit_def vmas_def sample_mce_def)
  ultimately show ?thesis
    using patch_reset_roundtrip [OF sample_os_ok sample_jit_ok _ sample_patchable p1(2,3) f] p1(1) f by blast
qed

text \<open>
  C40: The slots that \<^verbatim>\<open>allocate\<close> hands out lie one after the other in the free part of the code cache,
  so that no allocation overwrites the code of an earlier one, and they succeed while there is space.
\<close>

theorem allocations_intact:
  assumes "kernel_ok (os_mprotect os)" "proc_ok p" "cache_ok p (code_cache_of j)"
    and "list_all2 (\<lambda>t f. jit_assemble os t = Some f \<and> 0 < instance_len f) ts fs"
    and "sum_list (map instance_len fs) \<le> un_len (code_cache_of j)"
  shows "\<exists>fs' j' p'. allocate_all os ts j p = Some (fs', j', p') \<and> map machine_code fs' = map machine_code fs \<and>
    placed (pmem p') (un_start (code_cache_of j)) fs' \<and>
    (\<forall>x. in_region (un_start (code_cache_of j)) (sum_list (map instance_len fs)) x \<or> pmem p' x = pmem p x)"
  using allocate_all_run [OF assms] by blast

theorem allocations_intact_witness:
  "\<exists>fs' j' p'. allocate_all sample_os [template_new [RET] False, template_new [NOP] True] sample_jit sample_proc = Some (fs', j', p') \<and>
    map machine_code fs' = [[114, 101, 116], [110, 111, 112]] \<and> placed (pmem p') 0x500000 fs'"
proof -
  let ?f = "from_assembled_template [''ret''] [114, 101, 116]" and ?g = "from_assembled_template [''nop'', ''ret''] [110, 111, 112]"
  have "of_char (CHR ''r'') = (114 :: u8)" "of_char (CHR ''e'') = (101 :: u8)" "of_char (CHR ''t'') = (116 :: u8)"
    "of_char (CHR ''n'') = (110 :: u8)" "of_char (CHR ''o'') = (111 :: u8)" "of_char (CHR ''p'') = (112 :: u8)" by simp_all
  then have a: "list_all2 (\<lambda>t f. jit_assemble sample_os t = Some f \<and> 0 < instance_len f) [template_new [RET] False, template_new [NOP] True] [?f, ?g]"
    by (simp add: jit_assemble_def template_assemble_def template_new_def template_code_def sample_os_def instance_len_def
        from_assembled_template_def Let_def numeral_3_eq_3)
  have k: "kernel_ok (os_mprotect sample_os)" using sample_os_ok by (simp add: os_ok_def)
  have c: "cache_ok sample_proc (code_cache_of sample_jit)" using sample_jit_ok by (simp add: jit_ok_def)
  have "sum_list (map instance_len [?f, ?g]) \<le> un_len (code_cache_of sample_jit)"
    by (simp add: instance_len_def from_assembled_template_def sample_jit_def)
  from allocations_intact [OF k sample_proc_ok c a this] show ?thesis
    by (auto simp: from_assembled_template_def sample_jit_def)
qed

end
