(* ===== verification/Agent.thy ===== *)
theory Agent
  imports Jit Tracing Mutation_Cache
begin

text \<open>
  The agent (\<^verbatim>\<open>generator/agent/src/agent.rs\<close>): the entry points that the instrumented program calls,
  \<^verbatim>\<open>sync_mutations\<close>, which rewrites the patch points of the program as the mutation cache says, \<^verbatim>\<open>run\<close>,
  which forks a child and reports how it ended, and the loop \<^verbatim>\<open>process_messages\<close> that serves the fuzzer.
  The results of system calls, what a child does and what the fuzzer wrote into the shared mutation
  cache are parameters; a panic of the agent is \<open>None\<close>.
\<close>

section \<open>State\<close>

record agent =
  ag_cache :: mcache
  ag_jit :: jit
  ag_trace :: "u64 trace_map"
  ag_proc :: process

text \<open>
  What the agent finds in its process: the operating system, the layout of the mutation cache and the
  address of an entry in it, the address of \<^verbatim>\<open>__tracing_cb\<close>, the size of a trace map entry, and whether
  \<^verbatim>\<open>mmap\<close> and \<^verbatim>\<open>munmap\<close> of the trace map and the sending of messages succeed.
\<close>

record agent_env =
  ae_os :: os
  ae_layout :: layout
  ae_offsets :: mce_offsets
  ae_entry_addr :: "mce \<Rightarrow> u64"
  ae_tracing_cb :: u64
  ae_entry_size :: nat
  ae_mapped :: bool
  ae_unmapped :: bool
  ae_accepted :: bool

datatype process_type = CHILD | PARENT

section \<open>Entry points\<close>

text \<open>A message of the agent: it panics when it cannot be sent.\<close>

definition emit :: "agent_env \<Rightarrow> message \<Rightarrow> message list option" where
  "emit E m = do { require (ae_accepted E); Some [m] }"

definition ft_after_listen :: "agent_env \<Rightarrow> bool \<Rightarrow> message list option" where
  "ft_after_listen E standalone = (if \<not> standalone then emit E after_listen_new else Some [])"

definition ft_after_bind :: "agent_env \<Rightarrow> bool \<Rightarrow> message list option" where
  "ft_after_bind E standalone = (if \<not> standalone then emit E after_bind_new else Some [])"

definition ft_server_ready :: "bool \<Rightarrow> message list option" where
  "ft_server_ready standalone = (if \<not> standalone then None else Some [])"

definition ft_after_connect :: "agent_env \<Rightarrow> bool \<Rightarrow> message list option" where
  "ft_after_connect E standalone = (if \<not> standalone then emit E after_connect_new else Some [])"

text \<open>What \<^verbatim>\<open>CommunicationChannel::from_env\<close> finds.\<close>

datatype channel_result = MissingEnvironmentVariables | OtherChannelError | ChannelOpened

text \<open>
  The start of the fork server: without the channel the program runs on its own. \<open>log_ok\<close> is whether
  the log level is known and the logger starts, \<open>rlim\<close> the result of \<^verbatim>\<open>setrlimit\<close>, \<open>cache\<close> what
  \<^verbatim>\<open>MutationCache::open_shm_from_env\<close> finds, \<open>buffer\<close> and \<open>maps\<close> what \<^verbatim>\<open>mmap\<close> gives for the code cache.
\<close>

definition agent_new :: "(mc_error + mcache) option \<Rightarrow> u64 option \<Rightarrow> map_range list \<Rightarrow> process \<Rightarrow>
    (mcache \<times> jit \<times> process) option" where
  "agent_new cache buffer maps p = do {
     c \<leftarrow> unwrap cache;
     (j, p) \<leftarrow> jit_new buffer maps p;
     Some (c, j, p) }"

definition start_forkserver :: "agent_env \<Rightarrow> channel_result \<Rightarrow> bool \<Rightarrow> int \<Rightarrow> u32 \<Rightarrow> (mc_error + mcache) option \<Rightarrow>
    u64 option \<Rightarrow> map_range list \<Rightarrow> process \<Rightarrow> (message list \<times> agent option) option" where
  "start_forkserver E chan log_ok rlim tid cache buffer maps p = (case chan of
     MissingEnvironmentVariables \<Rightarrow> Some ([], None)
   | OtherChannelError \<Rightarrow> None
   | ChannelOpened \<Rightarrow> do {
       require log_ok;
       require (rlim = 0);
       let tm = tm_new;
       let p = update_proc_mappings p;
       hello \<leftarrow> emit E (hello_new tid);
       (c, j, p) \<leftarrow> agent_new cache buffer maps p;
       Some (hello, Some \<lparr>ag_cache = c, ag_jit = j, ag_trace = tm, ag_proc = p\<rparr>) })"

text \<open>The flag \<^verbatim>\<open>INIT_DONE\<close> and whether the fork server is to be started.\<close>

definition ft_auto_init :: "bool \<Rightarrow> bool \<times> bool" where
  "ft_auto_init init_done = (True, \<not> init_done)"


section \<open>Synchronization\<close>









section \<open>Running the program\<close>



text \<open>The child's part: it sends its id and detaches from the shared cache, \<open>private_ok\<close> is whether that succeeds.\<close>

definition run_child :: "agent_env \<Rightarrow> u64 \<Rightarrow> bool \<Rightarrow> (message list \<times> process_type) option" where
  "run_child E pid private_ok = do {
     m \<leftarrow> emit E (child_pid_new pid);
     require private_ok;
     Some (m, CHILD) }"




section \<open>The main loop\<close>




section \<open>Specification of the patched program\<close>









section \<open>What the compiler changes\<close>








section \<open>One entry\<close>





















section \<open>Access rights of the patch points\<close>



section \<open>The invariant of the agent\<close>









section \<open>Synchronization\<close>







section \<open>Runs\<close>






section \<open>The main loop\<close>











section \<open>A program with one traced and mutated site\<close>
















section \<open>Properties\<close>







end
