(* ===== verification/Event_Counter.thy ===== *)
theory Event_Counter
  imports FT_Prelude
begin

text \<open>
  The statistics of a fuzzing worker (\<^verbatim>\<open>scheduler/src/fuzzer/event_counter.rs\<close>): counters of
  executions and their outcomes, which the workers add up, subtract and sum over the campaign.
  An \<^verbatim>\<open>Instant\<close> is the number of nanoseconds on the monotonic clock; operations that read the clock
  take its value as the argument \<open>now\<close>. The averaged rate \<^verbatim>\<open>execs_per_sec\<close> is a floating-point value
  that is only printed; it is not modelled.
\<close>

type_synonym instant = nat
type_synonym duration = nat

record event_counter =
  init_ts :: "instant option"
  last_finding_ts :: "instant option"
  last_crash_ts :: "instant option"
  execs :: u64
  successful_source_execs :: u64
  edges_found :: u64
  hits_found :: u64
  source_crashes :: u64
  source_timeout :: u64
  source_no_output :: u64
  source_duplicated_output :: u64
  sink_timeout :: u64
  sink_crashes :: u64
  sink_unique_crashes :: u64

definition ec_new :: event_counter where
  "ec_new = \<lparr>init_ts = None, last_finding_ts = None, last_crash_ts = None, execs = 0, successful_source_execs = 0,
     edges_found = 0, hits_found = 0, source_crashes = 0, source_timeout = 0, source_no_output = 0,
     source_duplicated_output = 0, sink_timeout = 0, sink_crashes = 0, sink_unique_crashes = 0\<rparr>"

definition ec_init :: "instant \<Rightarrow> event_counter \<Rightarrow> event_counter option" where
  "ec_init now c = do {
     require (init_ts c = None);
     Some (c\<lparr>init_ts := Some now\<rparr>) }"

text \<open>\<^verbatim>\<open>Instant::elapsed\<close>, which is zero for an instant in the future.\<close>

definition elapsed :: "instant \<Rightarrow> instant \<Rightarrow> duration" where
  "elapsed now ts = now - ts"

definition runtime :: "instant \<Rightarrow> event_counter \<Rightarrow> duration option" where
  "runtime now c = map_option (elapsed now) (init_ts c)"

definition paths :: "event_counter \<Rightarrow> u64 option" where
  "paths c = checked_add (hits_found c) (edges_found c)"

definition time_since_last_new_path_or_crash :: "instant \<Rightarrow> event_counter \<Rightarrow> duration option" where
  "time_since_last_new_path_or_crash now c =
     (case List.map_filter id [last_finding_ts c, last_crash_ts c] of
        [] \<Rightarrow> None | ts # tss \<Rightarrow> Some (elapsed now (fold max tss ts)))"

section \<open>Arithmetic\<close>

text \<open>
  The four operators of the source are the same sequence of ten assignments with \<^verbatim>\<open>+=\<close> or \<^verbatim>\<open>-=\<close>. The
  time stamps and \<^verbatim>\<open>sink_unique_crashes\<close> keep the value of the left operand.
\<close>

definition ec_assign :: "(u64 \<Rightarrow> u64 \<Rightarrow> u64 option) \<Rightarrow> event_counter \<Rightarrow> event_counter \<Rightarrow> event_counter option" where
  "ec_assign f c rhs = do {
     a \<leftarrow> f (execs c) (execs rhs);
     b \<leftarrow> f (successful_source_execs c) (successful_source_execs rhs);
     d \<leftarrow> f (edges_found c) (edges_found rhs);
     e \<leftarrow> f (hits_found c) (hits_found rhs);
     g \<leftarrow> f (source_crashes c) (source_crashes rhs);
     h \<leftarrow> f (source_timeout c) (source_timeout rhs);
     i \<leftarrow> f (source_no_output c) (source_no_output rhs);
     j \<leftarrow> f (source_duplicated_output c) (source_duplicated_output rhs);
     k \<leftarrow> f (sink_timeout c) (sink_timeout rhs);
     l \<leftarrow> f (sink_crashes c) (sink_crashes rhs);
     Some (c\<lparr>execs := a, successful_source_execs := b, edges_found := d, hits_found := e, source_crashes := g,
       source_timeout := h, source_no_output := i, source_duplicated_output := j, sink_timeout := k, sink_crashes := l\<rparr>) }"

definition ec_add_assign :: "event_counter \<Rightarrow> event_counter \<Rightarrow> event_counter option" where
  "ec_add_assign = ec_assign checked_add"

definition ec_add :: "event_counter \<Rightarrow> event_counter \<Rightarrow> event_counter option" where
  "ec_add = ec_assign checked_add"

definition ec_sub :: "event_counter \<Rightarrow> event_counter \<Rightarrow> event_counter option" where
  "ec_sub = ec_assign checked_sub"

definition ec_sub_assign :: "event_counter \<Rightarrow> event_counter \<Rightarrow> event_counter option" where
  "ec_sub_assign = ec_assign checked_sub"

definition ec_sum_ts :: "event_counter \<Rightarrow> event_counter \<Rightarrow> event_counter" where
  "ec_sum_ts e res = (case init_ts e of None \<Rightarrow> res
     | Some ts \<Rightarrow> (case init_ts res of None \<Rightarrow> res\<lparr>init_ts := Some ts\<rparr>
         | Some res_ts \<Rightarrow> if res_ts < ts then res\<lparr>init_ts := Some ts\<rparr> else res))"

fun ec_sum_loop :: "event_counter list \<Rightarrow> event_counter \<Rightarrow> event_counter option" where
  "ec_sum_loop [] res = Some res"
| "ec_sum_loop (e # es) res = do {
     res \<leftarrow> ec_add_assign res e;
     ec_sum_loop es (ec_sum_ts e res) }"

definition ec_sum :: "event_counter list \<Rightarrow> event_counter option" where
  "ec_sum es = ec_sum_loop es ec_new"

section \<open>The counters as a list\<close>

text \<open>The ten counters that the operators change.\<close>

definition ec_fields :: "event_counter \<Rightarrow> u64 list" where
  "ec_fields c = [execs c, successful_source_execs c, edges_found c, hits_found c, source_crashes c,
     source_timeout c, source_no_output c, source_duplicated_output c, sink_timeout c, sink_crashes c]"

lemma length_ec_fields [simp]: "length (ec_fields c) = 10"
  by (simp add: ec_fields_def)

lemma ec_assign_fields:
  "ec_assign f c rhs = Some d \<longleftrightarrow>
     list_all2 (\<lambda>x y. x = Some y) (map2 f (ec_fields c) (ec_fields rhs)) (ec_fields d) \<and> init_ts d = init_ts c \<and>
     last_finding_ts d = last_finding_ts c \<and> last_crash_ts d = last_crash_ts c \<and> sink_unique_crashes d = sink_unique_crashes c"
  by (cases c; cases d) (auto simp: ec_assign_def ec_fields_def bind_eq_Some_conv)

lemma ec_assign_None: "ec_assign f c rhs = None \<longleftrightarrow> (\<exists>i<10. f (ec_fields c ! i) (ec_fields rhs ! i) = None)"
proof -
  have "ec_assign f c rhs = None \<longleftrightarrow> None \<in> set (map2 f (ec_fields c) (ec_fields rhs))"
    by (auto simp: ec_assign_def ec_fields_def split: bind_splits)
  also have "\<dots> \<longleftrightarrow> (\<exists>i<10. f (ec_fields c ! i) (ec_fields rhs ! i) = None)"
    unfolding in_set_conv_nth by auto
  finally show ?thesis .
qed

lemma ec_assign_nth:
  assumes "ec_assign f c rhs = Some d" "i < 10"
  shows "f (ec_fields c ! i) (ec_fields rhs ! i) = Some (ec_fields d ! i)"
  using assms by (auto simp: ec_assign_fields list_all2_conv_all_nth)

text \<open>Subtracting what was added gives the counters back.\<close>

lemma ec_sub_add:
  assumes "ec_add_assign c d = Some e"
  shows "ec_sub_assign e d = Some c"
  using assms unfolding ec_add_assign_def ec_sub_assign_def ec_assign_fields
  by (auto simp: list_all2_conv_all_nth intro: checked_sub_add)

lemma ec_sum_ts_fields [simp]:
  "ec_fields (ec_sum_ts e res) = ec_fields res" "sink_unique_crashes (ec_sum_ts e res) = sink_unique_crashes res"
  by (simp_all add: ec_sum_ts_def ec_fields_def split: option.split)

lemma ec_sum_ts_newest:
  "init_ts (ec_sum_ts e res) = (case (init_ts e, init_ts res) of (None, t) \<Rightarrow> t | (t, None) \<Rightarrow> t | (Some a, Some b) \<Rightarrow> Some (max a b))"
  by (auto simp: ec_sum_ts_def max_def split: option.split)

lemma ec_add_assign_unat:
  assumes "ec_add_assign c d = Some e" "i < 10"
  shows "unat (ec_fields e ! i) = unat (ec_fields c ! i) + unat (ec_fields d ! i)"
  using ec_assign_nth [of checked_add c d e i] assms by (simp add: ec_add_assign_def checked_add_Some)

lemma ec_sum_loop_None:
  "ec_sum_loop es res = None \<longleftrightarrow>
     (\<exists>i<10. unat (ec_fields res ! i) + (\<Sum>e\<leftarrow>es. unat (ec_fields e ! i)) \<ge> 2 ^ 64)"
proof (induction es arbitrary: res)
  case Nil
  have "unat (ec_fields res ! i) < 2 ^ 64" for i using unsigned_less [of "ec_fields res ! i", where 'a = nat] by simp
  then show ?case by (auto simp: not_le)
next
  case (Cons e es)
  show ?case
  proof (cases "ec_add_assign res e")
    case None
    then have "\<exists>i<10. unat (ec_fields res ! i) + unat (ec_fields e ! i) \<ge> 2 ^ 64"
      by (simp add: ec_add_assign_def ec_assign_None checked_add_None)
    then show ?thesis using None by (auto intro: order_trans [OF _ add_left_mono])
  next
    case (Some d)
    then show ?thesis using Cons.IH [of "ec_sum_ts e d"] ec_add_assign_unat [OF Some] by (auto simp: add.assoc)
  qed
qed

fun newest :: "instant option \<Rightarrow> instant option \<Rightarrow> instant option" where
  "newest None t = t"
| "newest t None = t"
| "newest (Some a) (Some b) = Some (max a b)"

lemma newest_None [simp]: "newest t None = t"
  by (cases t) auto

lemma newest_assoc: "newest (newest a b) c = newest a (newest b c)" "newest a b = newest b a"
  by (cases a; cases b; cases c; simp add: max.assoc max.commute)+

lemma ec_sum_loop_Some:
  "ec_sum_loop es res = Some c \<Longrightarrow>
     (\<forall>i<10. unat (ec_fields c ! i) = unat (ec_fields res ! i) + (\<Sum>e\<leftarrow>es. unat (ec_fields e ! i))) \<and>
     sink_unique_crashes c = sink_unique_crashes res \<and> init_ts c = fold newest (map init_ts es) (init_ts res)"
proof (induction es arbitrary: res)
  case (Cons e es)
  from Cons.prems obtain d where d: "ec_add_assign res e = Some d" "ec_sum_loop es (ec_sum_ts e d) = Some c"
    by (auto split: bind_splits)
  have k: "init_ts d = init_ts res" "sink_unique_crashes d = sink_unique_crashes res"
    using d(1) by (simp_all add: ec_add_assign_def ec_assign_fields)
  have "init_ts (ec_sum_ts e d) = newest (init_ts e) (init_ts res)"
    using k(1) by (cases "init_ts e"; cases "init_ts res") (auto simp: ec_sum_ts_def max_def)
  then show ?case using Cons.IH [OF d(2)] ec_add_assign_unat [OF d(1)] k by simp
qed simp

lemma Max_insert_max: "finite S \<Longrightarrow> Max (insert (max a b) S) = max b (Max (insert a S))"
  by (cases "S = {}") (simp_all add: max.commute max.left_commute)

lemma fold_newest:
  "fold newest ts t = (case List.map_filter id (t # ts) of [] \<Rightarrow> None | x # xs \<Rightarrow> Some (Max (set (x # xs))))"
proof (induction ts arbitrary: t)
  case (Cons a ts)
  then show ?case
    by (cases a; cases t) (auto simp: List.map_filter_simps Max_insert_max split: list.split)
qed (auto simp: List.map_filter_simps split: option.split)

section \<open>Properties\<close>

text \<open>
  C13: The sum over the counters of all workers panics exactly when one of the ten counters overflows 64
  bits and otherwise adds each of them up. Its time stamp is the \<^emph>\<open>newest\<close> of the summed ones (the
  comment of \<^verbatim>\<open>sum\<close> announces the oldest) and the unique crashes are lost: their sum is always zero.
\<close>

theorem event_counter_sum:
  "(ec_sum es = None \<longleftrightarrow> (\<exists>i<10. (\<Sum>e\<leftarrow>es. unat (ec_fields e ! i)) \<ge> 2 ^ 64)) \<and>
   (\<forall>c. ec_sum es = Some c \<longrightarrow> (\<forall>i<10. unat (ec_fields c ! i) = (\<Sum>e\<leftarrow>es. unat (ec_fields e ! i))) \<and>
      sink_unique_crashes c = 0 \<and>
      init_ts c = (case List.map_filter init_ts es of [] \<Rightarrow> None | t # ts \<Rightarrow> Some (Max (set (t # ts)))))"
proof -
  have z: "ec_fields ec_new ! i = 0" if "i < 10" for i
    using that by (auto simp: ec_fields_def ec_new_def nth_Cons' less_Suc_eq numeral_eq_Suc)
  have m: "List.map_filter id (None # map init_ts es) = List.map_filter init_ts es"
    by (induction es) (auto simp: List.map_filter_simps split: option.split)
  show ?thesis
    unfolding ec_sum_def ec_sum_loop_None
    using ec_sum_loop_Some [of es ec_new] fold_newest [of "map init_ts es" None] z m
    by (auto simp: ec_new_def)
qed

theorem event_counter_sum_witness:
  "\<exists>c. ec_sum [ec_new\<lparr>execs := 3, init_ts := Some 5\<rparr>, ec_new\<lparr>execs := 4, sink_unique_crashes := 2, init_ts := Some 9\<rparr>] = Some c \<and>
     execs c = 7 \<and> sink_unique_crashes c = 0 \<and> init_ts c = Some 9"
proof -
  let ?es = "[ec_new\<lparr>execs := 3, init_ts := Some 5\<rparr>, ec_new\<lparr>execs := 4, sink_unique_crashes := 2, init_ts := Some 9\<rparr>]"
  have "ec_sum ?es \<noteq> None"
    by (simp add: ec_sum_def ec_add_assign_def ec_assign_def ec_new_def checked_add_def ec_sum_ts_def)
  then obtain c where c: "ec_sum ?es = Some c" by blast
  then have "unat (ec_fields c ! 0) = (\<Sum>e\<leftarrow>?es. unat (ec_fields e ! 0))" "sink_unique_crashes c = 0" "init_ts c = Some 9"
    using event_counter_sum [of ?es] by (auto simp: List.map_filter_simps ec_new_def)
  then have "unat (execs c) = 7" by (simp add: ec_fields_def)
  then have "execs c = 7" using word_unat_eq_iff [of "execs c" 7] by simp
  then show ?thesis using c \<open>sink_unique_crashes c = 0\<close> \<open>init_ts c = Some 9\<close> by blast
qed

end
