(* ===== verification/Queue.thy ===== *)
theory Queue
  imports Integer_Set Sink_Bitmap Tracing Mutators Proc_Maps "HOL-Library.Multiset"
begin

text \<open>
  The queue of the fuzzer (\<^verbatim>\<open>scheduler/src/fuzzer/queue.rs\<close>): inputs, queue entries with their mutable
  statistics, the queue that all workers share, and its dump to and load from a directory.

  A queue entry is immutable except for its statistics, which all clones of the entry share through
  \<^verbatim>\<open>Arc<RwLock<QueueEntryStats>>\<close>: an entry holds the address of its statistics in a store. Entry ids
  come from a global counter and inputs are kept in a global cache; both are part of the state.
  \<^verbatim>\<open>Sha256\<close>, the compression and the JSON coder are parameters. \<^verbatim>\<open>print_queue_stats\<close> only logs.
\<close>

section \<open>Phases and inputs\<close>

datatype fuzzing_phase = FP_Discovery | FP_Mutate | FP_Add | FP_Combine | FP_None | FP_Exit

record input =
  input_data :: "u8 list"
  input_digest :: str
  input_origin :: "str option"

type_synonym inputs_cache = "str \<rightharpoonup> input"

definition input_from_bytes :: "(u8 list \<Rightarrow> str) \<Rightarrow> u8 list \<Rightarrow> str option \<Rightarrow> inputs_cache \<Rightarrow> input \<times> inputs_cache" where
  "input_from_bytes sha256 dat origin cache =
     (let digest = sha256 dat; ret = \<lparr>input_data = dat, input_digest = digest, input_origin = origin\<rparr>
      in (ret, if cache digest = None then cache(digest \<mapsto> ret) else cache))"

datatype io_error = IoError

text \<open>\<open>content\<close> is what reading the file gives, if it can be read.\<close>

definition input_from_path :: "(u8 list \<Rightarrow> str) \<Rightarrow> str \<Rightarrow> u8 list option \<Rightarrow> inputs_cache \<Rightarrow> (io_error + input) \<times> inputs_cache" where
  "input_from_path sha256 path content cache = (case content of None \<Rightarrow> (Inl IoError, cache)
     | Some dat \<Rightarrow> let (i, cache) = input_from_bytes sha256 dat (Some path) cache in (Inr i, cache))"

text \<open>The second loop of \<^verbatim>\<open>from_dir\<close>, over the paths of the directory.\<close>

fun inputs_from_paths :: "(u8 list \<Rightarrow> str) \<Rightarrow> (str \<times> u8 list option) list \<Rightarrow> inputs_cache \<Rightarrow> (io_error + input list) \<times> inputs_cache" where
  "inputs_from_paths sha256 [] cache = (Inr [], cache)"
| "inputs_from_paths sha256 ((path, content) # fs) cache =
     (case input_from_path sha256 path content cache of
        (Inl e, cache) \<Rightarrow> (Inl e, cache)
      | (Inr i, cache) \<Rightarrow> (case inputs_from_paths sha256 fs cache of
          (Inl e, cache) \<Rightarrow> (Inl e, cache) | (Inr is, cache) \<Rightarrow> (Inr (i # is), cache)))"

definition input_from_dir :: "(u8 list \<Rightarrow> str) \<Rightarrow> (str \<times> u8 list option) list option \<Rightarrow> inputs_cache \<Rightarrow> (io_error + input list) \<times> inputs_cache" where
  "input_from_dir sha256 dir cache = (case dir of None \<Rightarrow> (Inl IoError, cache) | Some fs \<Rightarrow> inputs_from_paths sha256 fs cache)"

definition input_len :: "input \<Rightarrow> nat" where
  "input_len i = length (input_data i)"

definition input_is_empty :: "input \<Rightarrow> bool" where
  "input_is_empty i \<longleftrightarrow> input_len i = 0"

section \<open>Statistics of an entry\<close>

definition MAX_PATCHPOINT_CNT :: nat where "MAX_PATCHPOINT_CNT = 400000"

definition MAX_QUEUE_ENTRY_CNT :: nat where "MAX_QUEUE_ENTRY_CNT = 100000"

definition DEFAULT_FAVOURED_WEIGHT :: u32 where "DEFAULT_FAVOURED_WEIGHT = 3"

record entry_stats =
  qs_trace :: "trace option"
  qs_tracing_in_progress :: bool
  qs_blacklisted :: bool
  qs_phases_done :: "fuzzing_phase set"
  qs_discovery_pending :: "fis option"
  qs_combine_done :: "fis option"
  qs_mutators_done :: "mutator_type set"
  qs_favoured_weight :: "u32 option"

definition qs_new :: entry_stats where
  "qs_new = \<lparr>qs_trace = None, qs_tracing_in_progress = False, qs_blacklisted = False, qs_phases_done = {},
     qs_discovery_pending = None, qs_combine_done = None, qs_mutators_done = {}, qs_favoured_weight = None\<rparr>"

definition set_trace :: "trace \<Rightarrow> entry_stats \<Rightarrow> entry_stats" where
  "set_trace t s = s\<lparr>qs_trace := Some t\<rparr>"

definition set_blacklisted :: "entry_stats \<Rightarrow> entry_stats" where
  "set_blacklisted s = s\<lparr>qs_blacklisted := True\<rparr>"

definition is_phase_done :: "fuzzing_phase \<Rightarrow> entry_stats \<Rightarrow> bool" where
  "is_phase_done phase s \<longleftrightarrow> phase \<in> qs_phases_done s"

definition mark_phase_done :: "fuzzing_phase \<Rightarrow> entry_stats \<Rightarrow> entry_stats" where
  "mark_phase_done phase s = s\<lparr>qs_phases_done := insert phase (qs_phases_done s)\<rparr>"

definition mark_tracing_in_progress :: "entry_stats \<Rightarrow> entry_stats option" where
  "mark_tracing_in_progress s = do {
     require (\<not> qs_tracing_in_progress s);
     Some (s\<lparr>qs_tracing_in_progress := True\<rparr>) }"

text \<open>
  \<open>iter\<close> is the order in which the set of covered sites is iterated, \<open>pick\<close> and \<open>shuffle\<close> are the
  random choices of \<^verbatim>\<open>choose_random\<close>.
\<close>

definition discovery_allocate :: "(u64 set \<Rightarrow> u64 list) \<Rightarrow> (nat set \<Rightarrow> nat \<Rightarrow> nat list) \<Rightarrow> (nat list \<Rightarrow> nat list) \<Rightarrow>
    nat \<Rightarrow> entry_stats \<Rightarrow> (fis \<times> entry_stats) option" where
  "discovery_allocate iter pick shuffle m s = do {
     pending \<leftarrow> (case qs_discovery_pending s of Some pending \<Rightarrow> Some pending
       | None \<Rightarrow> do {
           t \<leftarrow> qs_trace s;
           fis_from_iter MAX_PATCHPOINT_CNT (map unat (iter (covered t))) });
     selection \<leftarrow> fis_choose_random pick shuffle m pending;
     Some (selection, s\<lparr>qs_discovery_pending := Some (fis_sub_assign pending selection)\<rparr>) }"

definition combined_with_mut :: "entry_stats \<Rightarrow> fis \<times> entry_stats" where
  "combined_with_mut s = (case qs_combine_done s of Some tried \<Rightarrow> (tried, s)
     | None \<Rightarrow> let tried = fis_new MAX_QUEUE_ENTRY_CNT in (tried, s\<lparr>qs_combine_done := Some tried\<rparr>))"

definition mark_mutator_done :: "mutator_type \<Rightarrow> entry_stats \<Rightarrow> bool \<times> entry_stats" where
  "mark_mutator_done m s = (m \<notin> qs_mutators_done s, s\<lparr>qs_mutators_done := insert m (qs_mutators_done s)\<rparr>)"

definition is_mutator_done :: "mutator_type \<Rightarrow> entry_stats \<Rightarrow> bool" where
  "is_mutator_done m s \<longleftrightarrow> m \<in> qs_mutators_done s"

definition is_favoured :: "entry_stats \<Rightarrow> bool" where
  "is_favoured s \<longleftrightarrow> qs_favoured_weight s \<noteq> None"

text \<open>\<^verbatim>\<open>NonZeroU32::new\<close>\<close>

definition nonzero_u32 :: "u32 \<Rightarrow> u32 option" where
  "nonzero_u32 w = (if w = 0 then None else Some w)"

definition mark_favoured_once :: "entry_stats \<Rightarrow> entry_stats" where
  "mark_favoured_once s = (if qs_favoured_weight s = None
     then s\<lparr>qs_favoured_weight := nonzero_u32 DEFAULT_FAVOURED_WEIGHT\<rparr> else s)"

definition favoured_decrement :: "entry_stats \<Rightarrow> entry_stats" where
  "favoured_decrement s = s\<lparr>qs_favoured_weight := (case qs_favoured_weight s of
     Some old \<Rightarrow> if old > 1 then nonzero_u32 (old - 1) else Some old | None \<Rightarrow> None)\<rparr>"

section \<open>Entries\<close>

record queue_entry =
  qe_id :: u64
  qe_parent_id :: "u64 option"
  qe_phase :: "fuzzing_phase option"
  qe_mutator :: "mutator_type option"
  qe_patch_point :: "u64 option"
  qe_finder :: "nat option"
  qe_input :: input
  qe_creation_ts :: "int option"
  qe_mutations :: "u8 list option"
  qe_bitmap_hash32 :: u32
  qe_covered_edges :: bitmap
  qe_avg_exec_duration :: nat
  qe_stats :: nat
  qe_sink_unstable :: bool
  qe_generation :: nat
  qe_is_crash :: bool
  qe_pcap :: "u8 list option"

type_synonym store = "entry_stats list"

record globals =
  next_entry_id :: u64
  stats_store :: store
  inputs :: inputs_cache

text \<open>\<^verbatim>\<open>stats_ro\<close> and \<^verbatim>\<open>stats_rw\<close>: reading the statistics of an entry, and updating them under the lock.\<close>

definition stats_ro :: "queue_entry \<Rightarrow> store \<Rightarrow> entry_stats option" where
  "stats_ro e st = (if qe_stats e < length st then Some (st ! qe_stats e) else None)"

definition stats_rw :: "queue_entry \<Rightarrow> (entry_stats \<Rightarrow> entry_stats) \<Rightarrow> store \<Rightarrow> store option" where
  "stats_rw e f st = do {
     s \<leftarrow> stats_ro e st;
     Some (st[qe_stats e := f s]) }"

definition qe_new :: "input \<Rightarrow> u8 list option \<Rightarrow> u32 \<Rightarrow> nat \<Rightarrow> bool \<Rightarrow> bitmap \<Rightarrow> nat option \<Rightarrow> fuzzing_phase option \<Rightarrow>
    mutator_type option \<Rightarrow> u64 option \<Rightarrow> bool \<Rightarrow> u8 list option \<Rightarrow> globals \<Rightarrow> (queue_entry \<times> globals) option" where
  "qe_new inp mutations hash avg unstable coverage finder phase mt pp is_crash pcap g = do {
     edges \<leftarrow> bm_minimize coverage;
     let e = \<lparr>qe_id = next_entry_id g, qe_parent_id = None, qe_phase = phase, qe_mutator = mt, qe_patch_point = pp,
       qe_finder = finder, qe_input = inp, qe_creation_ts = None, qe_mutations = mutations, qe_bitmap_hash32 = hash,
       qe_covered_edges = edges, qe_avg_exec_duration = avg, qe_stats = length (stats_store g), qe_sink_unstable = unstable,
       qe_generation = 0, qe_is_crash = is_crash, qe_pcap = pcap\<rparr>;
     Some (e, g\<lparr>next_entry_id := next_entry_id g + 1, stats_store := stats_store g @ [qs_new]\<rparr>) }"

definition set_parent :: "queue_entry \<Rightarrow> queue_entry \<Rightarrow> queue_entry" where
  "set_parent parent e = e\<lparr>qe_parent_id := Some (qe_id parent), qe_generation := qe_generation parent + 1\<rparr>"

definition set_creation_ts :: "int \<Rightarrow> queue_entry \<Rightarrow> queue_entry" where
  "set_creation_ts ts e = e\<lparr>qe_creation_ts := Some ts\<rparr>"

text \<open>\<^verbatim>\<open>PartialEq\<close> and \<^verbatim>\<open>Hash\<close> of entries look at the id only.\<close>

definition qe_eq :: "queue_entry \<Rightarrow> queue_entry \<Rightarrow> bool" where
  "qe_eq a b \<longleftrightarrow> qe_id a = qe_id b"

section \<open>The queue\<close>

record queue =
  q_entries :: "queue_entry list"
  q_start_ts :: int

definition queue_new :: "int \<Rightarrow> queue" where
  "queue_new now = \<lparr>q_entries = [], q_start_ts = now\<rparr>"

definition queue_push :: "queue_entry \<Rightarrow> queue \<Rightarrow> queue" where
  "queue_push e q = q\<lparr>q_entries := q_entries q @ [e]\<rparr>"

definition queue_append :: "queue_entry list \<Rightarrow> queue \<Rightarrow> queue" where
  "queue_append es q = fold queue_push es q"

text \<open>The iterator takes the entries from the end of its copy of the vector.\<close>

fun pop_all :: "'a list \<Rightarrow> 'a list" where
  "pop_all xs = (if xs = [] then [] else last xs # pop_all (butlast xs))"

declare pop_all.simps [simp del]

definition queue_iter :: "queue \<Rightarrow> queue_entry list" where
  "queue_iter q = pop_all (q_entries q)"

definition queue_entries :: "queue \<Rightarrow> queue_entry list" where
  "queue_entries q = queue_iter q"

definition queue_len :: "queue \<Rightarrow> nat" where
  "queue_len q = length (q_entries q)"

definition queue_is_empty :: "queue \<Rightarrow> bool" where
  "queue_is_empty q \<longleftrightarrow> q_entries q = []"

definition queue_get :: "nat \<Rightarrow> queue \<Rightarrow> queue_entry option" where
  "queue_get idx q = do {
     require (idx < queue_len q);
     Some (q_entries q ! idx) }"

definition queue_get_id :: "u64 \<Rightarrow> queue \<Rightarrow> queue_entry option" where
  "queue_get_id i q = find (\<lambda>e. qe_id e = i) (queue_iter q)"

text \<open>\<open>draw\<close> is the random choice from a non-empty iterator.\<close>

definition queue_choose_random :: "(queue_entry list \<Rightarrow> queue_entry) \<Rightarrow> queue \<Rightarrow> queue_entry option" where
  "queue_choose_random draw q = (if queue_iter q = [] then None else Some (draw (queue_iter q)))"

definition queue_choose_random_filtered :: "(queue_entry list \<Rightarrow> queue_entry list) \<Rightarrow> (queue_entry \<Rightarrow> bool) \<Rightarrow> queue \<Rightarrow> queue_entry option" where
  "queue_choose_random_filtered shuffle f q = find f (shuffle (queue_entries q))"

definition queue_filter :: "(queue_entry \<Rightarrow> bool) \<Rightarrow> queue \<Rightarrow> queue_entry list" where
  "queue_filter f q = filter f (queue_entries q)"

definition queue_iter_without_crashes :: "queue \<Rightarrow> queue_entry list" where
  "queue_iter_without_crashes q = pop_all (filter (\<lambda>e. \<not> qe_is_crash e) (q_entries q))"

section \<open>Dump and load\<close>

text \<open>
  What \<^verbatim>\<open>serde\<close> writes of an entry: the bytes of the input, its digest, the pending discoveries and the
  tried combinations are marked \<^verbatim>\<open>#[serde(skip)]\<close> and come back as the default value.
\<close>

record entry_image =
  ei_entry :: queue_entry
  ei_stats :: entry_stats

definition entry_view :: "queue_entry \<Rightarrow> queue_entry" where
  "entry_view e = e\<lparr>qe_input := (qe_input e)\<lparr>input_data := [], input_digest := []\<rparr>, qe_stats := 0\<rparr>"

definition stats_view :: "entry_stats \<Rightarrow> entry_stats" where
  "stats_view s = s\<lparr>qs_discovery_pending := None, qs_combine_done := None\<rparr>"

definition serde_view :: "store \<Rightarrow> queue_entry \<Rightarrow> entry_image option" where
  "serde_view st e = do {
     s \<leftarrow> stats_ro e st;
     Some \<lparr>ei_entry = entry_view e, ei_stats = stats_view s\<rparr> }"

definition entry_file_name :: "u64 \<Rightarrow> str" where
  "entry_file_name i = digits_of 10 (unat i) @ map of_char ''.zlib''"

text \<open>A directory is the list of its files with their content.\<close>

type_synonym directory = "(str \<times> u8 list) list"

definition dump_entry :: "(entry_image \<Rightarrow> u8 list) \<Rightarrow> store \<Rightarrow> queue_entry \<Rightarrow> directory \<Rightarrow> directory option" where
  "dump_entry encode st e dir =
     (let path = entry_file_name (qe_id e) in
      if map_of dir path \<noteq> None then Some dir
      else do {
        img \<leftarrow> serde_view st e;
        Some (dir @ [(path, encode img)]) })"

fun dump_entries :: "(entry_image \<Rightarrow> u8 list) \<Rightarrow> store \<Rightarrow> queue_entry list \<Rightarrow> directory \<Rightarrow> directory option" where
  "dump_entries encode st [] dir = Some dir"
| "dump_entries encode st (e # es) dir = do {
     dir \<leftarrow> dump_entry encode st e dir;
     dump_entries encode st es dir }"

definition queue_dump :: "(entry_image \<Rightarrow> u8 list) \<Rightarrow> store \<Rightarrow> queue \<Rightarrow> directory \<Rightarrow> directory option" where
  "queue_dump encode st q dir = dump_entries encode st (queue_entries q) dir"

text \<open>\<^verbatim>\<open>Path::file_prefix\<close>: the name up to the first dot that is not its first character.\<close>

definition path_prefix :: "str \<Rightarrow> str option" where
  "path_prefix name = (case name of [] \<Rightarrow> None | c # cs \<Rightarrow> Some (c # takeWhile (\<lambda>c. c \<noteq> of_char (CHR ''.'')) cs))"

fun keep_listed :: "u64 list \<Rightarrow> directory \<Rightarrow> directory option" where
  "keep_listed ids [] = Some []"
| "keep_listed ids ((name, bytes) # fs) = do {
     prefix \<leftarrow> path_prefix name;
     i \<leftarrow> from_str_radix 10 prefix;
     rest \<leftarrow> keep_listed ids fs;
     Some (if i \<in> set ids then (name, bytes) # rest else rest) }"

text \<open>Each decoded entry gets statistics of its own.\<close>

fun load_entries :: "(u8 list \<Rightarrow> entry_image option) \<Rightarrow> directory \<Rightarrow> store \<Rightarrow> queue \<Rightarrow> (queue \<times> store) option" where
  "load_entries decode [] st q = Some (q, st)"
| "load_entries decode ((name, bytes) # fs) st q = do {
     img \<leftarrow> decode bytes;
     let e = (ei_entry img)\<lparr>qe_stats := length st\<rparr>;
     load_entries decode fs (st @ [ei_stats img]) (queue_push e q) }"

definition queue_load :: "(u8 list \<Rightarrow> entry_image option) \<Rightarrow> int \<Rightarrow> u64 list option \<Rightarrow> directory \<Rightarrow> store \<Rightarrow> (queue \<times> store) option" where
  "queue_load decode now whitelist files st = do {
     files \<leftarrow> (case whitelist of None \<Rightarrow> Some files | Some ids \<Rightarrow> keep_listed ids files);
     load_entries decode files st (queue_new now) }"

section \<open>Order of the entries\<close>

lemma pop_all_rev [simp]: "pop_all xs = rev xs"
proof (induction xs rule: rev_induct)
  case Nil then show ?case by (simp add: pop_all.simps)
next
  case (snoc x xs) then show ?case by (subst pop_all.simps) simp
qed

lemma queue_iter_rev: "queue_iter q = rev (q_entries q)" "queue_entries q = rev (q_entries q)"
  by (simp_all add: queue_iter_def queue_entries_def)

lemma queue_append_entries: "q_entries (queue_append es q) = q_entries q @ es"
  unfolding queue_append_def by (induction es arbitrary: q) (simp_all add: queue_push_def)

text \<open>The entries of a queue have different ids, which the counter has passed, and statistics of their own.\<close>

definition queue_wf :: "globals \<Rightarrow> queue \<Rightarrow> bool" where
  "queue_wf g q \<longleftrightarrow> distinct (map qe_id (q_entries q)) \<and> distinct (map qe_stats (q_entries q)) \<and>
     (\<forall>e\<in>set (q_entries q). unat (qe_id e) < unat (next_entry_id g) \<and> qe_stats e < length (stats_store g))"

lemma queue_wf_push:
  assumes "queue_wf g q" "qe_new i m h avg u cov f ph mt pp cr pc g = Some (e, g')" "unat (next_entry_id g) + 1 < 2 ^ 64"
    and e': "qe_id e' = qe_id e" "qe_stats e' = qe_stats e"
  shows "queue_wf g' (queue_push e' q)"
proof -
  have n: "unat (next_entry_id g + 1) = unat (next_entry_id g) + 1"
    using assms(3) unat_add_lem [of "next_entry_id g" 1] by simp
  have "qe_id e = next_entry_id g" "qe_stats e = length (stats_store g)" "next_entry_id g' = next_entry_id g + 1"
    "length (stats_store g') = length (stats_store g) + 1"
    using assms(2) by (auto simp: qe_new_def Let_def split: bind_splits)
  then show ?thesis using assms(1) e' n by (auto simp: queue_wf_def queue_push_def)
qed

lemma find_distinct: "distinct (map f xs) \<Longrightarrow> x \<in> set xs \<Longrightarrow> find (\<lambda>y. f y = f x) xs = Some x"
  by (induction xs) force+

lemma queue_get_id_entry:
  assumes "distinct (map qe_id (q_entries q))" "e \<in> set (q_entries q)"
  shows "queue_get_id (qe_id e) q = Some e"
  using find_distinct [of qe_id "rev (q_entries q)" e] assms by (simp add: queue_get_id_def queue_iter_rev rev_map [symmetric])

section \<open>Names of files\<close>

lemma path_prefix_name: "path_prefix (entry_file_name i) = Some (digits_of 10 (unat i))"
proof -
  have d: "list_all digit_char (digits_of 10 (unat i))" "digits_of 10 (unat i) \<noteq> []" using digits_of_chars [of 10 "unat i"] by auto
  then obtain c cs where c: "digits_of 10 (unat i) = c # cs" by (cases "digits_of 10 (unat i)") auto
  have "\<forall>x\<in>set cs. x \<noteq> of_char (CHR ''.'')" using d(1) unfolding c by (auto simp: list_all_iff digit_char_def)
  then show ?thesis by (simp add: path_prefix_def entry_file_name_def c takeWhile_append2)
qed

lemma entry_file_name_inj: "entry_file_name i = entry_file_name j \<longleftrightarrow> i = j"
proof
  assume "entry_file_name i = entry_file_name j"
  then have "digits_of 10 (unat i) = digits_of 10 (unat j)" using path_prefix_name by (metis option.inject)
  then have "from_str_radix 10 (digits_of 10 (unat i)) = from_str_radix 10 (digits_of 10 (unat j))" by simp
  then show "i = j" by (simp add: from_str_radix_digits)
qed simp

section \<open>Dump and load again\<close>

lemma mset_eq_map: "mset fs = mset (map f es) \<Longrightarrow> \<exists>es'. fs = map f es' \<and> mset es' = mset es"
proof (induction fs arbitrary: es)
  case (Cons a fs)
  then have "a \<in> set (map f es)" using mset_eq_setD [OF Cons.prems] by auto
  then obtain xs e ys where e: "es = xs @ e # ys" "a = f e" by (auto simp: in_set_conv_decomp)
  then have "mset fs = mset (map f (xs @ ys))" using Cons.prems by simp
  from Cons.IH [OF this] obtain es' where "fs = map f es'" "mset es' = mset (xs @ ys)" by blast
  then show ?case using e by (intro exI [of _ "e # es'"]) simp
qed simp

lemma dump_entries_fresh:
  assumes "\<forall>e\<in>set es. serde_view st e \<noteq> None" "distinct (map qe_id es)" "\<forall>e\<in>set es. map_of dir (entry_file_name (qe_id e)) = None"
  shows "dump_entries encode st es dir =
    Some (dir @ map (\<lambda>e. (entry_file_name (qe_id e), encode (the (serde_view st e)))) es)"
  using assms
proof (induction es arbitrary: dir)
  case (Cons e es)
  let ?f = "(entry_file_name (qe_id e), encode (the (serde_view st e)))"
  have "dump_entry encode st e dir = Some (dir @ [?f])" using Cons.prems by (auto simp: dump_entry_def Let_def)
  moreover have "\<forall>e'\<in>set es. map_of (dir @ [?f]) (entry_file_name (qe_id e')) = None"
    using Cons.prems by (auto simp: map_add_def entry_file_name_inj image_iff)
  ultimately show ?case using Cons.IH [of "dir @ [?f]"] Cons.prems by simp
qed simp

lemma keep_listed_ids:
  assumes "\<forall>f\<in>set fs. \<exists>i. fst f = entry_file_name i"
  shows "keep_listed ids fs = Some (filter (\<lambda>f. \<exists>i\<in>set ids. fst f = entry_file_name i) fs)"
  using assms by (induction ids fs rule: keep_listed.induct)
    (auto simp: path_prefix_name from_str_radix_digits entry_file_name_inj)

lemma stats_ro_append: "stats_ro e st = Some s \<Longrightarrow> stats_ro e (st @ st') = Some s"
  by (auto simp: stats_ro_def nth_append split: if_splits)

text \<open>Loading files of decodable images: one entry per file, with the statistics of the file.\<close>

lemma load_entries_ok:
  assumes "\<forall>f\<in>set fs. \<exists>img. decode (snd f) = Some img \<and> ei_entry img = entry_view (ei_entry img) \<and> ei_stats img = stats_view (ei_stats img)"
  shows "\<exists>es st'. load_entries decode fs st q = Some (q\<lparr>q_entries := q_entries q @ es\<rparr>, st @ st') \<and>
    map (serde_view (st @ st')) es = map (\<lambda>f. decode (snd f)) fs"
  using assms
proof (induction fs arbitrary: st q)
  case (Cons f fs)
  obtain name bytes where f: "f = (name, bytes)" by (cases f)
  obtain img where img: "decode bytes = Some img" "ei_entry img = entry_view (ei_entry img)" "ei_stats img = stats_view (ei_stats img)"
    using Cons.prems f by auto
  let ?e = "(ei_entry img)\<lparr>qe_stats := length st\<rparr>" and ?st = "st @ [ei_stats img]"
  obtain es st' where es: "load_entries decode fs ?st (queue_push ?e q) = Some ((queue_push ?e q)\<lparr>q_entries := q_entries (queue_push ?e q) @ es\<rparr>, ?st @ st')"
    "map (serde_view (?st @ st')) es = map (\<lambda>f. decode (snd f)) fs"
    using Cons.IH [of ?st "queue_push ?e q"] Cons.prems by auto
  have "entry_view ?e = entry_view (ei_entry img)" by (simp add: entry_view_def)
  then have "serde_view (?st @ st') ?e = Some img"
    using img(2,3) by (cases img) (simp add: serde_view_def stats_ro_def nth_append)
  then show ?case using es img(1) f
    by (intro exI [of _ "?e # es"] exI [of _ "ei_stats img # st'"]) (simp add: Let_def queue_push_def)
qed (intro exI [of _ "[]"], simp)

lemma serde_view_idem: "serde_view st e = Some img \<Longrightarrow> ei_entry img = entry_view (ei_entry img) \<and> ei_stats img = stats_view (ei_stats img)"
  by (auto simp: serde_view_def entry_view_def stats_view_def split: bind_splits)

section \<open>Operations on the statistics\<close>

text \<open>The random choices of \<^verbatim>\<open>rand\<close> and the order of iteration, as they are documented.\<close>

record draws =
  dr_iter :: "u64 set \<Rightarrow> u64 list"
  dr_pick :: "nat set \<Rightarrow> nat \<Rightarrow> nat list"
  dr_shuffle :: "nat list \<Rightarrow> nat list"

definition random_ok :: "draws \<Rightarrow> bool" where
  "random_ok R \<longleftrightarrow> (\<forall>S. finite S \<longrightarrow> set (dr_iter R S) = S) \<and>
     (\<forall>S m. finite S \<longrightarrow> set (dr_pick R S m) \<subseteq> S \<and> distinct (dr_pick R S m) \<and> length (dr_pick R S m) = min m (card S)) \<and>
     (\<forall>xs. mset (dr_shuffle R xs) = mset xs)"

abbreviation allocate_discovery :: "draws \<Rightarrow> nat \<Rightarrow> entry_stats \<Rightarrow> (fis \<times> entry_stats) option" where
  "allocate_discovery R \<equiv> discovery_allocate (dr_iter R) (dr_pick R) (dr_shuffle R)"

datatype stats_op = SetTrace trace | Blacklist | PhaseDone fuzzing_phase | TracingInProgress | Allocate nat
  | Combined u64 | MutatorDone mutator_type | FavouredOnce | FavouredDecrement

fun stats_step :: "draws \<Rightarrow> stats_op \<Rightarrow> entry_stats \<Rightarrow> entry_stats option" where
  "stats_step R (SetTrace t) s = Some (set_trace t s)"
| "stats_step R Blacklist s = Some (set_blacklisted s)"
| "stats_step R (PhaseDone p) s = Some (mark_phase_done p s)"
| "stats_step R TracingInProgress s = mark_tracing_in_progress s"
| "stats_step R (Allocate m) s = map_option snd (allocate_discovery R m s)"
| "stats_step R (Combined i) s = (let (tried, s) = combined_with_mut s in
     do { (_, tried) \<leftarrow> fis_insert (unat i) tried; Some (s\<lparr>qs_combine_done := Some tried\<rparr>) })"
| "stats_step R (MutatorDone m) s = Some (snd (mark_mutator_done m s))"
| "stats_step R FavouredOnce s = Some (mark_favoured_once s)"
| "stats_step R FavouredDecrement s = Some (favoured_decrement s)"

fun stats_steps :: "draws \<Rightarrow> stats_op list \<Rightarrow> entry_stats \<Rightarrow> entry_stats option" where
  "stats_steps R [] s = Some s"
| "stats_steps R (a # as) s = do { s \<leftarrow> stats_step R a s; stats_steps R as s }"

definition qs_wf :: "entry_stats \<Rightarrow> bool" where
  "qs_wf s \<longleftrightarrow> (\<forall>w. qs_favoured_weight s = Some w \<longrightarrow> 1 \<le> w \<and> w \<le> DEFAULT_FAVOURED_WEIGHT) \<and>
     (\<forall>p. qs_discovery_pending s = Some p \<longrightarrow> fis_inv MAX_PATCHPOINT_CNT p) \<and>
     (\<forall>c. qs_combine_done s = Some c \<longrightarrow> fis_inv MAX_QUEUE_ENTRY_CNT c)"

text \<open>What only grows.\<close>

definition qs_grows :: "entry_stats \<Rightarrow> entry_stats \<Rightarrow> bool" where
  "qs_grows s s' \<longleftrightarrow> (qs_trace s \<noteq> None \<longrightarrow> qs_trace s' \<noteq> None) \<and> (qs_tracing_in_progress s \<longrightarrow> qs_tracing_in_progress s') \<and>
     (qs_blacklisted s \<longrightarrow> qs_blacklisted s') \<and> qs_phases_done s \<subseteq> qs_phases_done s' \<and>
     qs_mutators_done s \<subseteq> qs_mutators_done s' \<and> (is_favoured s \<longrightarrow> is_favoured s')"

lemma weight_decrement:
  assumes "1 < (w :: u32)" "w \<le> 3"
  shows "nonzero_u32 (w - 1) \<noteq> None" "\<forall>v. nonzero_u32 (w - 1) = Some v \<longrightarrow> 1 \<le> v \<and> v \<le> 3"
proof -
  have "unat (w - 1) = unat w - 1" "1 < unat w" "unat w \<le> 3"
    using assms by (simp_all add: unat_sub word_less_nat_alt word_le_nat_alt)
  then show "nonzero_u32 (w - 1) \<noteq> None" "\<forall>v. nonzero_u32 (w - 1) = Some v \<longrightarrow> 1 \<le> v \<and> v \<le> 3"
    by (auto simp: nonzero_u32_def word_le_nat_alt word_unat_eq_iff)
qed

lemma favoured_ops:
  assumes "qs_wf s"
  shows "qs_wf (mark_favoured_once s)" "qs_grows s (mark_favoured_once s)" "is_favoured (mark_favoured_once s)"
    "qs_wf (favoured_decrement s)" "qs_grows s (favoured_decrement s)"
  using assms weight_decrement
  by (auto simp: qs_wf_def qs_grows_def mark_favoured_once_def favoured_decrement_def is_favoured_def nonzero_u32_def
      DEFAULT_FAVOURED_WEIGHT_def split: option.splits if_splits)

lemma from_iter_inv: "fis_from_iter N vs = Some p \<Longrightarrow> fis_inv N p \<and> fis_entries p = set vs \<and> set vs \<subseteq> {..N}"
proof -
  assume p: "fis_from_iter N vs = Some p"
  have "set vs \<subseteq> {..N}"
  proof
    fix v assume "v \<in> set vs"
    then show "v \<in> {..N}" using p fis.insert_seq_oob [OF fis.invar_new, of v vs N] by (force simp: fis_from_iter_def not_le)
  qed
  moreover from this have "fis_inv N p \<and> fis_entries p = set vs"
    using p fis.insert_seq_ok [OF fis.invar_new, of vs N] by (auto simp: fis_from_iter_def fis.elems_new)
  ultimately show ?thesis by blast
qed

text \<open>One allocation takes \<open>min m n\<close> of the \<open>n\<close> pending patch points away and hands them out.\<close>

lemma allocate_pending:
  assumes R: "random_ok R" and p: "qs_discovery_pending s = Some p" "fis_inv MAX_PATCHPOINT_CNT p"
  obtains sel p' where "allocate_discovery R m s = Some (sel, s\<lparr>qs_discovery_pending := Some p'\<rparr>)"
    "fis_inv MAX_PATCHPOINT_CNT p'" "fis_inv MAX_PATCHPOINT_CNT sel" "fis_entries sel \<subseteq> fis_entries p"
    "fis_entries p' = fis_entries p - fis_entries sel" "card (fis_entries sel) = min m (card (fis_entries p))"
proof -
  let ?vs = "dr_shuffle R (dr_pick R (fis_entries p) m)"
  have ms: "mset ?vs = mset (dr_pick R (fis_entries p) m)" using R by (simp add: random_ok_def)
  have vs: "set ?vs \<subseteq> fis_entries p" "distinct ?vs" "length ?vs = min m (card (fis_entries p))"
    using R mset_eq_setD [OF ms] mset_eq_imp_distinct_iff [OF ms] mset_eq_length [OF ms] by (auto simp: random_ok_def)
  obtain t where t: "insert_seq fis_insert ?vs (fis_new MAX_PATCHPOINT_CNT) = Some t" "fis_inv MAX_PATCHPOINT_CNT t" "fis_entries t = set ?vs"
    "fis_inv MAX_PATCHPOINT_CNT (fis_sub p t)" "fis_entries (fis_sub p t) = fis_entries p - set ?vs"
    using fis.split_off [OF p(2) vs(1)] by blast
  have m: "fis_max_val p = MAX_PATCHPOINT_CNT" using p(2) by (simp add: fis_inv_def)
  show thesis
    by (rule that [of t "fis_sub p t"])
      (use t p(1) m vs in \<open>simp_all add: discovery_allocate_def fis_choose_random_def fis_from_iter_def fis_sub_assign_eq distinct_card\<close>)
qed

lemma allocate_init:
  assumes "qs_discovery_pending s = None" "qs_trace s = Some t" "fis_from_iter MAX_PATCHPOINT_CNT (map unat (dr_iter R (covered t))) = Some p"
  shows "allocate_discovery R m s = allocate_discovery R m (s\<lparr>qs_discovery_pending := Some p\<rparr>)"
  using assms by (simp add: discovery_allocate_def)

lemma stats_step_wf:
  assumes R: "random_ok R" and "qs_wf s" "stats_step R a s = Some s'"
  shows "qs_wf s' \<and> qs_grows s s'"
proof (cases a)
  case (Allocate m)
  then obtain sel where al: "allocate_discovery R m s = Some (sel, s')" using assms(3) by auto
  have key: "qs_wf s1' \<and> qs_grows s1 s1'"
    if h: "qs_discovery_pending s1 = Some p" "fis_inv MAX_PATCHPOINT_CNT p" "qs_wf s1" "allocate_discovery R m s1 = Some (sel, s1')" for s1 s1' p
  proof -
    obtain sel' p' where "allocate_discovery R m s1 = Some (sel', s1\<lparr>qs_discovery_pending := Some p'\<rparr>)" "fis_inv MAX_PATCHPOINT_CNT p'"
      by (rule allocate_pending [OF R h(1,2)])
    then show ?thesis using h(3,4) by (auto simp: qs_wf_def qs_grows_def is_favoured_def)
  qed
  show ?thesis
  proof (cases "qs_discovery_pending s")
    case None
    then obtain t p where p: "qs_trace s = Some t" "fis_from_iter MAX_PATCHPOINT_CNT (map unat (dr_iter R (covered t))) = Some p"
      using al by (auto simp: discovery_allocate_def split: bind_splits)
    let ?s = "s\<lparr>qs_discovery_pending := Some p\<rparr>"
    have inv: "fis_inv MAX_PATCHPOINT_CNT p" using from_iter_inv [OF p(2)] by simp
    have "qs_wf ?s" using assms(2) inv by (simp add: qs_wf_def)
    moreover have "allocate_discovery R m ?s = Some (sel, s')" using al allocate_init [OF None p] by simp
    ultimately show ?thesis using key [of ?s p s'] inv by (simp add: qs_grows_def is_favoured_def)
  next
    case (Some p)
    then show ?thesis using key [OF Some _ assms(2) al] assms(2) by (simp add: qs_wf_def)
  qed
next
  case (Combined i)
  obtain tried s1 where c: "combined_with_mut s = (tried, s1)" by (cases "combined_with_mut s")
  have inv: "fis_inv MAX_QUEUE_ENTRY_CNT tried" "qs_wf s1" "qs_grows s s1"
    using c assms(2) fis.invar_new by (auto simp: combined_with_mut_def qs_wf_def qs_grows_def is_favoured_def Let_def split: option.splits)
  obtain r where r: "fis_insert (unat i) tried = Some r" "s' = s1\<lparr>qs_combine_done := Some (snd r)\<rparr>"
    using assms(3) Combined c by (auto split: bind_splits)
  have "unat i \<le> MAX_QUEUE_ENTRY_CNT" using r(1) fis.ins_oob [OF inv(1), of "unat i"] by (cases "unat i \<le> MAX_QUEUE_ENTRY_CNT") auto
  then have "fis_inv MAX_QUEUE_ENTRY_CNT (snd r)" using fis.ins_ok [OF inv(1)] r(1) by force
  then show ?thesis using r(2) inv(2,3) by (simp add: qs_wf_def qs_grows_def is_favoured_def)
next
  case FavouredOnce
  then show ?thesis using assms(3) favoured_ops(1,2) [OF assms(2)] by simp
next
  case FavouredDecrement
  then show ?thesis using assms(3) favoured_ops(4,5) [OF assms(2)] by simp
next
  case TracingInProgress
  then show ?thesis using assms(2,3) by (auto simp: qs_wf_def qs_grows_def mark_tracing_in_progress_def is_favoured_def split: if_splits)
qed (use assms(2,3) in \<open>auto simp: qs_wf_def qs_grows_def set_trace_def set_blacklisted_def mark_phase_done_def
      mark_mutator_done_def is_favoured_def\<close>)

lemma stats_steps_wf:
  "random_ok R \<Longrightarrow> qs_wf s \<Longrightarrow> stats_steps R as s = Some s' \<Longrightarrow> qs_wf s' \<and> qs_grows s s'"
proof (induction as arbitrary: s)
  case (Cons a as)
  then obtain s1 where s1: "stats_step R a s = Some s1" "stats_steps R as s1 = Some s'" by (auto split: bind_splits)
  have "qs_wf s1 \<and> qs_grows s s1" by (rule stats_step_wf [OF Cons.prems(1,2) s1(1)])
  moreover from this have "qs_wf s' \<and> qs_grows s1 s'" using Cons.IH [OF Cons.prems(1) _ s1(2)] by simp
  ultimately show ?case by (auto simp: qs_grows_def)
qed (simp add: qs_grows_def)

lemma stats_steps_append: "stats_steps R (as @ bs) s = Option.bind (stats_steps R as s) (stats_steps R bs)"
  by (induction as arbitrary: s) (auto split: bind_splits)

lemma qs_new_wf: "qs_wf qs_new"
  by (simp add: qs_wf_def qs_new_def)

lemma tracing_once:
  "random_ok R \<Longrightarrow> qs_wf s \<Longrightarrow> stats_steps R as s = Some s' \<Longrightarrow>
   count_list as TracingInProgress + of_bool (qs_tracing_in_progress s) \<le> 1"
proof (induction as arbitrary: s)
  case (Cons a as)
  then obtain s1 where s1: "stats_step R a s = Some s1" "stats_steps R as s1 = Some s'" by (auto split: bind_splits)
  have w: "qs_wf s1" "qs_grows s s1" using stats_step_wf [OF Cons.prems(1,2) s1(1)] by auto
  have "a = TracingInProgress \<Longrightarrow> \<not> qs_tracing_in_progress s \<and> qs_tracing_in_progress s1"
    using s1(1) by (auto simp: mark_tracing_in_progress_def split: if_splits)
  then show ?case using Cons.IH [OF Cons.prems(1) w(1) s1(2)] w(2) by (auto simp: qs_grows_def split: if_splits)
qed simp

text \<open>A sequence of allocations with the batch sizes \<open>ms\<close>.\<close>

fun allocations :: "draws \<Rightarrow> nat list \<Rightarrow> entry_stats \<Rightarrow> (fis list \<times> entry_stats) option" where
  "allocations R [] s = Some ([], s)"
| "allocations R (m # ms) s = do {
     (sel, s) \<leftarrow> allocate_discovery R m s;
     (sels, s) \<leftarrow> allocations R ms s;
     Some (sel # sels, s) }"

fun pairwise_disjoint :: "'a set list \<Rightarrow> bool" where
  "pairwise_disjoint [] = True"
| "pairwise_disjoint (A # As) = ((\<forall>B\<in>set As. A \<inter> B = {}) \<and> pairwise_disjoint As)"

lemma allocations_pending:
  assumes R: "random_ok R"
  shows "qs_discovery_pending s = Some p \<Longrightarrow> fis_inv MAX_PATCHPOINT_CNT p \<Longrightarrow>
    \<exists>sels s'. allocations R ms s = Some (sels, s') \<and> pairwise_disjoint (map fis_entries sels) \<and>
      \<Union> (fis_entries ` set sels) \<subseteq> fis_entries p \<and> card (\<Union> (fis_entries ` set sels)) = min (sum_list ms) (card (fis_entries p))"
proof (induction ms arbitrary: s p)
  case (Cons m ms)
  obtain sel p' where s1: "allocate_discovery R m s = Some (sel, s\<lparr>qs_discovery_pending := Some p'\<rparr>)"
    "fis_inv MAX_PATCHPOINT_CNT p'" "fis_inv MAX_PATCHPOINT_CNT sel" "fis_entries sel \<subseteq> fis_entries p"
    "fis_entries p' = fis_entries p - fis_entries sel" "card (fis_entries sel) = min m (card (fis_entries p))"
    by (rule allocate_pending [OF R Cons.prems])
  let ?s = "s\<lparr>qs_discovery_pending := Some p'\<rparr>"
  obtain sels s' where i: "allocations R ms ?s = Some (sels, s')" "pairwise_disjoint (map fis_entries sels)"
    "\<Union> (fis_entries ` set sels) \<subseteq> fis_entries p'" "card (\<Union> (fis_entries ` set sels)) = min (sum_list ms) (card (fis_entries p'))"
    using Cons.IH [of ?s p'] s1(2) by auto
  let ?U = "\<Union> (fis_entries ` set sels)"
  have "card (fis_entries p') = card (fis_entries p) - card (fis_entries sel)" using s1(4,5) by (simp add: card_Diff_subset)
  moreover have "fis_entries sel \<inter> ?U = {}" using i(3) s1(5) by blast
  then have "card (fis_entries sel \<union> ?U) = card (fis_entries sel) + card ?U" by (simp add: card_Un_disjoint)
  ultimately have "card (fis_entries sel \<union> ?U) = min (m + sum_list ms) (card (fis_entries p))" using i(4) s1(6) by linarith
  moreover have "pairwise_disjoint (map fis_entries (sel # sels))" using i(2,3) s1(5) by auto
  ultimately show ?case using s1(1,4,5) i(1,3) by (intro exI [of _ "sel # sels"] exI [of _ s']) auto
qed simp

section \<open>Properties\<close>

text \<open>
  C11: The statistics of an entry stay well-typed under every sequence of operations: the weight of a
  favoured entry stays between 1 and 3 and is never lost, the two bit vectors keep their
  representation invariant, nothing that was recorded (trace, blacklisting, finished phases and
  mutators) is forgotten, and at most one worker starts tracing the entry.
\<close>

theorem stats_well_typed:
  assumes "random_ok R" "stats_steps R (as @ bs) qs_new = Some s'"
  shows "\<exists>s. stats_steps R as qs_new = Some s \<and> stats_steps R bs s = Some s' \<and> qs_wf s \<and> qs_wf s' \<and> qs_grows s s' \<and>
    count_list (as @ bs) TracingInProgress \<le> 1"
proof -
  obtain s where s: "stats_steps R as qs_new = Some s" "stats_steps R bs s = Some s'"
    using assms(2) by (auto simp: stats_steps_append split: bind_splits)
  have w: "qs_wf s" using stats_steps_wf [OF assms(1) qs_new_wf s(1)] by simp
  have "qs_wf s' \<and> qs_grows s s'" by (rule stats_steps_wf [OF assms(1) w s(2)])
  moreover have "count_list (as @ bs) TracingInProgress \<le> 1"
    using tracing_once [OF assms(1) qs_new_wf assms(2)] by (simp del: count_list_append)
  ultimately show ?thesis using s w by (intro exI [of _ s] conjI) simp_all
qed

definition sample_draws :: draws where
  "sample_draws = \<lparr>dr_iter = sorted_list_of_set, dr_pick = (\<lambda>S m. take m (sorted_list_of_set S)), dr_shuffle = rev\<rparr>"

lemma sample_draws_ok: "random_ok sample_draws"
  by (auto simp: random_ok_def sample_draws_def dest: in_set_takeD)

theorem stats_well_typed_witness:
  "\<exists>s. stats_steps sample_draws [FavouredOnce, FavouredDecrement, TracingInProgress, Blacklist] qs_new = Some s \<and> qs_wf s \<and>
     qs_favoured_weight s = Some 2"
proof -
  let ?s = "qs_new\<lparr>qs_favoured_weight := Some 2, qs_tracing_in_progress := True, qs_blacklisted := True\<rparr>"
  have r: "stats_steps sample_draws ([FavouredOnce, FavouredDecrement] @ [TracingInProgress, Blacklist]) qs_new = Some ?s"
    by (simp add: mark_favoured_once_def favoured_decrement_def mark_tracing_in_progress_def set_blacklisted_def qs_new_def
        nonzero_u32_def DEFAULT_FAVOURED_WEIGHT_def)
  from stats_well_typed [OF sample_draws_ok r] have "qs_wf ?s" by blast
  with r show ?thesis by simp
qed

text \<open>
  C12: The discovery of an entry hands out every covered patch point at most once, and all of them after
  enough batches: the batches of any sequence of allocations are disjoint sets of covered patch
  points and have together as many elements as asked for, up to the number of covered ones.
\<close>

theorem discovery_exhausts:
  assumes "random_ok R" "qs_trace s = Some t" "qs_discovery_pending s = None" "finite (covered t)"
    and ids: "\<forall>i\<in>covered t. unat i \<le> MAX_PATCHPOINT_CNT" and "ms \<noteq> []"
  shows "\<exists>sels s'. allocations R ms s = Some (sels, s') \<and> pairwise_disjoint (map fis_entries sels) \<and>
    \<Union> (fis_entries ` set sels) \<subseteq> unat ` covered t \<and>
    card (\<Union> (fis_entries ` set sels)) = min (sum_list ms) (trace_len t) \<and>
    (trace_len t \<le> sum_list ms \<longrightarrow> \<Union> (fis_entries ` set sels) = unat ` covered t)"
proof -
  have it: "set (dr_iter R (covered t)) = covered t" using assms(1,4) by (simp add: random_ok_def)
  then have "set (map unat (dr_iter R (covered t))) \<subseteq> {..MAX_PATCHPOINT_CNT}" using ids by auto
  then obtain p where p: "fis_from_iter MAX_PATCHPOINT_CNT (map unat (dr_iter R (covered t))) = Some p"
    using fis.insert_seq_ok [OF fis.invar_new] unfolding fis_from_iter_def by blast
  have pe: "fis_inv MAX_PATCHPOINT_CNT p" "fis_entries p = unat ` covered t" using from_iter_inv [OF p] it by auto
  have c: "card (fis_entries p) = trace_len t" unfolding pe(2) trace_len_def covered_def by (rule card_image) (simp add: inj_on_def word_unat_eq_iff)
  have fst: "allocations R ms s = allocations R ms (s\<lparr>qs_discovery_pending := Some p\<rparr>)"
    using allocate_init [OF assms(3,2) p] assms(6) by (cases ms) simp_all
  obtain sels s' where a: "allocations R ms s = Some (sels, s')" "pairwise_disjoint (map fis_entries sels)"
      "\<Union> (fis_entries ` set sels) \<subseteq> fis_entries p" "card (\<Union> (fis_entries ` set sels)) = min (sum_list ms) (card (fis_entries p))"
    unfolding fst using allocations_pending [OF assms(1) _ pe(1), of "s\<lparr>qs_discovery_pending := Some p\<rparr>" ms] by auto
  have "\<Union> (fis_entries ` set sels) = fis_entries p" if "trace_len t \<le> sum_list ms"
    using card_subset_eq [OF _ a(3)] a(4) c that by simp
  then show ?thesis using a c unfolding pe(2) by (intro exI [of _ sels] exI [of _ s'] conjI) simp_all
qed

theorem discovery_exhausts_witness:
  "\<exists>sels s'. allocations sample_draws [1, 5] (qs_new\<lparr>qs_trace := Some (from_trace_point_stats [(7, 2, Some 1), (9, 1, Some 2)])\<rparr>) = Some (sels, s') \<and>
     \<Union> (fis_entries ` set sels) = {7, 9}"
proof -
  let ?t = "from_trace_point_stats [(7, 2, Some 1), (9, 1, Some 2)]"
  have c: "covered ?t = {7, 9}" "trace_len ?t = 2"
    by (simp_all add: covered_def trace_len_def from_trace_point_stats_def trace_step_def TRACE_EXEC_CNT_LIMIT_def insert_commute)
  have "\<exists>sels s'. allocations sample_draws [1, 5] (qs_new\<lparr>qs_trace := Some ?t\<rparr>) = Some (sels, s') \<and> pairwise_disjoint (map fis_entries sels) \<and>
    \<Union> (fis_entries ` set sels) \<subseteq> unat ` covered ?t \<and> card (\<Union> (fis_entries ` set sels)) = min (sum_list [1, 5]) (trace_len ?t) \<and>
    (trace_len ?t \<le> sum_list [1, 5] \<longrightarrow> \<Union> (fis_entries ` set sels) = unat ` covered ?t)"
    by (rule discovery_exhausts [OF sample_draws_ok]) (simp_all add: c qs_new_def MAX_PATCHPOINT_CNT_def)
  then show ?thesis unfolding c by auto
qed

text \<open>
  C10: Dumping a queue into an empty directory and loading the files again, in any order of the
  directory, restores exactly the entries on the whitelist (all of them without one), each with its
  statistics; only what is excluded from the image (input bytes and digest, pending discoveries,
  tried combinations) is lost.
\<close>

theorem dump_load_roundtrip:
  assumes ids: "distinct (map qe_id (q_entries q))" and st: "\<forall>e\<in>set (q_entries q). stats_ro e st \<noteq> None"
    and codec: "\<forall>e\<in>set (q_entries q). decode (encode (the (serde_view st e))) = serde_view st e"
  shows "\<exists>dir. queue_dump encode st q [] = Some dir \<and>
    (\<forall>files. mset files = mset dir \<longrightarrow> (\<exists>q' st'. queue_load decode now whitelist files st0 = Some (q', st0 @ st') \<and>
       mset (map (serde_view (st0 @ st')) (q_entries q')) =
       mset (map (serde_view st) (filter (\<lambda>e. case whitelist of None \<Rightarrow> True | Some ids \<Rightarrow> qe_id e \<in> set ids) (q_entries q)))))"
proof -
  let ?es = "rev (q_entries q)" and ?file = "\<lambda>e. (entry_file_name (qe_id e), encode (the (serde_view st e)))"
  let ?keep = "\<lambda>e. case whitelist of None \<Rightarrow> True | Some ids \<Rightarrow> qe_id e \<in> set ids"
  have v: "\<forall>e\<in>set ?es. serde_view st e \<noteq> None" using st by (auto simp: serde_view_def split: bind_splits)
  have "queue_dump encode st q [] = Some (map ?file ?es)"
    using dump_entries_fresh [OF v, of "[]" encode] ids by (simp add: queue_dump_def queue_iter_rev rev_map [symmetric])
  moreover have "\<exists>q' st'. queue_load decode now whitelist files st0 = Some (q', st0 @ st') \<and>
       mset (map (serde_view (st0 @ st')) (q_entries q')) = mset (map (serde_view st) (filter ?keep (q_entries q)))"
    if m: "mset files = mset (map ?file ?es)" for files
  proof -
    obtain es' where es': "files = map ?file es'" "mset es' = mset ?es" using mset_eq_map [OF m] by blast
    have s: "set es' = set (q_entries q)" using mset_eq_setD [OF es'(2)] by simp
    have k: "(case whitelist of None \<Rightarrow> Some files | Some ids \<Rightarrow> keep_listed ids files) = Some (map ?file (filter ?keep es'))"
      unfolding es'(1) using keep_listed_ids [of "map ?file es'"]
      by (cases whitelist) (auto simp: filter_map o_def entry_file_name_inj cong: filter_cong)
    have d: "decode (encode (the (serde_view st e))) = serde_view st e" "serde_view st e \<noteq> None" if "e \<in> set es'" for e
      using codec v that s by auto
    have dec: "\<forall>f\<in>set (map ?file (filter ?keep es')). \<exists>img. decode (snd f) = Some img \<and> ei_entry img = entry_view (ei_entry img) \<and>
        ei_stats img = stats_view (ei_stats img)"
      using d serde_view_idem by fastforce
    obtain es st' where l: "load_entries decode (map ?file (filter ?keep es')) st0 (queue_new now) =
        Some ((queue_new now)\<lparr>q_entries := q_entries (queue_new now) @ es\<rparr>, st0 @ st')"
        "map (serde_view (st0 @ st')) es = map (\<lambda>f. decode (snd f)) (map ?file (filter ?keep es'))"
      using load_entries_ok [OF dec] by blast
    have "map (serde_view (st0 @ st')) es = map (serde_view st) (filter ?keep es')" using l(2) d(1) by simp
    then have "mset (map (serde_view (st0 @ st')) es) = image_mset (serde_view st) (filter_mset ?keep (mset es'))" by simp
    then show ?thesis using l(1) k es'(2) by (simp add: queue_load_def queue_new_def)
  qed
  ultimately show ?thesis by blast
qed

definition sample_entry :: "u64 \<Rightarrow> nat \<Rightarrow> queue_entry" where
  "sample_entry i a = \<lparr>qe_id = i, qe_parent_id = None, qe_phase = None, qe_mutator = None, qe_patch_point = None, qe_finder = Some 0,
     qe_input = \<lparr>input_data = [1, 2], input_digest = [97], input_origin = None\<rparr>, qe_creation_ts = Some 5, qe_mutations = None,
     qe_bitmap_hash32 = 1, qe_covered_edges = \<lparr>bm_shm_id = None, bm_data = replicate 8 (of_nat a + 1), bm_fill_pattern = 0, bm_size = 8\<rparr>,
     qe_avg_exec_duration = 9, qe_stats = a, qe_sink_unstable = False, qe_generation = 0, qe_is_crash = False, qe_pcap = None\<rparr>"

theorem dump_load_roundtrip_witness:
  "\<exists>dir q' st'. queue_dump (\<lambda>img. [ucast (qe_id (ei_entry img))]) [qs_new, qs_new] \<lparr>q_entries = [sample_entry 4 0, sample_entry 9 1], q_start_ts = 0\<rparr> [] = Some dir \<and>
     queue_load (\<lambda>bs. if bs = [4] then serde_view [qs_new, qs_new] (sample_entry 4 0) else serde_view [qs_new, qs_new] (sample_entry 9 1))
       0 (Some [9]) dir [] = Some (q', st') \<and> length (q_entries q') = 1"
proof -
  let ?enc = "\<lambda>img. [ucast (qe_id (ei_entry img))] :: u8 list" and ?st = "[qs_new, qs_new]"
  let ?dec = "\<lambda>bs. if bs = [4] then serde_view ?st (sample_entry 4 0) else serde_view ?st (sample_entry 9 1)"
  let ?q = "\<lparr>q_entries = [sample_entry 4 0, sample_entry 9 1], q_start_ts = 0\<rparr>"
  have "\<exists>dir. queue_dump ?enc ?st ?q [] = Some dir \<and>
    (\<forall>files. mset files = mset dir \<longrightarrow> (\<exists>q' st'. queue_load ?dec 0 (Some [9]) files [] = Some (q', [] @ st') \<and>
       mset (map (serde_view ([] @ st')) (q_entries q')) =
       mset (map (serde_view ?st) (filter (\<lambda>e. case Some [9] of None \<Rightarrow> True | Some ids \<Rightarrow> qe_id e \<in> set ids) (q_entries ?q)))))"
    by (rule dump_load_roundtrip) (simp_all add: sample_entry_def stats_ro_def serde_view_def entry_view_def)
  then obtain dir q' st' where "queue_dump ?enc ?st ?q [] = Some dir" "queue_load ?dec 0 (Some [9]) dir [] = Some (q', st')"
    "mset (map (serde_view st') (q_entries q')) = mset (map (serde_view ?st) [sample_entry 9 1])"
    by (auto simp: sample_entry_def)
  then show ?thesis using mset_eq_length [of "map (serde_view st') (q_entries q')" "map (serde_view ?st) [sample_entry 9 1]"] by auto
qed

end
