(* ===== verification/Virgin_Maps.thy ===== *)
theory Virgin_Maps
  imports Sink_Bitmap
begin

text \<open>
  How the workers share the virgin maps (\<^verbatim>\<open>worker_impl/common.rs\<close>, \<^verbatim>\<open>worker_impl/init.rs\<close> and
  \<^verbatim>\<open>worker_impl/phases/run_common.rs\<close> under \<^verbatim>\<open>scheduler/src/fuzzer\<close>): each worker has a local map that
  it consults first, and takes the lock of the global map only when the local one shows something new.
\<close>

section \<open>Operations\<close>



text \<open>The end of \<^verbatim>\<open>calibrate_seed_files\<close>.\<close>

definition clear_seed_coverage :: "bitmap \<Rightarrow> bitmap \<Rightarrow> bitmap \<Rightarrow> bitmap \<times> bitmap" where
  "clear_seed_coverage seen local_virgin shared_virgin =
     (let seen = bm_not seen;
          (_, local_virgin) = has_new_bit seen local_virgin;
          (_, shared_virgin) = has_new_bit seen shared_virgin
      in (local_virgin, shared_virgin))"

definition resize_bitmap :: "nat \<Rightarrow> bitmap \<Rightarrow> bitmap option" where
  "resize_bitmap sz b = (if bm_size b \<noteq> sz then new_in_mem sz 0xff else Some b)"

text \<open>\<^verbatim>\<open>resize_bitmaps\<close> on the local, local crash, shared and shared crash maps.\<close>

definition resize_bitmaps :: "nat \<Rightarrow> bitmap \<times> bitmap \<times> bitmap \<times> bitmap \<Rightarrow> (bitmap \<times> bitmap \<times> bitmap \<times> bitmap) option" where
  "resize_bitmaps sz maps = (case maps of (a, b, c, d) \<Rightarrow> do {
     a \<leftarrow> resize_bitmap sz a;
     b \<leftarrow> resize_bitmap sz b;
     c \<leftarrow> resize_bitmap sz c;
     d \<leftarrow> resize_bitmap sz d;
     Some (a, b, c, d) })"

section \<open>Bits of a map\<close>

definition same_size :: "bitmap \<Rightarrow> bitmap \<Rightarrow> bool" where
  "same_size a b \<longleftrightarrow> bm_wf a \<and> bm_wf b \<and> bm_size a = bm_size b"


definition cleared :: "bitmap \<Rightarrow> bitmap \<Rightarrow> bitmap" where
  "cleared s v = v\<lparr>bm_data := map2 (\<lambda>s v. v AND NOT s) (bm_data s) (bm_data v)\<rparr>"

definition status_of :: "bitmap \<Rightarrow> bitmap \<Rightarrow> bitmap_status" where
  "status_of s v = (if new_edge_at (bm_data s) (bm_data v) then NewEdge
     else if new_hit_at (bm_data s) (bm_data v) then NewHit else NoChange)"


lemma has_new_bit_cleared: "same_size s v \<Longrightarrow> has_new_bit s v = (status_of s v, cleared s v)"
  by (simp add: has_new_bit_eq same_size_def status_of_def cleared_def)










section \<open>The local map is a cache of the global one\<close>





text \<open>The bit set view of a run of several calibrations.\<close>

lemma same_size_not: "bm_wf b \<Longrightarrow> bm_wf (bm_not b) \<and> bm_size (bm_not b) = bm_size b"
  using bm_not_data [of b] by (simp add: bm_wf_def bm_not_def)


section \<open>Properties\<close>







text \<open>The seeds are published: both maps lose exactly the bits that the calibration of the seeds has cleared.\<close>

lemma seeds_published:
  assumes "same_size seen l" "same_size seen g"
  shows "clear_seed_coverage seen l g = (cleared (bm_not seen) l, cleared (bm_not seen) g)"
proof -
  have "same_size (bm_not seen) l" "same_size (bm_not seen) g" using assms same_size_not [of seen] by (auto simp: same_size_def)
  then show ?thesis by (simp add: clear_seed_coverage_def has_new_bit_cleared Let_def)
qed

lemma resize_bitmap_ok:
  assumes "bm_wf b" "8 \<le> sz" "is_power_of_two sz"
  shows "\<exists>b'. resize_bitmap sz b = Some b' \<and> bm_wf b' \<and> bm_size b' = sz"
  using assms by (auto simp: resize_bitmap_def new_in_mem_def bm_wf_def)

end
