(* ===== verification/Cerebrum.thy ===== *)
theory Cerebrum
  imports Queue Event_Counter Mutation_Cache_Ops "HOL-Library.Sublist"
begin

text \<open>
  The knowledge base of the fuzzer (\<^verbatim>\<open>worker_impl/cerebrum.rs\<close>, \<^verbatim>\<open>worker_impl/cerebrum_query.rs\<close>): what is
  known about each patch point, which queue entries mutate it and with which masks, and the queries
  of the fuzzing phases. The set of patch points is never changed after its construction; it is the
  list of its elements in the order in which it is iterated. \<open>cimg\<close> reads the stored bytes of a
  mutation cache as its header and buffer.
\<close>

section \<open>State\<close>

record pp_stats =
  yield_cnt :: u64
  source_crash_cnt :: u64
  mutation_cnt :: u64
  source_timeout_cnt :: u64
  used_by :: "u64 set"

definition pp_stats_default :: pp_stats where
  "pp_stats_default = \<lparr>yield_cnt = 0, source_crash_cnt = 0, mutation_cnt = 0, source_timeout_cnt = 0, used_by = {}\<rparr>"

record fuzzer_configuration =
  fc_entry :: queue_entry
  fc_phase :: fuzzing_phase
  fc_mutator :: mutator_type
  fc_target_pp_id :: u64
  fc_counter :: event_counter

definition fc_new :: "queue_entry \<Rightarrow> fuzzing_phase \<Rightarrow> mutator_type \<Rightarrow> u64 \<Rightarrow> nat \<Rightarrow> event_counter \<Rightarrow> fuzzer_configuration" where
  "fc_new e phase mt pp iterations counter =
     \<lparr>fc_entry = e, fc_phase = phase, fc_mutator = mt, fc_target_pp_id = pp, fc_counter = counter\<rparr>"

definition finialize :: "event_counter \<Rightarrow> fuzzer_configuration \<Rightarrow> fuzzer_configuration option" where
  "finialize other cfg = do {
     other \<leftarrow> ec_sub_assign other (fc_counter cfg);
     Some (cfg\<lparr>fc_counter := other\<rparr>) }"

record cerebrum =
  patch_points :: "mutation_site list"
  patch_point_stats :: "u64 \<rightharpoonup> pp_stats"
  patch_point_msks :: "u64 \<rightharpoonup> (u64 \<times> u8 list) list"
  active_configuration :: "fuzzer_configuration option"

text \<open>\<open>iter\<close> is the order in which the set of sites is iterated.\<close>

definition cerebrum_new :: "(mutation_site set \<Rightarrow> mutation_site list) \<Rightarrow> mutation_site list \<Rightarrow> cerebrum" where
  "cerebrum_new iter sites =
     (let pps = iter (set sites) in
      \<lparr>patch_points = pps, patch_point_stats = fold (\<lambda>s m. m(site_id s \<mapsto> pp_stats_default)) pps Map.empty,
       patch_point_msks = Map.empty, active_configuration = None\<rparr>)"

definition resolve_pp_id :: "u64 \<Rightarrow> cerebrum \<Rightarrow> mutation_site option" where
  "resolve_pp_id i c = find (\<lambda>s. site_id s = i) (patch_points c)"

definition pp_stats :: "u64 \<Rightarrow> cerebrum \<Rightarrow> pp_stats option" where
  "pp_stats i c = patch_point_stats c i"

section \<open>Reports\<close>

text \<open>The body of the loop of \<^verbatim>\<open>report_new_qe\<close>.\<close>

definition report_mce :: "u64 \<Rightarrow> mce \<Rightarrow> cerebrum \<Rightarrow> cerebrum option" where
  "report_mce qid e c = do {
     value \<leftarrow> patch_point_stats c (mce_id e);
     let c = c\<lparr>patch_point_stats := (patch_point_stats c)(mce_id e \<mapsto> value\<lparr>used_by := insert qid (used_by value)\<rparr>)\<rparr>;
     let key = (case patch_point_msks c (mce_id e) of Some key \<Rightarrow> key | None \<Rightarrow> []);
     let key = (if list_all (\<lambda>entry. snd entry \<noteq> get_msk_as_slice e) key then key @ [(qid, get_msk_as_slice e)] else key);
     Some (c\<lparr>patch_point_msks := (patch_point_msks c)(mce_id e \<mapsto> key)\<rparr>) }"

fun report_mces :: "u64 \<Rightarrow> mce list \<Rightarrow> cerebrum \<Rightarrow> cerebrum option" where
  "report_mces qid [] c = Some c"
| "report_mces qid (e # es) c = do { c \<leftarrow> report_mce qid e c; report_mces qid es c }"

text \<open>The entries of the cache that is stored in a queue entry.\<close>

definition stored_entries :: "layout \<Rightarrow> (u8 list \<Rightarrow> content) \<Rightarrow> u8 list \<Rightarrow> mce list option" where
  "stored_entries L cimg mutations = do {
     mc \<leftarrow> mc_new L;
     mc \<leftarrow> load_bytes L (cimg mutations) mc;
     Some (mc_entries L mc) }"

definition report_new_qe :: "layout \<Rightarrow> (u8 list \<Rightarrow> content) \<Rightarrow> queue_entry \<Rightarrow> cerebrum \<Rightarrow> cerebrum option" where
  "report_new_qe L cimg qe c = (case qe_mutations qe of None \<Rightarrow> Some c
     | Some mutations \<Rightarrow> do {
         es \<leftarrow> stored_entries L cimg mutations;
         report_mces (qe_id qe) es c })"

definition report_configuration :: "fuzzer_configuration \<Rightarrow> cerebrum \<Rightarrow> cerebrum option" where
  "report_configuration cfg c = do {
     let counter = fc_counter cfg;
     p \<leftarrow> patch_point_stats c (fc_target_pp_id cfg);
     a \<leftarrow> checked_add (source_crash_cnt p) (source_crashes counter);
     b \<leftarrow> checked_add (mutation_cnt p) (execs counter);
     t \<leftarrow> checked_add (source_timeout_cnt p) (source_timeout counter);
     f \<leftarrow> checked_add (edges_found counter) (hits_found counter);
     y \<leftarrow> checked_add (yield_cnt p) f;
     Some (c\<lparr>patch_point_stats := (patch_point_stats c)(fc_target_pp_id cfg \<mapsto>
       p\<lparr>source_crash_cnt := a, mutation_cnt := b, source_timeout_cnt := t, yield_cnt := y\<rparr>)\<rparr>) }"

section \<open>Queries\<close>

definition patch_points_unfuzzed :: "cerebrum \<Rightarrow> u64 set option" where
  "patch_points_unfuzzed c = do {
     sites \<leftarrow> filter_opt (\<lambda>s. map_option (\<lambda>p. mutation_cnt p = 0) (pp_stats (site_id s) c)) (patch_points c);
     Some (site_id ` set sites) }"

definition patch_points_yielded :: "cerebrum \<Rightarrow> u64 set option" where
  "patch_points_yielded c = do {
     sites \<leftarrow> filter_opt (\<lambda>s. map_option (\<lambda>p. yield_cnt p > 0) (pp_stats (site_id s) c)) (patch_points c);
     Some (site_id ` set sites) }"

text \<open>The loop of \<^verbatim>\<open>patch_point_yielding_msks\<close> over the masks of a site.\<close>

fun try_msks :: "(u64 \<times> u8 list) list \<Rightarrow> fis \<Rightarrow> (u8 list list \<times> fis) option" where
  "try_msks [] tried = Some ([], tried)"
| "try_msks ((qid, msk) # ms) tried = do {
     (new, tried) \<leftarrow> fis_insert (unat qid) tried;
     (res, tried) \<leftarrow> try_msks ms tried;
     Some (if new then msk # res else res, tried) }"

definition patch_point_yielding_msks :: "cerebrum \<Rightarrow> queue_entry \<Rightarrow> u64 \<Rightarrow> store \<Rightarrow> (u8 list list \<times> store) option" where
  "patch_point_yielding_msks c e i st = do {
     s \<leftarrow> stats_ro e st;
     let (tried, s) = combined_with_mut s;
     (res, tried) \<leftarrow> (case patch_point_msks c i of Some msks \<Rightarrow> try_msks msks tried | None \<Rightarrow> Some ([], tried));
     Some (res, st[qe_stats e := s\<lparr>qs_combine_done := Some tried\<rparr>]) }"

definition patch_points_in_same_function :: "u64 \<Rightarrow> cerebrum \<Rightarrow> u64 set option" where
  "patch_points_in_same_function i c = do {
     pp \<leftarrow> resolve_pp_id i c;
     Some (site_id ` set (filter (\<lambda>other. function_address other = function_address pp) (patch_points c))) }"

fun functions_ordered :: "cerebrum \<Rightarrow> u64 list \<Rightarrow> u64 list \<Rightarrow> u64 list option" where
  "functions_ordered c [] result = Some result"
| "functions_ordered c (i # is) result = do {
     pp \<leftarrow> resolve_pp_id i c;
     functions_ordered c is (if function_address pp \<in> set result then result else result @ [function_address pp]) }"

text \<open>\<open>cov\<close> is the order in which the set of covered sites is iterated.\<close>

definition trace_get_functions_ordered :: "u64 list \<Rightarrow> trace \<Rightarrow> cerebrum \<Rightarrow> u64 list option" where
  "trace_get_functions_ordered cov t c = functions_ordered c (covered_exec_ordered cov t) []"

fun patch_point_ids_to_patch_point :: "u64 list \<Rightarrow> cerebrum \<Rightarrow> mutation_site list option" where
  "patch_point_ids_to_patch_point [] c = Some []"
| "patch_point_ids_to_patch_point (i # is) c = do {
     s \<leftarrow> resolve_pp_id i c;
     ss \<leftarrow> patch_point_ids_to_patch_point is c;
     Some (s # ss) }"

section \<open>What is known after a sequence of reports\<close>

text \<open>A queue entry stores the cache entries \<open>es\<close> it was created with.\<close>

definition stores :: "layout \<Rightarrow> (u8 list \<Rightarrow> content) \<Rightarrow> queue_entry \<Rightarrow> mce list \<Rightarrow> bool" where
  "stores L cimg q es \<longleftrightarrow> (case qe_mutations q of None \<Rightarrow> es = []
     | Some b \<Rightarrow> \<exists>m m'. mc_inv L m \<and> mc_content_size m \<le> MUTATION_CACHE_DEFAULT_SIZE \<and>
         save_bytes L m = Some (cimg b, m') \<and> es = mc_entries L m)"

fun report_qes :: "layout \<Rightarrow> (u8 list \<Rightarrow> content) \<Rightarrow> queue_entry list \<Rightarrow> cerebrum \<Rightarrow> cerebrum option" where
  "report_qes L cimg [] c = Some c"
| "report_qes L cimg (q # qs) c = do { c \<leftarrow> report_new_qe L cimg q c; report_qes L cimg qs c }"

fun report_events :: "(u64 \<times> mce) list \<Rightarrow> cerebrum \<Rightarrow> cerebrum option" where
  "report_events [] c = Some c"
| "report_events ((q, e) # evs) c = do { c \<leftarrow> report_mce q e c; report_events evs c }"

lemma report_events_append: "report_events (as @ bs) c = do { c \<leftarrow> report_events as c; report_events bs c }"
  by (induction as arbitrary: c) (auto split: bind_splits)

lemma report_mces_events: "report_mces q es c = report_events (map (Pair q) es) c"
  by (induction es arbitrary: c) (auto split: bind_split)

lemma stored_entries_saved:
  assumes "mc_inv L m" "content_size L < MUTATION_CACHE_DEFAULT_SIZE" "mc_content_size m \<le> MUTATION_CACHE_DEFAULT_SIZE"
    and "save_bytes L m = Some (cimg b, m')"
  shows "stored_entries L cimg b = Some (mc_entries L m)"
proof -
  have L: "layout_ok L" using assms(1) by (simp add: mc_inv_def)
  obtain m2 where m2: "mc_new L = Some m2" "mc_inv L m2" "mc_content_size m2 = MUTATION_CACHE_DEFAULT_SIZE"
    using mc_new_ok [OF L assms(2)] by auto
  show ?thesis
    using save_load_ok [OF assms(1) m2(2)] m2 assms(3,4) by (auto simp: stored_entries_def)
qed

text \<open>The reports of whole queue entries, as reports of single cache entries.\<close>

lemma report_new_qe_events:
  assumes "content_size L < MUTATION_CACHE_DEFAULT_SIZE" "stores L cimg q es"
  shows "report_new_qe L cimg q c = report_events (map (Pair (qe_id q)) es) c"
  using assms stored_entries_saved [OF _ assms(1)]
  by (cases "qe_mutations q") (auto simp: report_new_qe_def stores_def report_mces_events)

lemma report_qes_events:
  assumes "content_size L < MUTATION_CACHE_DEFAULT_SIZE" "\<forall>q\<in>set qs. stores L cimg q (mods q)"
  shows "report_qes L cimg qs c = report_events (concat (map (\<lambda>q. map (Pair (qe_id q)) (mods q)) qs)) c"
  using assms(2)
proof (induction qs arbitrary: c)
  case (Cons q qs)
  have "report_new_qe L cimg q c = report_events (map (Pair (qe_id q)) (mods q)) c"
    using report_new_qe_events [OF assms(1)] Cons.prems by simp
  moreover have "report_qes L cimg qs = report_events (concat (map (\<lambda>q. map (Pair (qe_id q)) (mods q)) qs))"
    using Cons by auto
  ultimately show ?case by (simp add: report_events_append)
qed simp

text \<open>What the reports of the cache entries \<open>evs\<close> add to the masks of a site, and to its users.\<close>

definition add_msk :: "u64 \<times> u8 list \<Rightarrow> (u64 \<times> u8 list) list \<Rightarrow> (u64 \<times> u8 list) list" where
  "add_msk x ms = (if snd x \<in> snd ` set ms then ms else ms @ [x])"

definition msks_of :: "cerebrum \<Rightarrow> u64 \<Rightarrow> (u64 \<times> u8 list) list" where
  "msks_of c i = (case patch_point_msks c i of Some key \<Rightarrow> key | None \<Rightarrow> [])"

definition site_msks :: "u64 \<Rightarrow> (u64 \<times> mce) list \<Rightarrow> (u64 \<times> u8 list) list" where
  "site_msks i evs = map (\<lambda>(q, e). (q, get_msk_as_slice e)) (filter (\<lambda>(q, e). mce_id e = i) evs)"

definition site_users :: "u64 \<Rightarrow> (u64 \<times> mce) list \<Rightarrow> u64 set" where
  "site_users i evs = fst ` set (filter (\<lambda>(q, e). mce_id e = i) evs)"

lemma report_mce_ok:
  assumes "patch_point_stats c (mce_id e) = Some p"
  shows "\<exists>c'. report_mce q e c = Some c' \<and>
    patch_point_stats c' = (patch_point_stats c)(mce_id e \<mapsto> p\<lparr>used_by := insert q (used_by p)\<rparr>) \<and>
    msks_of c' = (msks_of c)(mce_id e := add_msk (q, get_msk_as_slice e) (msks_of c (mce_id e)))"
proof -
  have "list_all (\<lambda>x. snd x \<noteq> m) key \<longleftrightarrow> m \<notin> snd ` set key" for m and key :: "(u64 \<times> u8 list) list"
    by (auto simp: list_all_iff)
  then show ?thesis
    using assms by (cases "patch_point_msks c (mce_id e)") (auto simp: report_mce_def Let_def msks_of_def add_msk_def fun_eq_iff)
qed

lemma report_events_ok:
  assumes "\<forall>(q, e)\<in>set evs. mce_id e \<in> dom (patch_point_stats c)"
  shows "\<exists>c'. report_events evs c = Some c' \<and> dom (patch_point_stats c') = dom (patch_point_stats c) \<and>
    (\<forall>i p. patch_point_stats c i = Some p \<longrightarrow>
       patch_point_stats c' i = Some (p\<lparr>used_by := site_users i evs \<union> used_by p\<rparr>)) \<and>
    (\<forall>i. msks_of c' i = fold add_msk (site_msks i evs) (msks_of c i))"
  using assms
proof (induction evs arbitrary: c)
  case (Cons ev evs)
  obtain q e where ev: "ev = (q, e)" by force
  obtain p where p: "patch_point_stats c (mce_id e) = Some p" using Cons.prems ev by auto
  obtain c1 where c1: "report_mce q e c = Some c1"
      "patch_point_stats c1 = (patch_point_stats c)(mce_id e \<mapsto> p\<lparr>used_by := insert q (used_by p)\<rparr>)"
      "msks_of c1 = (msks_of c)(mce_id e := add_msk (q, get_msk_as_slice e) (msks_of c (mce_id e)))"
    using report_mce_ok [OF p] by blast
  have d: "dom (patch_point_stats c1) = dom (patch_point_stats c)" using c1(2) p by auto
  then have "\<forall>(q, e)\<in>set evs. mce_id e \<in> dom (patch_point_stats c1)" using Cons.prems by auto
  from Cons.IH [OF this] obtain c' where c': "report_events evs c1 = Some c'"
      "dom (patch_point_stats c') = dom (patch_point_stats c1)"
      "\<forall>i p. patch_point_stats c1 i = Some p \<longrightarrow>
         patch_point_stats c' i = Some (p\<lparr>used_by := site_users i evs \<union> used_by p\<rparr>)"
      "\<forall>i. msks_of c' i = fold add_msk (site_msks i evs) (msks_of c1 i)" by blast
  have "patch_point_stats c' i = Some (r\<lparr>used_by := site_users i (ev # evs) \<union> used_by r\<rparr>)"
    if r: "patch_point_stats c i = Some r" for i r
    using c'(3) c1(2) p r by (cases "i = mce_id e") (auto simp: site_users_def ev)
  moreover have "msks_of c' i = fold add_msk (site_msks i (ev # evs)) (msks_of c i)" for i
    using c'(4) c1(3) by (auto simp: site_msks_def ev)
  ultimately show ?case using c'(1,2) c1(1) d ev by auto
qed (auto simp: site_users_def site_msks_def)

lemma fold_add_msk:
  "distinct (map snd ms) \<Longrightarrow> distinct (map snd (fold add_msk xs ms)) \<and>
   snd ` set (fold add_msk xs ms) = snd ` set ms \<union> snd ` set xs \<and> set (fold add_msk xs ms) \<subseteq> set ms \<union> set xs"
proof (induction xs arbitrary: ms)
  case (Cons x xs)
  then have "distinct (map snd (add_msk x ms))" by (auto simp: add_msk_def)
  moreover have "set (add_msk x ms) \<subseteq> set ms \<union> {x}" "snd ` set (add_msk x ms) = snd ` set ms \<union> {snd x}"
    by (auto simp: add_msk_def image_iff)
  ultimately show ?case using Cons.IH [of "add_msk x ms"] by auto
qed simp

lemma cerebrum_new_facts:
  assumes "set (iter (set sites)) = set sites"
  shows "patch_point_stats (cerebrum_new iter sites) i = (if i \<in> site_id ` set sites then Some pp_stats_default else None)"
    "msks_of (cerebrum_new iter sites) i = []"
proof -
  have "fold (\<lambda>s m. m(site_id s \<mapsto> pp_stats_default)) ss m i =
      (if i \<in> site_id ` set ss then Some pp_stats_default else m i)" for ss :: "mutation_site list" and m
    by (induction ss arbitrary: m) auto
  then show "patch_point_stats (cerebrum_new iter sites) i = (if i \<in> site_id ` set sites then Some pp_stats_default else None)"
    using assms by (simp add: cerebrum_new_def Let_def del: fun_upd_apply)
  show "msks_of (cerebrum_new iter sites) i = []" by (simp add: cerebrum_new_def Let_def msks_of_def)
qed

section \<open>Masks that have not been tried yet\<close>

text \<open>
  What the loop returns: of every entry that was not tried before its first mask, in the order of the
  list.
\<close>

lemma try_msks_ok:
  assumes "fis_inv MAX_QUEUE_ENTRY_CNT tried" "\<forall>(q, m)\<in>set ms. unat q \<le> MAX_QUEUE_ENTRY_CNT"
  shows "\<exists>ps tried'. try_msks ms tried = Some (map snd ps, tried') \<and> fis_inv MAX_QUEUE_ENTRY_CNT tried' \<and>
    fis_entries tried' = fis_entries tried \<union> unat ` fst ` set ms \<and> subseq ps ms \<and> distinct (map fst ps) \<and>
    unat ` fst ` set ps = unat ` fst ` set ms - fis_entries tried \<and> (\<forall>(q, m)\<in>set ps. map_of ms q = Some m)"
  using assms
proof (induction ms arbitrary: tried)
  case (Cons x ms)
  obtain q m where x: "x = (q, m)" by force
  obtain t1 where t1: "fis_insert (unat q) tried = Some (unat q \<notin> fis_entries tried, t1)" "fis_inv MAX_QUEUE_ENTRY_CNT t1"
      "fis_entries t1 = insert (unat q) (fis_entries tried)"
    using fis.ins_ok [OF Cons.prems(1), of "unat q"] Cons.prems(2) x by auto
  have "\<forall>(q, m)\<in>set ms. unat q \<le> MAX_QUEUE_ENTRY_CNT" using Cons.prems(2) by auto
  from Cons.IH [OF t1(2) this] obtain ps t' where r: "try_msks ms t1 = Some (map snd ps, t')" "fis_inv MAX_QUEUE_ENTRY_CNT t'"
      "fis_entries t' = fis_entries t1 \<union> unat ` fst ` set ms" "subseq ps ms" "distinct (map fst ps)"
      "unat ` fst ` set ps = unat ` fst ` set ms - fis_entries t1" "\<forall>(q, m)\<in>set ps. map_of ms q = Some m"
    by (elim exE conjE) (rule that)
  let ?ps = "if unat q \<notin> fis_entries tried then x # ps else ps"
  have q: "unat q \<notin> unat ` fst ` set ps" using r(6) t1(3) by simp
  then have q': "q \<notin> fst ` set ps" by blast
  have "try_msks (x # ms) tried = Some (map snd ?ps, t')" using r(1) t1(1) x by simp
  moreover have "subseq ?ps (x # ms)" using r(4) by (simp add: list_emb_Cons)
  moreover have "distinct (map fst ?ps)" using r(5) q' x by simp
  moreover have "unat ` fst ` set ?ps = unat ` fst ` set (x # ms) - fis_entries tried" using r(6) t1(3) x by auto
  moreover have "\<forall>(q, m)\<in>set ?ps. map_of (x # ms) q = Some m"
  proof -
    have "map_of (x # ms) a = Some b" if "(a, b) \<in> set ps" for a b
    proof -
      have "a \<noteq> q" using that q' by force
      then show ?thesis using that r(7) x by auto
    qed
    then show ?thesis using x by auto
  qed
  moreover have "fis_entries t' = fis_entries tried \<union> unat ` fst ` set (x # ms)" using r(3) t1(3) x by simp
  ultimately show ?case using r(2) by (intro exI [of _ ?ps] exI [of _ t'] conjI)
qed simp

text \<open>A sequence of queries for one queue entry.\<close>

fun yielding_queries :: "cerebrum \<Rightarrow> queue_entry \<Rightarrow> u64 list \<Rightarrow> store \<Rightarrow> (u8 list list list \<times> store) option" where
  "yielding_queries c e [] st = Some ([], st)"
| "yielding_queries c e (i # is) st = do {
     (r, st) \<leftarrow> patch_point_yielding_msks c e i st;
     (rs, st) \<leftarrow> yielding_queries c e is st;
     Some (r # rs, st) }"

text \<open>The queue entries that an entry has been combined with.\<close>

definition tried_ids :: "entry_stats \<Rightarrow> nat set" where
  "tried_ids s = (case qs_combine_done s of None \<Rightarrow> {} | Some t \<Rightarrow> fis_entries t)"

definition tried_ok :: "entry_stats \<Rightarrow> bool" where
  "tried_ok s \<longleftrightarrow> (\<forall>t. qs_combine_done s = Some t \<longrightarrow> fis_inv MAX_QUEUE_ENTRY_CNT t)"

definition contributors :: "cerebrum \<Rightarrow> u64 \<Rightarrow> nat set" where
  "contributors c i = unat ` fst ` set (msks_of c i)"

lemma yielding_msks_ok:
  assumes "qe_stats e < length st" "tried_ok (st ! qe_stats e)" "contributors c i \<subseteq> {..MAX_QUEUE_ENTRY_CNT}"
  shows "\<exists>ps st'. patch_point_yielding_msks c e i st = Some (map snd ps, st') \<and> length st' = length st \<and>
    tried_ok (st' ! qe_stats e) \<and> tried_ids (st' ! qe_stats e) = tried_ids (st ! qe_stats e) \<union> contributors c i \<and>
    subseq ps (msks_of c i) \<and> distinct (map fst ps) \<and>
    unat ` fst ` set ps = contributors c i - tried_ids (st ! qe_stats e) \<and> (\<forall>(q, m)\<in>set ps. map_of (msks_of c i) q = Some m)"
proof -
  let ?s = "st ! qe_stats e"
  obtain t s1 where t: "combined_with_mut ?s = (t, s1)" by force
  have f: "fis_inv MAX_QUEUE_ENTRY_CNT t" "fis_entries t = tried_ids ?s"
    using t assms(2) fis.invar_new fis.elems_new
    by (auto simp: combined_with_mut_def tried_ids_def tried_ok_def Let_def split: option.splits)
  have "\<forall>(q, m)\<in>set (msks_of c i). unat q \<le> MAX_QUEUE_ENTRY_CNT" using assms(3) by (fastforce simp: contributors_def)
  from try_msks_ok [OF f(1) this, unfolded f(2) contributors_def [symmetric]] obtain ps t' where r: "try_msks (msks_of c i) t = Some (map snd ps, t')"
      "fis_inv MAX_QUEUE_ENTRY_CNT t'" "fis_entries t' = tried_ids ?s \<union> contributors c i" "subseq ps (msks_of c i)" "distinct (map fst ps)"
      "unat ` fst ` set ps = contributors c i - tried_ids ?s" "\<forall>(q, m)\<in>set ps. map_of (msks_of c i) q = Some m"
    by (elim exE conjE) (rule that)
  have "(case patch_point_msks c i of Some msks \<Rightarrow> try_msks msks t | None \<Rightarrow> Some ([], t)) = Some (map snd ps, t')"
    using r(1) by (auto simp: msks_of_def split: option.splits)
  then have "patch_point_yielding_msks c e i st = Some (map snd ps, st[qe_stats e := s1\<lparr>qs_combine_done := Some t'\<rparr>])"
    using assms(1) t by (simp add: patch_point_yielding_msks_def stats_ro_def)
  then show ?thesis using r assms(1) by (intro exI [of _ ps]) (simp add: tried_ok_def tried_ids_def)
qed

text \<open>
  The masks \<open>ps\<close> of a query for the site \<open>i\<close>, after queries for the sites \<open>before\<close>: each is the first
  mask of its entry for this site, and the entry has none for the sites before.
\<close>

definition fresh_msks :: "cerebrum \<Rightarrow> u64 list \<Rightarrow> u64 \<Rightarrow> (u64 \<times> u8 list) list \<Rightarrow> bool" where
  "fresh_msks c before i ps \<longleftrightarrow> subseq ps (msks_of c i) \<and>
     (\<forall>(q, m)\<in>set ps. map_of (msks_of c i) q = Some m \<and> (\<forall>j\<in>set before. unat q \<notin> contributors c j))"

lemma yielding_queries_ok:
  assumes "qe_stats e < length st" "tried_ok (st ! qe_stats e)" "\<forall>i\<in>set is. contributors c i \<subseteq> {..MAX_QUEUE_ENTRY_CNT}"
    and "\<forall>j\<in>set before. contributors c j \<subseteq> tried_ids (st ! qe_stats e)"
  shows "\<exists>ps st'. yielding_queries c e is st = Some (map (map snd) ps, st') \<and> length ps = length is \<and>
    distinct (map fst (concat ps)) \<and>
    unat ` fst ` set (concat ps) = \<Union> (contributors c ` set is) - tried_ids (st ! qe_stats e) \<and>
    (\<forall>k<length is. fresh_msks c (before @ take k is) (is ! k) (ps ! k))"
  using assms
proof (induction "is" arbitrary: st before)
  case (Cons i "is")
  let ?T = "tried_ids (st ! qe_stats e)" and ?U = "\<Union> (contributors c ` set is)"
  obtain p st1 where r: "patch_point_yielding_msks c e i st = Some (map snd p, st1)" "length st1 = length st"
      "tried_ok (st1 ! qe_stats e)" "tried_ids (st1 ! qe_stats e) = ?T \<union> contributors c i"
      "subseq p (msks_of c i)" "distinct (map fst p)" "unat ` fst ` set p = contributors c i - ?T"
      "\<forall>(q, m)\<in>set p. map_of (msks_of c i) q = Some m"
  proof -
    have "contributors c i \<subseteq> {..MAX_QUEUE_ENTRY_CNT}" using Cons.prems(3) by simp
    from yielding_msks_ok [OF Cons.prems(1,2) this] show thesis by (elim exE conjE) (rule that)
  qed
  have b: "\<forall>j\<in>set (before @ [i]). contributors c j \<subseteq> tried_ids (st1 ! qe_stats e)" using Cons.prems(4) r(4) by auto
  obtain ps st' where rs: "yielding_queries c e is st1 = Some (map (map snd) ps, st')" "length ps = length is"
      "distinct (map fst (concat ps))" "unat ` fst ` set (concat ps) = ?U - (?T \<union> contributors c i)"
      "\<forall>k<length is. fresh_msks c ((before @ [i]) @ take k is) (is ! k) (ps ! k)"
  proof -
    have "qe_stats e < length st1" "\<forall>i\<in>set is. contributors c i \<subseteq> {..MAX_QUEUE_ENTRY_CNT}" using Cons.prems(1,3) r(2) by simp_all
    from Cons.IH [OF this(1) r(3) this(2) b, unfolded r(4)] show thesis by (elim exE conjE) (rule that)
  qed
  have "set (map fst p) \<inter> set (map fst (concat ps)) = {}"
  proof -
    have "unat ` set (map fst p) \<inter> unat ` set (map fst (concat ps)) = {}"
      unfolding set_map r(7) rs(4) by blast
    then show ?thesis by blast
  qed
  then have "distinct (map fst (concat (p # ps)))" using r(6) rs(3) by simp
  moreover have "unat ` fst ` set (concat (p # ps)) = \<Union> (contributors c ` set (i # is)) - ?T"
  proof -
    have "unat ` fst ` set (concat (p # ps)) = unat ` fst ` set p \<union> unat ` fst ` set (concat ps)" by (simp add: image_Un)
    then show ?thesis unfolding r(7) rs(4) by auto
  qed
  moreover have "fresh_msks c before i p"
  proof -
    have "unat q \<notin> contributors c j" if "(q, m) \<in> set p" "j \<in> set before" for q m j
    proof -
      have "unat q \<in> unat ` fst ` set p" using that(1) by force
      then show ?thesis using that(2) Cons.prems(4) unfolding r(7) by blast
    qed
    then show ?thesis using r(5,8) unfolding fresh_msks_def by blast
  qed
  then have "\<forall>k<length (i # is). fresh_msks c (before @ take k (i # is)) ((i # is) ! k) ((p # ps) ! k)"
    using rs(5) by (simp add: All_less_Suc2)
  moreover have "yielding_queries c e (i # is) st = Some (map (map snd) (p # ps), st')" using r(1) rs(1) by simp
  ultimately show ?case using rs(2) by (intro exI [of _ "p # ps"] exI [of _ st'] conjI) simp_all
qed simp

section \<open>Properties\<close>

text \<open>
  C14: After the reports of any sequence of queue entries the knowledge base knows exactly what they
  store: the users of a site are the entries that mutate it, its masks are the masks they use there,
  each listed once and attributed to an entry that has it. Loading the stored bytes never fails.
\<close>

theorem reports_recorded:
  assumes it: "set (iter (set sites)) = set sites" and sz: "content_size L < MUTATION_CACHE_DEFAULT_SIZE"
    and st: "\<forall>q\<in>set qs. stores L cimg q (mods q) \<and> mce_id ` set (mods q) \<subseteq> site_id ` set sites"
  shows "\<exists>c. report_qes L cimg qs (cerebrum_new iter sites) = Some c \<and> (\<forall>i\<in>site_id ` set sites.
    (\<exists>p. pp_stats i c = Some p \<and> used_by p = {qe_id q | q. q \<in> set qs \<and> i \<in> mce_id ` set (mods q)}) \<and>
    distinct (map snd (msks_of c i)) \<and>
    snd ` set (msks_of c i) = {get_msk_as_slice e | q e. q \<in> set qs \<and> e \<in> set (mods q) \<and> mce_id e = i} \<and>
    (\<forall>x\<in>set (msks_of c i). \<exists>q\<in>set qs. \<exists>e\<in>set (mods q). fst x = qe_id q \<and> mce_id e = i \<and> snd x = get_msk_as_slice e))"
proof -
  note new = cerebrum_new_facts [where iter = iter and sites = sites, OF it]
  let ?c = "cerebrum_new iter sites" and ?evs = "concat (map (\<lambda>q. map (Pair (qe_id q)) (mods q)) qs)"
  have evs: "set ?evs = {(qe_id q, e) | q e. q \<in> set qs \<and> e \<in> set (mods q)}" by auto
  have "\<forall>(q, e)\<in>set ?evs. mce_id e \<in> dom (patch_point_stats ?c)"
    using st by (auto simp: new(1) dom_def)
  from report_events_ok [OF this] obtain c where c: "report_events ?evs ?c = Some c"
    "\<forall>i p. patch_point_stats ?c i = Some p \<longrightarrow> patch_point_stats c i = Some (p\<lparr>used_by := site_users i ?evs \<union> used_by p\<rparr>)"
    "\<forall>i. msks_of c i = fold add_msk (site_msks i ?evs) (msks_of ?c i)" by blast
  have m: "set (site_msks i ?evs) = {(qe_id q, get_msk_as_slice e) | q e. q \<in> set qs \<and> e \<in> set (mods q) \<and> mce_id e = i}" for i
    unfolding site_msks_def set_map set_filter evs by (auto simp: image_iff) blast
  have u: "site_users i ?evs = {qe_id q | q. q \<in> set qs \<and> i \<in> mce_id ` set (mods q)}" for i
    unfolding site_users_def set_filter evs by (auto simp: image_iff) blast
  have "\<exists>p. pp_stats i c = Some p \<and> used_by p = {qe_id q | q. q \<in> set qs \<and> i \<in> mce_id ` set (mods q)}"
    if "i \<in> site_id ` set sites" for i
    using c(2) that u by (simp add: new(1) pp_stats_def pp_stats_default_def)
  moreover have f: "distinct (map snd (msks_of c i)) \<and> snd ` set (msks_of c i) = snd ` set (site_msks i ?evs) \<and>
      set (msks_of c i) \<subseteq> set (site_msks i ?evs)" for i
    using fold_add_msk [of "[]" "site_msks i ?evs"] c(3) by (simp add: new(2))
  moreover have "snd ` set (site_msks i ?evs) = {get_msk_as_slice e | q e. q \<in> set qs \<and> e \<in> set (mods q) \<and> mce_id e = i}" for i
    unfolding m by force
  moreover have "\<exists>q\<in>set qs. \<exists>e\<in>set (mods q). fst x = qe_id q \<and> mce_id e = i \<and> snd x = get_msk_as_slice e"
    if "x \<in> set (msks_of c i)" for x i
  proof -
    have "x \<in> set (site_msks i ?evs)" using f that by blast
    then show ?thesis unfolding m by auto blast
  qed
  moreover have "report_qes L cimg qs ?c = Some c" using report_qes_events [OF sz, of qs cimg mods] st c(1) by simp
  ultimately show ?thesis by (intro exI [of _ c]) simp
qed

lemma sample_cache_size: "mc_content_size sample_cache \<le> 268435456"
  by (simp add: sample_cache_def)

theorem reports_recorded_witness:
  "\<exists>cimg c. report_qes ref_layout cimg [(sample_entry 3 0)\<lparr>qe_mutations := Some []\<rparr>, sample_entry 4 1]
      (cerebrum_new (\<lambda>_. [sample_site 7]) [sample_site 7]) = Some c \<and> snd ` set (msks_of c 7) = {[1, 2, 3, 4]}"
proof -
  obtain img m' where s: "save_bytes ref_layout sample_cache = Some (img, m')"
    using save_load_ok [OF sample_cache_facts(1) sample_cache_facts(1)] by auto
  let ?q = "(sample_entry 3 0)\<lparr>qe_mutations := Some []\<rparr>" and ?mods = "\<lambda>q. if qe_mutations q = None then [] else [sample_mce 7]"
  have "stores ref_layout (\<lambda>_. img) ?q [sample_mce 7]"
    unfolding stores_def using sample_cache_facts(1,2) s
    by (simp add: MUTATION_CACHE_DEFAULT_SIZE_def) (metis sample_cache_size)
  moreover have "stores ref_layout (\<lambda>_. img) (sample_entry 4 1) []" by (simp add: stores_def sample_entry_def)
  moreover have "qe_mutations (sample_entry 4 1) = None" by (simp add: sample_entry_def)
  ultimately have s: "\<forall>q\<in>set [?q, sample_entry 4 1]. stores ref_layout (\<lambda>_. img) q (?mods q) \<and>
      mce_id ` set (?mods q) \<subseteq> site_id ` set [sample_site 7]"
    by (simp add: sample_mce_facts sample_site_def)
  have "set ((\<lambda>_. [sample_site 7]) (set [sample_site 7])) = set [sample_site 7]" by simp
  moreover have "content_size ref_layout < MUTATION_CACHE_DEFAULT_SIZE" by (simp add: ref_layout_def MUTATION_CACHE_DEFAULT_SIZE_def)
  moreover have "7 \<in> site_id ` set [sample_site 7]" by (simp add: sample_site_def)
  moreover have "{get_msk_as_slice e | q e. q \<in> set [?q, sample_entry 4 1] \<and> e \<in> set (?mods q) \<and> mce_id e = 7} = {[1, 2, 3, 4]}"
    by (auto simp: sample_mce_facts sample_entry_def intro!: exI [of _ ?q])
  ultimately show ?thesis using reports_recorded [OF _ _ s, of "\<lambda>_. [sample_site 7]"] by (intro exI [of _ "\<lambda>_. img"]) auto
qed

text \<open>
  C15: The combinations of a queue entry with the masks of others: over any sequence of queries, the
  queue entries that contribute are exactly those with a mask for one of the queried sites that the
  entry has not been combined with, and each contributes exactly one mask: its first mask of the first
  of the queried sites it has one for. So its masks for the other sites are never tried. No query
  panics while the entry ids fit into the bit vector.
\<close>

theorem combinations_once:
  assumes "qe_stats e < length st" "tried_ok (st ! qe_stats e)"
    and "\<forall>i\<in>set is. contributors c i \<subseteq> {..MAX_QUEUE_ENTRY_CNT}"
  shows "\<exists>ps st'. yielding_queries c e is st = Some (map (map snd) ps, st') \<and> length ps = length is \<and>
    distinct (map fst (concat ps)) \<and>
    unat ` fst ` set (concat ps) = \<Union> (contributors c ` set is) - tried_ids (st ! qe_stats e) \<and>
    (\<forall>k<length is. fresh_msks c (take k is) (is ! k) (ps ! k))"
  using yielding_queries_ok [OF assms, of "[]"] by simp

theorem combinations_once_witness:
  "\<exists>st'. yielding_queries ((cerebrum_new (\<lambda>_. []) [])\<lparr>patch_point_msks := [7 \<mapsto> [(3, [1])], 8 \<mapsto> [(3, [2]), (4, [5])]]\<rparr>)
     (sample_entry 9 0) [7, 8] [qs_new] = Some ([[[1]], [[5]]], st')"
proof -
  let ?c = "(cerebrum_new (\<lambda>_. []) [])\<lparr>patch_point_msks := [7 \<mapsto> [(3, [1])], 8 \<mapsto> [(3, [2]), (4, [5])]]\<rparr>"
  have m: "msks_of ?c 7 = [(3, [1])]" "msks_of ?c 8 = [(3, [2]), (4, [5])]" by (simp_all add: msks_of_def)
  have c: "contributors ?c 7 = {3}" "contributors ?c 8 = {3, 4}" by (simp_all add: contributors_def m)
  have t: "tried_ids ([qs_new] ! qe_stats (sample_entry 9 0)) = {}" by (simp add: sample_entry_def tried_ids_def qs_new_def)
  have "\<exists>ps st'. yielding_queries ?c (sample_entry 9 0) [7, 8] [qs_new] = Some (map (map snd) ps, st') \<and> length ps = length [7, 8 :: u64] \<and>
    distinct (map fst (concat ps)) \<and>
    unat ` fst ` set (concat ps) = \<Union> (contributors ?c ` set [7, 8]) - tried_ids ([qs_new] ! qe_stats (sample_entry 9 0)) \<and>
    (\<forall>k<length [7, 8 :: u64]. fresh_msks ?c (take k [7, 8]) ([7, 8] ! k) (ps ! k))"
    by (rule combinations_once) (simp_all add: c sample_entry_def tried_ok_def qs_new_def MAX_QUEUE_ENTRY_CNT_def)
  then obtain ps st' where q: "yielding_queries ?c (sample_entry 9 0) [7, 8] [qs_new] = Some (map (map snd) ps, st')" "length ps = 2"
    "unat ` fst ` set (concat ps) = {3, 4}" "fresh_msks ?c [] 7 (ps ! 0)" "fresh_msks ?c [7] 8 (ps ! 1)"
    unfolding t by (auto simp: c insert_commute All_less_Suc2)
  obtain p0 p1 where p: "ps = [p0, p1]" using q(2) by (auto simp: length_Suc_conv numeral_2_eq_2)
  have f: "subseq p0 [(3, [1])]" "subseq p1 [(3, [2]), (4, [5])]" "\<forall>(x, y)\<in>set p1. unat x \<notin> {3}"
    using q(4,5) unfolding p fresh_msks_def by (auto simp: c m)
  have p1: "p1 = [] \<or> p1 = [(4, [5])]" using f(2,3) unfolding in_set_subseqs [symmetric] by auto
  have "p0 = [] \<or> p0 = [(3, [1])]" using f(1) unfolding in_set_subseqs [symmetric] by auto
  then have "map (map snd) ps = [[[1]], [[5]]]" using p1 q(3) p by auto
  then show ?thesis using q(1) by metis
qed

end
