(* ===== verification/Scheduling.thy ===== *)
theory Scheduling
  imports Cerebrum
begin

text \<open>
  The choice of the next queue entry (\<^verbatim>\<open>worker_impl/scheduling.rs\<close>) and the state of a worker it
  depends on (\<^verbatim>\<open>FuzzerState\<close> of \<^verbatim>\<open>fuzzer/worker.rs\<close>). The iteration orders of the hash tables and the
  random choices are parameters (\<open>draws\<close>); sleeping and logging have no effect on the state.
\<close>

section \<open>The state of a worker\<close>

record fuzzer_state =
  fs_entry :: "queue_entry option"
  fs_phase :: "fuzzing_phase option"
  fs_patch_point :: "u64 option"
  fs_mutator :: "mutator_type option"
  fs_last_mutator :: "mutator_type option"
  fs_mutator_total_iterations :: "nat option"
  fs_mutator_iterations :: "nat option"
  fs_phases_finished :: "fuzzing_phase set"

definition fs_default :: fuzzer_state where
  "fs_default = \<lparr>fs_entry = None, fs_phase = None, fs_patch_point = None, fs_mutator = None, fs_last_mutator = None,
     fs_mutator_total_iterations = None, fs_mutator_iterations = None, fs_phases_finished = {}\<rparr>"

definition fs_reset :: "fuzzer_state \<Rightarrow> fuzzer_state" where
  "fs_reset fs = fs\<lparr>fs_entry := None, fs_phase := None, fs_patch_point := None, fs_mutator := None,
     fs_mutator_total_iterations := None, fs_mutator_iterations := None\<rparr>"

definition set_entry :: "queue_entry \<Rightarrow> fuzzer_state \<Rightarrow> fuzzer_state" where
  "set_entry e fs = fs\<lparr>fs_entry := Some e\<rparr>"

definition set_phase :: "fuzzing_phase \<Rightarrow> fuzzer_state \<Rightarrow> fuzzer_state" where
  "set_phase phase fs = fs\<lparr>fs_phase := Some phase\<rparr>"

definition set_patch_point :: "u64 \<Rightarrow> fuzzer_state \<Rightarrow> fuzzer_state" where
  "set_patch_point pp fs = fs\<lparr>fs_patch_point := Some pp\<rparr>"

definition set_mutator :: "mutator_type \<Rightarrow> nat \<Rightarrow> fuzzer_state \<Rightarrow> fuzzer_state" where
  "set_mutator mt iterations fs = fs\<lparr>fs_last_mutator := (case fs_mutator fs of Some m \<Rightarrow> Some m | None \<Rightarrow> fs_last_mutator fs),
     fs_mutator := Some mt, fs_mutator_total_iterations := Some iterations\<rparr>"

definition set_iterations :: "nat \<Rightarrow> fuzzer_state \<Rightarrow> fuzzer_state option" where
  "set_iterations iterations fs = do {
     n \<leftarrow> fs_mutator_total_iterations fs;
     require (n \<ge> iterations);
     Some (fs\<lparr>fs_mutator_iterations := Some iterations\<rparr>) }"

definition mark_phase_as_done :: "fuzzing_phase \<Rightarrow> fuzzer_state \<Rightarrow> fuzzer_state" where
  "mark_phase_as_done phase fs = fs\<lparr>fs_phases_finished := insert phase (fs_phases_finished fs)\<rparr>"

definition phase_done :: "fuzzing_phase \<Rightarrow> fuzzer_state \<Rightarrow> bool" where
  "phase_done phase fs \<longleftrightarrow> phase \<in> fs_phases_finished fs"

section \<open>Favoured entries\<close>

record sched_draws =
  sd_edges :: "nat set \<Rightarrow> nat list"
  sd_sites :: "u64 set \<Rightarrow> u64 list"
  sd_set :: "queue_entry list \<Rightarrow> queue_entry list"
  sd_weighted :: "(queue_entry \<times> nat) list \<Rightarrow> nat"
  sd_shuffle :: "queue_entry list \<Rightarrow> queue_entry list"

text \<open>\<^verbatim>\<open>bytes_set_lut.entry(e).or_insert_with(..)\<close>\<close>

definition bits_set :: "queue_entry \<Rightarrow> (u64 \<rightharpoonup> nat) \<Rightarrow> nat \<times> (u64 \<rightharpoonup> nat)" where
  "bits_set e lut = (case lut (qe_id e) of Some n \<Rightarrow> (n, lut)
     | None \<Rightarrow> let n = bm_count_bits_set (qe_covered_edges e) in (n, lut(qe_id e \<mapsto> n)))"

type_synonym dominators = "(nat \<rightharpoonup> queue_entry) \<times> (u64 \<rightharpoonup> nat) \<times> store"

definition dominate_edge :: "queue_entry \<Rightarrow> nat \<Rightarrow> dominators \<Rightarrow> dominators option" where
  "dominate_edge candidate edge x = (case x of (dominator, lut, st) \<Rightarrow> (case dominator edge of
      None \<Rightarrow> Some (dominator(edge \<mapsto> candidate), lut, st)
    | Some current \<Rightarrow>
        let (current_bits, lut) = bits_set current lut; (candidate_bits, lut) = bits_set candidate lut in
        if current_bits < candidate_bits then do {
          st \<leftarrow> stats_rw current favoured_decrement st;
          Some (dominator(edge \<mapsto> candidate), lut, st) }
        else Some (dominator, lut, st)))"

definition dominate_entry :: "queue_entry \<Rightarrow> dominators \<Rightarrow> dominators option" where
  "dominate_entry candidate = fold_opt (dominate_edge candidate) (bm_edges (qe_covered_edges candidate))"

definition mark_all :: "queue_entry list \<Rightarrow> store \<Rightarrow> store option" where
  "mark_all = fold_opt (\<lambda>e. stats_rw e mark_favoured_once)"

definition recalculate_favoured_sink_dominator_edges :: "sched_draws \<Rightarrow> queue_entry list \<Rightarrow> store \<Rightarrow> store option" where
  "recalculate_favoured_sink_dominator_edges D entries st = do {
     (dominator, lut, st) \<leftarrow> fold_opt dominate_entry entries (Map.empty, Map.empty, st);
     mark_all (map (the \<circ> dominator) (sd_edges D (dom dominator))) st }"

text \<open>Insertion into a \<^verbatim>\<open>HashSet\<close> of entries, which are compared by their ids.\<close>

definition hs_insert :: "queue_entry \<Rightarrow> queue_entry list \<Rightarrow> queue_entry list" where
  "hs_insert e es = (if list_ex (qe_eq e) es then es else es @ [e])"

definition note_site :: "queue_entry \<Rightarrow> mce \<Rightarrow> (u64 \<rightharpoonup> queue_entry list) \<Rightarrow> (u64 \<rightharpoonup> queue_entry list)" where
  "note_site e mce pps = pps(mce_id mce \<mapsto> hs_insert e (case pps (mce_id mce) of Some es \<Rightarrow> es | None \<Rightarrow> []))"

definition note_entry :: "layout \<Rightarrow> (u8 list \<Rightarrow> content) \<Rightarrow> queue_entry \<Rightarrow> (u64 \<rightharpoonup> queue_entry list) \<times> mcache \<Rightarrow>
    ((u64 \<rightharpoonup> queue_entry list) \<times> mcache) option" where
  "note_entry L cimg e x = (case x of (pps, mc) \<Rightarrow> (case qe_mutations e of None \<Rightarrow> Some (pps, mc)
     | Some mutations \<Rightarrow> do {
         mc \<leftarrow> load_bytes L (cimg mutations) mc;
         Some (fold (note_site e) (mc_entries L mc) pps, mc) }))"

text \<open>\<^verbatim>\<open>Iterator::max_by_key\<close>: the last one of the elements with the maximal key.\<close>

fun max_by_key :: "('a \<Rightarrow> nat) \<Rightarrow> 'a list \<Rightarrow> 'a option" where
  "max_by_key f [] = None"
| "max_by_key f (x # xs) = Some (foldl (\<lambda>best y. if f best \<le> f y then y else best) x xs)"

definition mark_best :: "sched_draws \<Rightarrow> (u64 \<rightharpoonup> queue_entry list) \<Rightarrow> u64 \<Rightarrow> store \<Rightarrow> store option" where
  "mark_best D pps i st = do {
     es \<leftarrow> pps i;
     e \<leftarrow> max_by_key (\<lambda>e. bm_count_bits_set (qe_covered_edges e)) (sd_set D es);
     stats_rw e mark_favoured_once st }"

definition recalculate_favoured_unique_patch_point_ids ::
    "layout \<Rightarrow> (u8 list \<Rightarrow> content) \<Rightarrow> sched_draws \<Rightarrow> queue_entry list \<Rightarrow> store \<Rightarrow> store option" where
  "recalculate_favoured_unique_patch_point_ids L cimg D entries st = do {
     mc \<leftarrow> mc_new L;
     (pps, mc) \<leftarrow> fold_opt (note_entry L cimg) entries (Map.empty, mc);
     fold_opt (mark_best D pps) (sd_sites D (dom pps)) st }"

definition FAVOURED_RECALCULATION_START_DELAY :: duration where
  "FAVOURED_RECALCULATION_START_DELAY = 3600 * 10 ^ 9"

definition FAVOURED_RECALCULATION_INTERVAL :: u64 where
  "FAVOURED_RECALCULATION_INTERVAL = 100"

text \<open>\<open>ctr\<close> is the global counter of the calls.\<close>

definition recalculate_favoured :: "layout \<Rightarrow> (u8 list \<Rightarrow> content) \<Rightarrow> sched_draws \<Rightarrow> instant \<Rightarrow> instant \<Rightarrow> queue_entry list \<Rightarrow>
    u64 \<times> store \<Rightarrow> (u64 \<times> store) option" where
  "recalculate_favoured L cimg D start_ts now entries x = (case x of (ctr, st) \<Rightarrow>
     if elapsed now start_ts < FAVOURED_RECALCULATION_START_DELAY then Some (ctr, st)
     else if ctr mod FAVOURED_RECALCULATION_INTERVAL \<noteq> 0 then Some (ctr + 1, st)
     else do {
       st \<leftarrow> recalculate_favoured_sink_dominator_edges D entries st;
       st \<leftarrow> recalculate_favoured_unique_patch_point_ids L cimg D entries st;
       Some (ctr + 1, st) })"

section \<open>Choosing an entry\<close>

definition filter_entries :: "nat option \<Rightarrow> queue_entry list \<Rightarrow> store \<Rightarrow> queue_entry list option" where
  "filter_entries generation_ceiling entries st = filter_opt (\<lambda>e. do {
     s \<leftarrow> stats_ro e st;
     Some ((case generation_ceiling of Some c \<Rightarrow> qe_generation e \<le> c | None \<Rightarrow> True) \<and> \<not> qs_blacklisted s) }) entries"

definition favoured_count :: "queue_entry list \<Rightarrow> store \<Rightarrow> nat option" where
  "favoured_count entries st = do {
     fs \<leftarrow> filter_opt (\<lambda>e. map_option is_favoured (stats_ro e st)) entries;
     Some (length fs) }"

definition favoured_weight_or_1 :: "entry_stats \<Rightarrow> nat" where
  "favoured_weight_or_1 s = (case qs_favoured_weight s of Some w \<Rightarrow> unat w | None \<Rightarrow> 1)"

fun entry_weights :: "queue_entry list \<Rightarrow> store \<Rightarrow> (queue_entry \<times> nat) list option" where
  "entry_weights [] st = Some []"
| "entry_weights (e # es) st = do {
     s \<leftarrow> stats_ro e st;
     ws \<leftarrow> entry_weights es st;
     Some ((e, favoured_weight_or_1 s) # ws) }"

text \<open>\<^verbatim>\<open>choose_weighted(..).unwrap()\<close>: there is nothing to choose from if all weights are zero.\<close>

definition choose_weighted :: "sched_draws \<Rightarrow> (queue_entry \<times> nat) list \<Rightarrow> queue_entry option" where
  "choose_weighted D ws = do {
     require (list_ex (\<lambda>w. snd w > 0) ws);
     Some (fst (ws ! sd_weighted D ws)) }"

definition schedule_common :: "layout \<Rightarrow> (u8 list \<Rightarrow> content) \<Rightarrow> sched_draws \<Rightarrow> nat option \<Rightarrow> instant \<Rightarrow> instant \<Rightarrow> queue \<Rightarrow>
    u64 \<times> store \<Rightarrow> (queue_entry \<times> u64 \<times> store) option" where
  "schedule_common L cimg D generation_ceiling start_ts now q x = do {
     entries \<leftarrow> filter_entries generation_ceiling (queue_iter_without_crashes q) (snd x);
     prev_favoured_cnt \<leftarrow> favoured_count entries (snd x);
     (ctr, st) \<leftarrow> recalculate_favoured L cimg D start_ts now entries x;
     favoured_cnt \<leftarrow> favoured_count entries st;
     require (prev_favoured_cnt \<le> favoured_cnt);
     ws \<leftarrow> entry_weights entries st;
     selected \<leftarrow> choose_weighted D ws;
     st \<leftarrow> stats_rw selected favoured_decrement st;
     Some (selected, ctr, st) }"

definition discovery_entries :: "queue \<Rightarrow> store \<Rightarrow> queue_entry list option" where
  "discovery_entries q st = filter_opt (\<lambda>e. do {
     s \<leftarrow> stats_ro e st;
     Some (qe_generation e = 0 \<and> \<not> qs_blacklisted s \<and> \<not> is_phase_done FP_Discovery s \<and> \<not> qe_is_crash e) }) (queue_entries q)"

text \<open>The entry is \<^const>\<open>None\<close> when the worker has to stop.\<close>

function schedule_next :: "layout \<Rightarrow> (u8 list \<Rightarrow> content) \<Rightarrow> sched_draws \<Rightarrow> nat option \<Rightarrow> bool \<Rightarrow> instant \<Rightarrow> instant \<Rightarrow> queue \<Rightarrow>
    fuzzer_state \<Rightarrow> u64 \<times> store \<Rightarrow> (queue_entry option \<times> fuzzer_state \<times> u64 \<times> store) option" where
  "schedule_next L cimg D generation_ceiling terminate_when_finished start_ts now q fs x = (case fs_phase fs of None \<Rightarrow> None
     | Some FP_Discovery \<Rightarrow> do {
         entries \<leftarrow> discovery_entries q (snd x);
         if entries = [] then
           schedule_next L cimg D generation_ceiling terminate_when_finished start_ts now q
             (set_phase (if terminate_when_finished then FP_Exit else FP_None) (mark_phase_as_done FP_Discovery fs)) x
         else Some (Some (last (sd_shuffle D entries)), fs, x) }
     | Some FP_Exit \<Rightarrow> Some (None, fs, x)
     | Some _ \<Rightarrow> do {
         (e, x) \<leftarrow> schedule_common L cimg D generation_ceiling start_ts now q x;
         Some (Some e, fs, x) })"
  by pat_completeness auto

termination schedule_next
  by (relation "measure (\<lambda>(L, cimg, D, g, t, s, n, q, fs, x). if fs_phase fs = Some FP_Discovery then 1 else 0)")
    (auto simp: set_phase_def)

declare schedule_next.simps [simp del]

section \<open>What a recalculation does to the statistics\<close>

text \<open>Documented behaviour of the iterators and of the random choices.\<close>

definition sched_ok :: "sched_draws \<Rightarrow> bool" where
  "sched_ok D \<longleftrightarrow> (\<forall>S. finite S \<longrightarrow> set (sd_edges D S) = S) \<and> (\<forall>S. set (sd_sites D S) = S) \<and>
     (\<forall>es. set (sd_set D es) = set es \<and> set (sd_shuffle D es) = set es) \<and>
     (\<forall>ws. (\<exists>w\<in>set ws. snd w > 0) \<longrightarrow> sd_weighted D ws < length ws \<and> snd (ws ! sd_weighted D ws) > 0)"

text \<open>Only weights change, they stay positive, and a favoured entry stays favoured.\<close>

definition weight_ok :: "entry_stats \<Rightarrow> bool" where
  "weight_ok s \<longleftrightarrow> qs_favoured_weight s \<noteq> Some 0"

definition weights_only :: "store \<Rightarrow> store \<Rightarrow> bool" where
  "weights_only st st' \<longleftrightarrow> length st' = length st \<and> (\<forall>a<length st. (st' ! a)\<lparr>qs_favoured_weight := None\<rparr> = (st ! a)\<lparr>qs_favoured_weight := None\<rparr> \<and>
     (is_favoured (st ! a) \<longrightarrow> is_favoured (st' ! a)) \<and> (weight_ok (st ! a) \<longrightarrow> weight_ok (st' ! a)))"

lemma weights_only_refl [simp]: "weights_only st st"
  by (simp add: weights_only_def)

lemma weights_only_trans [trans]: "weights_only a b \<Longrightarrow> weights_only b c \<Longrightarrow> weights_only a c"
  by (simp add: weights_only_def)

lemma weights_only_len: "weights_only st st' \<Longrightarrow> length st' = length st"
  by (simp add: weights_only_def)

lemma weights_only_fav: "weights_only st st' \<Longrightarrow> is_favoured (st ! a) \<Longrightarrow> a < length st \<Longrightarrow> is_favoured (st' ! a)"
  by (simp add: weights_only_def)

lemma mark_favoured_fav: "is_favoured (mark_favoured_once s)"
  by (simp add: mark_favoured_once_def is_favoured_def nonzero_u32_def DEFAULT_FAVOURED_WEIGHT_def)

lemma favoured_decrement_fav: "is_favoured (favoured_decrement s) = is_favoured s"
  by (auto simp: favoured_decrement_def is_favoured_def nonzero_u32_def split: option.split)

lemma weight_ok_ops: "weight_ok s \<Longrightarrow> weight_ok (favoured_decrement s)" "weight_ok s \<Longrightarrow> weight_ok (mark_favoured_once s)"
  by (auto simp: weight_ok_def favoured_decrement_def mark_favoured_once_def nonzero_u32_def DEFAULT_FAVOURED_WEIGHT_def
      split: option.splits if_splits)

lemma weights_only_upd:
  assumes "a < length st" "f (st ! a) = (st ! a)\<lparr>qs_favoured_weight := w\<rparr>" "is_favoured (st ! a) \<Longrightarrow> is_favoured (f (st ! a))"
    and "weight_ok (st ! a) \<Longrightarrow> weight_ok (f (st ! a))"
  shows "weights_only st (st[a := f (st ! a)])"
  unfolding weights_only_def
proof (intro conjI allI impI)
  fix b assume b: "b < length st"
  show "(st[a := f (st ! a)] ! b)\<lparr>qs_favoured_weight := None\<rparr> = (st ! b)\<lparr>qs_favoured_weight := None\<rparr>"
    using assms(2) b by (cases "a = b") auto
  show "is_favoured (st ! b) \<Longrightarrow> is_favoured (st[a := f (st ! a)] ! b)"
    using assms(3) b by (cases "a = b") auto
  show "weight_ok (st ! b) \<Longrightarrow> weight_ok (st[a := f (st ! a)] ! b)"
    using assms(4) b by (cases "a = b") auto
qed simp

lemma decrement_ok:
  assumes "qe_stats e < length st"
  shows "\<exists>st'. stats_rw e favoured_decrement st = Some st' \<and> weights_only st st'"
proof -
  have "weights_only st (st[qe_stats e := favoured_decrement (st ! qe_stats e)])"
    by (rule weights_only_upd [OF assms, of favoured_decrement]) (simp_all add: favoured_decrement_fav weight_ok_ops, simp add: favoured_decrement_def)
  then show ?thesis using assms by (simp add: stats_rw_def stats_ro_def)
qed

lemma mark_ok:
  assumes "qe_stats e < length st"
  shows "\<exists>st'. stats_rw e mark_favoured_once st = Some st' \<and> weights_only st st' \<and> is_favoured (st' ! qe_stats e)"
proof -
  let ?w = "if qs_favoured_weight (st ! qe_stats e) = None then nonzero_u32 DEFAULT_FAVOURED_WEIGHT else qs_favoured_weight (st ! qe_stats e)"
  have "mark_favoured_once (st ! qe_stats e) = (st ! qe_stats e)\<lparr>qs_favoured_weight := ?w\<rparr>"
    by (simp add: mark_favoured_once_def)
  then have "weights_only st (st[qe_stats e := mark_favoured_once (st ! qe_stats e)])"
    by (rule weights_only_upd [OF assms, of mark_favoured_once]) (simp_all add: mark_favoured_fav weight_ok_ops)
  then show ?thesis
    using assms by (simp add: stats_rw_def stats_ro_def mark_favoured_fav)
qed

lemma mark_all_ok:
  assumes "\<forall>e\<in>set es. qe_stats e < length st"
  shows "\<exists>st'. mark_all es st = Some st' \<and> weights_only st st' \<and> (\<forall>e\<in>set es. is_favoured (st' ! qe_stats e))"
  unfolding mark_all_def
proof (rule fold_opt_rule)
  fix ds e st1 assume e: "e \<in> set es" "set ds \<subseteq> set es" and i: "weights_only st st1 \<and> (\<forall>e\<in>set ds. is_favoured (st1 ! qe_stats e))"
  obtain st2 where st2: "stats_rw e mark_favoured_once st1 = Some st2" "weights_only st1 st2" "is_favoured (st2 ! qe_stats e)"
    using mark_ok [of e st1] e(1) i assms weights_only_len by fastforce
  moreover have "\<forall>d\<in>set ds. is_favoured (st2 ! qe_stats d)"
    using i e(2) assms weights_only_fav [OF st2(2)] weights_only_len by fastforce
  ultimately show "\<exists>s'. stats_rw e mark_favoured_once st1 = Some s' \<and> weights_only st s' \<and> (\<forall>e\<in>set (ds @ [e]). is_favoured (s' ! qe_stats e))"
    using i weights_only_trans by auto
qed simp

section \<open>Dominators of the edges\<close>

abbreviation edge_set :: "queue_entry \<Rightarrow> nat set" where
  "edge_set e \<equiv> set (bm_edges (qe_covered_edges e))"

abbreviation bits :: "queue_entry \<Rightarrow> nat" where
  "bits e \<equiv> bm_count_bits_set (qe_covered_edges e)"

definition entries_ok :: "queue_entry list \<Rightarrow> store \<Rightarrow> bool" where
  "entries_ok es st \<longleftrightarrow> distinct (map qe_id es) \<and> (\<forall>e\<in>set es. qe_stats e < length st \<and> weight_ok (st ! qe_stats e))"

lemma entries_ok_sub: "entries_ok es st \<Longrightarrow> entries_ok (filter P (rev es)) st"
  by (auto simp: entries_ok_def distinct_map rev_map [symmetric] intro: inj_on_subset)

lemma entries_ok_weights: "entries_ok es st \<Longrightarrow> weights_only st st' \<Longrightarrow> entries_ok es st'"
  by (simp add: entries_ok_def weights_only_def)

lemma entries_okD:
  "entries_ok es st \<Longrightarrow> e \<in> set es \<Longrightarrow> qe_stats e < length st"
  "entries_ok es st \<Longrightarrow> e \<in> set es \<Longrightarrow> d \<in> set es \<Longrightarrow> qe_id d = qe_id e \<Longrightarrow> d = e"
  by (auto simp: entries_ok_def distinct_map inj_on_def)

definition lut_ok :: "queue_entry list \<Rightarrow> (u64 \<rightharpoonup> nat) \<Rightarrow> bool" where
  "lut_ok es lut \<longleftrightarrow> (\<forall>e\<in>set es. \<forall>n. lut (qe_id e) = Some n \<longrightarrow> n = bits e)"

lemma bits_set_ok:
  assumes "entries_ok es st" "lut_ok es lut" "e \<in> set es"
  shows "\<exists>lut'. bits_set e lut = (bits e, lut') \<and> lut_ok es lut'"
  using assms entries_okD(2) [OF assms(1)]
  by (cases "lut (qe_id e)") (auto simp: bits_set_def lut_ok_def Let_def)

text \<open>The pairs of entries and edges in \<open>ps\<close> have been processed.\<close>

definition dom_inv :: "queue_entry list \<Rightarrow> store \<Rightarrow> (queue_entry \<times> nat) set \<Rightarrow> dominators \<Rightarrow> bool" where
  "dom_inv es st ps x \<longleftrightarrow> (case x of (dominator, lut, st') \<Rightarrow> weights_only st st' \<and> lut_ok es lut \<and>
     (\<forall>k d. dominator k = Some d \<longrightarrow> d \<in> set es \<and> k \<in> edge_set d) \<and>
     (\<forall>(e, k)\<in>ps. \<exists>d. dominator k = Some d \<and> bits e \<le> bits d))"

lemma dominate_edge_ok:
  assumes es: "entries_ok es st" and inv: "dom_inv es st ps x" and c: "c \<in> set es" "k \<in> edge_set c"
  shows "\<exists>x'. dominate_edge c k x = Some x' \<and> dom_inv es st (insert (c, k) ps) x'"
proof -
  obtain dm lut st1 where x: "x = (dm, lut, st1)" by (cases x)
  show ?thesis
  proof (cases "dm k")
    case None
    then show ?thesis using inv c by (auto simp: x dominate_edge_def dom_inv_def)
  next
    case (Some d)
    have d: "d \<in> set es" using inv Some by (simp add: x dom_inv_def)
    obtain lut1 where l1: "bits_set d lut = (bits d, lut1)" "lut_ok es lut1"
      using bits_set_ok [OF es _ d, of lut] inv by (auto simp: x dom_inv_def)
    obtain lut2 where l2: "bits_set c lut1 = (bits c, lut2)" "lut_ok es lut2"
      using bits_set_ok [OF es l1(2) c(1)] by blast
    obtain st2 where st2: "stats_rw d favoured_decrement st1 = Some st2" "weights_only st1 st2"
      using decrement_ok [of d st1] entries_okD(1) [OF es d] inv weights_only_len [of st st1] by (auto simp: x dom_inv_def)
    have w: "weights_only st st2" using inv weights_only_trans [OF _ st2(2)] by (simp add: x dom_inv_def)
    show ?thesis
    proof (cases "bits d < bits c")
      case True
      have "\<exists>d'. (dm(k \<mapsto> c)) k' = Some d' \<and> bits e \<le> bits d'" if p: "(e, k') \<in> ps" for e k'
      proof -
        obtain d' where "dm k' = Some d'" "bits e \<le> bits d'" using inv p by (fastforce simp: x dom_inv_def)
        then show ?thesis using Some True by (cases "k' = k") auto
      qed
      then show ?thesis using Some True l1 l2 st2 w inv c by (auto simp: x dominate_edge_def dom_inv_def)
    next
      case False
      then show ?thesis using Some l1 l2 inv c by (auto simp: x dominate_edge_def dom_inv_def)
    qed
  qed
qed

lemma dominate_entry_ok:
  assumes es: "entries_ok es st" and inv: "dom_inv es st ps x" and c: "c \<in> set es"
  shows "\<exists>x'. dominate_entry c x = Some x' \<and> dom_inv es st (ps \<union> {c} \<times> edge_set c) x'"
  unfolding dominate_entry_def
proof (rule fold_opt_rule [where I = "\<lambda>ks. dom_inv es st (ps \<union> {c} \<times> set ks)"])
  show "dom_inv es st (ps \<union> {c} \<times> set []) x" using inv by simp
next
  fix ks k x1 assume "k \<in> edge_set c" "dom_inv es st (ps \<union> {c} \<times> set ks) x1"
  from dominate_edge_ok [OF es this(2) c this(1)]
  show "\<exists>s'. dominate_edge c k x1 = Some s' \<and> dom_inv es st (ps \<union> {c} \<times> set (ks @ [k])) s'" by simp
qed

lemma dominators_ok:
  assumes es: "entries_ok es st"
  shows "\<exists>x'. fold_opt dominate_entry es (Map.empty, Map.empty, st) = Some x' \<and> dom_inv es st (SIGMA e:set es. edge_set e) x'"
proof (rule fold_opt_rule [where I = "\<lambda>ds. dom_inv es st (SIGMA e:set ds. edge_set e)"])
  show "dom_inv es st (SIGMA e:set []. edge_set e) (Map.empty, Map.empty, st)" by (simp add: dom_inv_def lut_ok_def)
next
  fix ds c x1 assume "c \<in> set es" "dom_inv es st (SIGMA e:set ds. edge_set e) x1"
  moreover have "(SIGMA e:set ds. edge_set e) \<union> {c} \<times> edge_set c = (SIGMA e:set (ds @ [c]). edge_set e)" by auto
  ultimately show "\<exists>s'. dominate_entry c x1 = Some s' \<and> dom_inv es st (SIGMA e:set (ds @ [c]). edge_set e) s'"
    using dominate_entry_ok [OF es] by metis
qed

lemma sink_dominators_ok:
  assumes D: "sched_ok D" and es: "entries_ok es st"
  shows "\<exists>st'. recalculate_favoured_sink_dominator_edges D es st = Some st' \<and> weights_only st st' \<and>
    (\<forall>k\<in>\<Union> (edge_set ` set es). \<exists>d\<in>set es. k \<in> edge_set d \<and> is_favoured (st' ! qe_stats d) \<and>
       (\<forall>e\<in>set es. k \<in> edge_set e \<longrightarrow> bits e \<le> bits d))"
proof -
  obtain dm lut st1 where x: "fold_opt dominate_entry es (Map.empty, Map.empty, st) = Some (dm, lut, st1)"
      "dom_inv es st (SIGMA e:set es. edge_set e) (dm, lut, st1)"
    using dominators_ok [OF es] by auto
  have dm: "dm k = Some d \<Longrightarrow> d \<in> set es \<and> k \<in> edge_set d" for k d using x(2) by (simp add: dom_inv_def)
  have w: "weights_only st st1" using x(2) by (simp add: dom_inv_def)
  have "dom dm \<subseteq> \<Union> (edge_set ` set es)" using dm by blast
  then have fin: "finite (dom dm)" by (rule finite_subset) simp
  let ?vs = "map (the \<circ> dm) (sd_edges D (dom dm))"
  have vs: "set ?vs = ran dm" using D fin by (force simp: sched_ok_def ran_def image_iff dom_def)
  obtain st2 where st2: "mark_all ?vs st1 = Some st2" "weights_only st1 st2" "\<forall>e\<in>ran dm. is_favoured (st2 ! qe_stats e)"
    using mark_all_ok [of ?vs st1] entries_okD(1) [OF es] dm weights_only_len [OF w] unfolding vs by (fastforce simp: ran_def)
  have "\<exists>d\<in>set es. k \<in> edge_set d \<and> is_favoured (st2 ! qe_stats d) \<and> (\<forall>e\<in>set es. k \<in> edge_set e \<longrightarrow> bits e \<le> bits d)"
    if k: "e \<in> set es" "k \<in> edge_set e" for k e
  proof -
    have c: "\<exists>d. dm k = Some d \<and> bits e' \<le> bits d" if "e' \<in> set es" "k \<in> edge_set e'" for e'
      using x(2) that by (auto simp: dom_inv_def)
    then obtain d where d: "dm k = Some d" using k by blast
    then show ?thesis using dm [OF d] c st2(3) by (intro bexI [of _ d]) (auto simp: ran_def)
  qed
  then show ?thesis
    using x(1) st2 w weights_only_trans by (auto simp: recalculate_favoured_sink_dominator_edges_def)
qed

section \<open>Entries of the patch points\<close>

definition noted :: "(u64 \<rightharpoonup> queue_entry list) \<Rightarrow> u64 \<Rightarrow> queue_entry set" where
  "noted pps i = (case pps i of Some es \<Rightarrow> set es | None \<Rightarrow> {})"

definition noted_ok :: "queue_entry list \<Rightarrow> (u64 \<rightharpoonup> queue_entry list) \<Rightarrow> bool" where
  "noted_ok es pps \<longleftrightarrow> (\<forall>i. noted pps i \<subseteq> set es) \<and> (\<forall>i\<in>dom pps. noted pps i \<noteq> {})"

lemma note_site_ok:
  assumes "entries_ok es st" "noted_ok es pps" "e \<in> set es"
  shows "noted_ok es (note_site e m pps) \<and> (\<forall>i. noted (note_site e m pps) i = noted pps i \<union> (if i = mce_id m then {e} else {}))"
proof -
  let ?ns = "case pps (mce_id m) of Some ns \<Rightarrow> ns | None \<Rightarrow> []"
  have ns: "set ?ns = noted pps (mce_id m)" by (simp add: noted_def split: option.split)
  have "list_ex (qe_eq e) ?ns \<longleftrightarrow> e \<in> set ?ns"
  proof
    assume "list_ex (qe_eq e) ?ns"
    then obtain d where d: "d \<in> set ?ns" "qe_eq e d" unfolding list_ex_iff by blast
    moreover have "d \<in> set es" using d(1) assms(2) unfolding ns noted_ok_def by blast
    ultimately show "e \<in> set ?ns" using entries_okD(2) [OF assms(1,3)] by (metis qe_eq_def)
  qed (auto simp: list_ex_iff qe_eq_def)
  then have "set (hs_insert e ?ns) = insert e (noted pps (mce_id m))" using ns by (auto simp: hs_insert_def)
  then have "noted (note_site e m pps) i = noted pps i \<union> (if i = mce_id m then {e} else {})" for i
    by (auto simp: note_site_def noted_def)
  then show ?thesis using assms(2,3) by (auto simp: noted_ok_def note_site_def split: if_splits)
qed

lemma note_sites_ok:
  assumes "entries_ok es st" "noted_ok es pps" "e \<in> set es"
  shows "noted_ok es (fold (note_site e) ms pps) \<and>
    (\<forall>i. noted (fold (note_site e) ms pps) i = noted pps i \<union> (if i \<in> mce_id ` set ms then {e} else {}))"
  using assms(2)
proof (induction ms arbitrary: pps)
  case (Cons m ms)
  from note_site_ok [OF assms(1) Cons.prems assms(3), of m]
  have n: "noted_ok es (note_site e m pps)" "noted (note_site e m pps) i = noted pps i \<union> (if i = mce_id m then {e} else {})" for i
    by blast+
  show ?case using Cons.IH [OF n(1)] n(2) by auto
qed simp

lemma load_bytes_size: "load_bytes L img m = Some m' \<Longrightarrow> mc_content_size m' = mc_content_size m"
  by (auto simp: load_bytes_def Let_def split: if_splits)

definition mutates :: "(queue_entry \<Rightarrow> mce list) \<Rightarrow> queue_entry \<Rightarrow> u64 \<Rightarrow> bool" where
  "mutates mods e i \<longleftrightarrow> i \<in> mce_id ` set (mods e)"

lemma note_entry_ok:
  assumes "entries_ok es st" "noted_ok es pps" "e \<in> set es" "stores L cimg e (mods e)"
    and mc: "mc_inv L mc" "mc_content_size mc = MUTATION_CACHE_DEFAULT_SIZE"
  shows "\<exists>pps' mc'. note_entry L cimg e (pps, mc) = Some (pps', mc') \<and> noted_ok es pps' \<and>
    (\<forall>i. noted pps' i = noted pps i \<union> (if mutates mods e i then {e} else {})) \<and>
    mc_inv L mc' \<and> mc_content_size mc' = MUTATION_CACHE_DEFAULT_SIZE"
proof (cases "qe_mutations e")
  case None
  then show ?thesis using assms by (simp add: note_entry_def stores_def mutates_def)
next
  case (Some b)
  then obtain m m' where m: "mc_inv L m" "mc_content_size m \<le> MUTATION_CACHE_DEFAULT_SIZE" "save_bytes L m = Some (cimg b, m')"
      "mods e = mc_entries L m" using assms(4) by (auto simp: stores_def)
  obtain mc' where l: "load_bytes L (cimg b) mc = Some mc'" "mc_inv L mc'" "mc_entries L mc' = mods e"
    using save_load_ok [OF m(1) mc(1)] m mc(2) by auto
  show ?thesis
    using note_sites_ok [OF assms(1-3), of "mods e"] l Some load_bytes_size [OF l(1)] mc(2) by (simp add: note_entry_def mutates_def)
qed

lemma note_entries_ok:
  assumes es: "entries_ok es st" and st: "\<forall>e\<in>set es. stores L cimg e (mods e)"
    and mc: "mc_inv L mc" "mc_content_size mc = MUTATION_CACHE_DEFAULT_SIZE"
  shows "\<exists>x'. fold_opt (note_entry L cimg) es (Map.empty, mc) = Some x' \<and>
    noted_ok es (fst x') \<and> (\<forall>i. noted (fst x') i = {e \<in> set es. mutates mods e i}) \<and>
    mc_inv L (snd x') \<and> mc_content_size (snd x') = MUTATION_CACHE_DEFAULT_SIZE"
proof (rule fold_opt_rule [where I = "\<lambda>ds x. noted_ok es (fst x) \<and> (\<forall>i. noted (fst x) i = {e \<in> set ds. mutates mods e i}) \<and>
    mc_inv L (snd x) \<and> mc_content_size (snd x) = MUTATION_CACHE_DEFAULT_SIZE"])
  show "noted_ok es (fst (Map.empty, mc)) \<and> (\<forall>i. noted (fst (Map.empty, mc)) i = {e \<in> set []. mutates mods e i}) \<and>
      mc_inv L (snd (Map.empty, mc)) \<and> mc_content_size (snd (Map.empty, mc)) = MUTATION_CACHE_DEFAULT_SIZE"
    using mc by (simp add: noted_ok_def noted_def)
next
  fix ds e x
  assume e: "e \<in> set es" and x: "noted_ok es (fst x) \<and> (\<forall>i. noted (fst x) i = {e \<in> set ds. mutates mods e i}) \<and>
    mc_inv L (snd x) \<and> mc_content_size (snd x) = MUTATION_CACHE_DEFAULT_SIZE"
  obtain pps' mc' where "note_entry L cimg e (fst x, snd x) = Some (pps', mc')" "noted_ok es pps'"
      "\<forall>i. noted pps' i = noted (fst x) i \<union> (if mutates mods e i then {e} else {})"
      "mc_inv L mc'" "mc_content_size mc' = MUTATION_CACHE_DEFAULT_SIZE"
    using note_entry_ok [OF es _ e, of "fst x" L cimg mods "snd x"] x st e by blast
  then show "\<exists>s'. note_entry L cimg e x = Some s' \<and> noted_ok es (fst s') \<and>
      (\<forall>i. noted (fst s') i = {d \<in> set (ds @ [e]). mutates mods d i}) \<and>
      mc_inv L (snd s') \<and> mc_content_size (snd s') = MUTATION_CACHE_DEFAULT_SIZE"
    using x by auto
qed

lemma max_by_key_mem: "xs \<noteq> [] \<Longrightarrow> \<exists>x\<in>set xs. max_by_key f xs = Some x"
proof -
  have "foldl (\<lambda>best y. if f best \<le> f y then y else best) x ys \<in> insert x (set ys)" for x ys
    by (induction ys arbitrary: x) (auto split: if_splits)
  then show "xs \<noteq> [] \<Longrightarrow> ?thesis" by (cases xs) auto
qed

lemma mark_best_ok:
  assumes "sched_ok D" "entries_ok es st" "noted_ok es pps" "weights_only st st1" "i \<in> dom pps"
  shows "\<exists>st2. mark_best D pps i st1 = Some st2 \<and> weights_only st1 st2 \<and> (\<exists>e\<in>noted pps i. is_favoured (st2 ! qe_stats e))"
proof -
  obtain ns where ns: "pps i = Some ns" using assms(5) by blast
  have s: "set (sd_set D ns) = noted pps i" using assms(1) ns by (simp add: sched_ok_def noted_def)
  moreover have "noted pps i \<noteq> {}" using assms(3,5) by (simp add: noted_ok_def)
  ultimately have "sd_set D ns \<noteq> []" by auto
  then obtain e where e: "e \<in> noted pps i" "max_by_key (\<lambda>e. bits e) (sd_set D ns) = Some e"
    using max_by_key_mem [of "sd_set D ns" "\<lambda>e. bits e"] s by auto
  have "qe_stats e < length st1"
    using e(1) assms(2-4) entries_okD(1) weights_only_len by (fastforce simp: noted_ok_def)
  from mark_ok [OF this] show ?thesis using e ns by (auto simp: mark_best_def)
qed

lemma unique_sites_ok:
  assumes D: "sched_ok D" and es: "entries_ok es st" and sz: "layout_ok L" "content_size L < MUTATION_CACHE_DEFAULT_SIZE"
    and st: "\<forall>e\<in>set es. stores L cimg e (mods e)"
  shows "\<exists>st'. recalculate_favoured_unique_patch_point_ids L cimg D es st = Some st' \<and> weights_only st st' \<and>
    (\<forall>e\<in>set es. \<forall>i. mutates mods e i \<longrightarrow> (\<exists>d\<in>set es. mutates mods d i \<and> is_favoured (st' ! qe_stats d)))"
proof -
  obtain mc where mc: "mc_new L = Some mc" "mc_inv L mc" "mc_content_size mc = MUTATION_CACHE_DEFAULT_SIZE"
    using mc_new_ok [OF sz] by auto
  obtain pps mc' where p: "fold_opt (note_entry L cimg) es (Map.empty, mc) = Some (pps, mc')" "noted_ok es pps"
      "\<forall>i. noted pps i = {e \<in> set es. mutates mods e i}"
    using note_entries_ok [OF es st mc(2,3)] by auto
  have "\<exists>st'. fold_opt (mark_best D pps) (sd_sites D (dom pps)) st = Some st' \<and> weights_only st st' \<and>
      (\<forall>i\<in>set (sd_sites D (dom pps)). \<exists>e\<in>noted pps i. is_favoured (st' ! qe_stats e))"
  proof (rule fold_opt_rule [where I = "\<lambda>is st'. weights_only st st' \<and> (\<forall>i\<in>set is. \<exists>e\<in>noted pps i. is_favoured (st' ! qe_stats e))"])
    fix "is" i st1
    assume "i \<in> set (sd_sites D (dom pps))"
      and w: "weights_only st st1 \<and> (\<forall>i\<in>set is. \<exists>e\<in>noted pps i. is_favoured (st1 ! qe_stats e))"
    then have "i \<in> dom pps" using D by (simp add: sched_ok_def)
    from mark_best_ok [OF D es p(2) _ this] w obtain st2 where st2: "mark_best D pps i st1 = Some st2" "weights_only st1 st2"
        "\<exists>e\<in>noted pps i. is_favoured (st2 ! qe_stats e)" by blast
    have "is_favoured (st2 ! qe_stats e)" if "e \<in> noted pps j" "is_favoured (st1 ! qe_stats e)" for e j
      using weights_only_fav [OF st2(2)] that p(3) entries_okD(1) [OF es] weights_only_len [of st st1] w by auto
    then show "\<exists>s'. mark_best D pps i st1 = Some s' \<and> weights_only st s' \<and> (\<forall>j\<in>set (is @ [i]). \<exists>e\<in>noted pps j. is_favoured (s' ! qe_stats e))"
      using st2 w weights_only_trans by (intro exI [of _ st2]) (auto, blast)
  qed simp
  then obtain st' where st': "fold_opt (mark_best D pps) (sd_sites D (dom pps)) st = Some st'" "weights_only st st'"
      "\<forall>i\<in>dom pps. \<exists>e\<in>noted pps i. is_favoured (st' ! qe_stats e)"
    using D by (auto simp: sched_ok_def)
  have "i \<in> dom pps" if "e \<in> set es" "mutates mods e i" for e i
  proof -
    have "e \<in> noted pps i" using that p(3) by simp
    then show ?thesis by (auto simp: noted_def split: option.splits)
  qed
  then have "\<exists>d\<in>set es. mutates mods d i \<and> is_favoured (st' ! qe_stats d)" if "e \<in> set es" "mutates mods e i" for e i
    using st'(3) p(3) that by (metis (no_types, lifting) mem_Collect_eq)
  then show ?thesis using mc(1) p(1) st'(1,2) by (auto simp: recalculate_favoured_unique_patch_point_ids_def)
qed

section \<open>Scheduling\<close>

definition favoured_cover :: "queue_entry list \<Rightarrow> (queue_entry \<Rightarrow> mce list) \<Rightarrow> store \<Rightarrow> bool" where
  "favoured_cover es mods st \<longleftrightarrow>
     (\<forall>k\<in>\<Union> (edge_set ` set es). \<exists>d\<in>set es. k \<in> edge_set d \<and> is_favoured (st ! qe_stats d) \<and>
       (\<forall>e\<in>set es. k \<in> edge_set e \<longrightarrow> bits e \<le> bits d)) \<and>
     (\<forall>e\<in>set es. \<forall>i. mutates mods e i \<longrightarrow> (\<exists>d\<in>set es. mutates mods d i \<and> is_favoured (st ! qe_stats d)))"

lemma favoured_cover_mono:
  assumes "favoured_cover es mods st" "weights_only st st'" "entries_ok es st"
  shows "favoured_cover es mods st'"
proof -
  have "is_favoured (st ! qe_stats d) \<Longrightarrow> is_favoured (st' ! qe_stats d)" if "d \<in> set es" for d
    using weights_only_fav [OF assms(2)] entries_okD(1) [OF assms(3) that] by blast
  then show ?thesis using assms(1) unfolding favoured_cover_def by meson
qed

text \<open>Whether a call recalculates the favoured entries.\<close>

definition recalculates :: "instant \<Rightarrow> instant \<Rightarrow> u64 \<Rightarrow> bool" where
  "recalculates start_ts now ctr \<longleftrightarrow> elapsed now start_ts \<ge> FAVOURED_RECALCULATION_START_DELAY \<and>
     ctr mod FAVOURED_RECALCULATION_INTERVAL = 0"

lemma recalculate_ok:
  assumes D: "sched_ok D" and es: "entries_ok es st" and sz: "layout_ok L" "content_size L < MUTATION_CACHE_DEFAULT_SIZE"
    and st: "\<forall>e\<in>set es. stores L cimg e (mods e)"
  shows "\<exists>ctr' st'. recalculate_favoured L cimg D start_ts now es (ctr, st) = Some (ctr', st') \<and> weights_only st st' \<and>
    (recalculates start_ts now ctr \<longrightarrow> favoured_cover es mods st')"
proof (cases "recalculates start_ts now ctr")
  case True
  obtain st1 where st1: "recalculate_favoured_sink_dominator_edges D es st = Some st1" "weights_only st st1"
      "\<forall>k\<in>\<Union> (edge_set ` set es). \<exists>d\<in>set es. k \<in> edge_set d \<and> is_favoured (st1 ! qe_stats d) \<and>
         (\<forall>e\<in>set es. k \<in> edge_set e \<longrightarrow> bits e \<le> bits d)"
    using sink_dominators_ok [OF D es] by blast
  have es1: "entries_ok es st1" by (rule entries_ok_weights [OF es st1(2)])
  obtain st2 where st2: "recalculate_favoured_unique_patch_point_ids L cimg D es st1 = Some st2" "weights_only st1 st2"
      "\<forall>e\<in>set es. \<forall>i. mutates mods e i \<longrightarrow> (\<exists>d\<in>set es. mutates mods d i \<and> is_favoured (st2 ! qe_stats d))"
    using unique_sites_ok [OF D es1 sz st] by blast
  have "is_favoured (st1 ! qe_stats d) \<Longrightarrow> is_favoured (st2 ! qe_stats d)" if "d \<in> set es" for d
    using weights_only_fav [OF st2(2)] entries_okD(1) [OF es1 that] by blast
  then have "favoured_cover es mods st2" using st1(3) st2(3) unfolding favoured_cover_def by meson
  then show ?thesis
    using True st1 st2 weights_only_trans [OF st1(2) st2(2)] by (auto simp: recalculate_favoured_def recalculates_def)
next
  case False
  then show ?thesis by (auto simp: recalculate_favoured_def recalculates_def)
qed

definition eligible :: "nat option \<Rightarrow> store \<Rightarrow> queue_entry \<Rightarrow> bool" where
  "eligible generation_ceiling st e \<longleftrightarrow> \<not> qe_is_crash e \<and>
     (case generation_ceiling of Some c \<Rightarrow> qe_generation e \<le> c | None \<Rightarrow> True) \<and> \<not> qs_blacklisted (st ! qe_stats e)"

definition discoverable :: "store \<Rightarrow> queue_entry \<Rightarrow> bool" where
  "discoverable st e \<longleftrightarrow> qe_generation e = 0 \<and> \<not> qe_is_crash e \<and> \<not> qs_blacklisted (st ! qe_stats e) \<and>
     \<not> is_phase_done FP_Discovery (st ! qe_stats e)"

lemma filter_entries_ok:
  assumes "entries_ok (q_entries q) st"
  shows "filter_entries g (queue_iter_without_crashes q) st = Some (filter (eligible g st) (rev (q_entries q)))"
    "discovery_entries q st = Some (filter (discoverable st) (rev (q_entries q)))"
proof -
  have "filter_entries g (queue_iter_without_crashes q) st =
      Some (filter (\<lambda>e. (case g of Some c \<Rightarrow> qe_generation e \<le> c | None \<Rightarrow> True) \<and> \<not> qs_blacklisted (st ! qe_stats e)) (queue_iter_without_crashes q))"
    unfolding filter_entries_def by (rule filter_opt_total) (use entries_okD(1) [OF assms] in \<open>auto simp: stats_ro_def queue_iter_without_crashes_def\<close>)
  then show "filter_entries g (queue_iter_without_crashes q) st = Some (filter (eligible g st) (rev (q_entries q)))"
    by (simp add: queue_iter_without_crashes_def rev_filter [symmetric] eligible_def [abs_def] conj_ac cong: conj_cong)
  have "discovery_entries q st = Some (filter (discoverable st) (queue_entries q))"
    unfolding discovery_entries_def by (rule filter_opt_total)
      (use entries_okD(1) [OF assms] in \<open>auto simp: stats_ro_def queue_entries_def queue_iter_def discoverable_def\<close>)
  then show "discovery_entries q st = Some (filter (discoverable st) (rev (q_entries q)))"
    by (simp add: queue_entries_def queue_iter_def)
qed

lemma favoured_count_ok:
  assumes "entries_ok es st"
  shows "favoured_count es st = Some (length (filter (\<lambda>e. is_favoured (st ! qe_stats e)) es))"
proof -
  have "filter_opt (\<lambda>e. map_option is_favoured (stats_ro e st)) es = Some (filter (\<lambda>e. is_favoured (st ! qe_stats e)) es)"
    by (rule filter_opt_total) (use entries_okD(1) [OF assms] in \<open>auto simp: stats_ro_def\<close>)
  then show ?thesis by (simp add: favoured_count_def)
qed

lemma length_filter_mono: "(\<And>x. x \<in> set xs \<Longrightarrow> P x \<Longrightarrow> Q x) \<Longrightarrow> length (filter P xs) \<le> length (filter Q xs)"
  by (induction xs) auto

lemma entry_weights_ok:
  assumes "entries_ok es st"
  shows "entry_weights es st = Some (map (\<lambda>e. (e, favoured_weight_or_1 (st ! qe_stats e))) es)"
  using assms
proof (induction es)
  case (Cons e es)
  then show ?case by (auto simp: entries_ok_def stats_ro_def)
qed simp

lemma choose_weighted_ok:
  assumes D: "sched_ok D" and es: "entries_ok es st"
  shows "(es \<noteq> [] \<longrightarrow> (\<exists>e\<in>set es. choose_weighted D (map (\<lambda>e. (e, favoured_weight_or_1 (st ! qe_stats e))) es) = Some e)) \<and>
    (es = [] \<longrightarrow> choose_weighted D (map (\<lambda>e. (e, favoured_weight_or_1 (st ! qe_stats e))) es) = None)"
proof -
  let ?ws = "map (\<lambda>e. (e, favoured_weight_or_1 (st ! qe_stats e))) es"
  have "favoured_weight_or_1 (st ! qe_stats e) > 0" if "e \<in> set es" for e
    using es that by (auto simp: entries_ok_def weight_ok_def favoured_weight_or_1_def unat_gt_0 split: option.split)
  then have "list_ex (\<lambda>w. snd w > 0) ?ws \<longleftrightarrow> es \<noteq> []" by (cases es) auto
  moreover have "\<exists>e\<in>set es. choose_weighted D ?ws = Some e" if l: "list_ex (\<lambda>w. snd w > 0) ?ws"
  proof -
    have "\<exists>w\<in>set ?ws. snd w > 0" using l unfolding list_ex_iff by blast
    then have "sd_weighted D ?ws < length ?ws" using D unfolding sched_ok_def by blast
    then show ?thesis using l by (simp add: choose_weighted_def)
  qed
  ultimately show ?thesis by (simp add: choose_weighted_def)
qed

lemma schedule_common_ok:
  fixes g :: "nat option"
  assumes D: "sched_ok D" and es: "entries_ok (q_entries q) st" and sz: "layout_ok L" "content_size L < MUTATION_CACHE_DEFAULT_SIZE"
    and sto: "\<forall>e\<in>set (q_entries q). stores L cimg e (mods e)"
  defines "els \<equiv> filter (eligible g st) (rev (q_entries q))"
  shows "(els = [] \<longrightarrow> schedule_common L cimg D g start_ts now q (ctr, st) = None) \<and>
    (els \<noteq> [] \<longrightarrow> (\<exists>e ctr' st'. schedule_common L cimg D g start_ts now q (ctr, st) = Some (e, ctr', st') \<and> e \<in> set els \<and>
       weights_only st st' \<and> (recalculates start_ts now ctr \<longrightarrow> favoured_cover els mods st')))"
proof -
  have els: "entries_ok els st" unfolding els_def by (rule entries_ok_sub [OF es])
  have "\<forall>e\<in>set els. stores L cimg e (mods e)" using sto by (auto simp: els_def)
  from recalculate_ok [OF D els sz this] obtain ctr' st1 where r: "recalculate_favoured L cimg D start_ts now els (ctr, st) = Some (ctr', st1)"
      "weights_only st st1" "recalculates start_ts now ctr \<longrightarrow> favoured_cover els mods st1" by blast
  have es1: "entries_ok els st1" by (rule entries_ok_weights [OF els r(2)])
  have le: "length (filter (\<lambda>e. is_favoured (st ! qe_stats e)) els) \<le> length (filter (\<lambda>e. is_favoured (st1 ! qe_stats e)) els)"
    by (rule length_filter_mono) (use weights_only_fav [OF r(2)] entries_okD(1) [OF els] in blast)
  let ?ws = "map (\<lambda>e. (e, favoured_weight_or_1 (st1 ! qe_stats e))) els"
  have "filter_entries g (queue_iter_without_crashes q) st = Some els"
    using filter_entries_ok(1) [OF es] by (simp add: els_def)
  then have sc: "schedule_common L cimg D g start_ts now q (ctr, st) = do {
      selected \<leftarrow> choose_weighted D ?ws;
      st \<leftarrow> stats_rw selected favoured_decrement st1;
      Some (selected, ctr', st) }"
    by (simp add: schedule_common_def favoured_count_ok [OF els] favoured_count_ok [OF es1] entry_weights_ok [OF es1] r(1) le)
  show ?thesis
  proof (cases "els = []")
    case True
    then show ?thesis using choose_weighted_ok [OF D es1] by (simp add: sc)
  next
    case False
    then obtain e where e: "e \<in> set els" "choose_weighted D ?ws = Some e"
      using choose_weighted_ok [OF D es1] by blast
    obtain st2 where st2: "stats_rw e favoured_decrement st1 = Some st2" "weights_only st1 st2"
      using decrement_ok [OF entries_okD(1) [OF es1 e(1)]] by blast
    have "schedule_common L cimg D g start_ts now q (ctr, st) = Some (e, ctr', st2)" using e st2 by (simp add: sc)
    then show ?thesis using False e(1) r(2,3) st2(2) favoured_cover_mono [OF _ st2(2) es1] weights_only_trans by blast
  qed
qed

section \<open>Properties\<close>


definition sample_sched :: sched_draws where
  "sample_sched = \<lparr>sd_edges = (\<lambda>S. sorted_list_of_set S), sd_sites = (\<lambda>S. sorted_list_of_set S), sd_set = rev,
     sd_weighted = (\<lambda>ws. length (takeWhile (\<lambda>w. snd w = 0) ws)), sd_shuffle = rev\<rparr>"

lemma sample_sched_ok: "sched_ok sample_sched"
proof -
  have "length (takeWhile (\<lambda>w. snd w = 0) ws) < length ws \<and> snd (ws ! length (takeWhile (\<lambda>w. snd w = 0) ws)) > 0"
    if "\<exists>w\<in>set ws. snd w > 0" for ws :: "(queue_entry \<times> nat) list"
    using that by (induction ws) auto
  then show ?thesis by (simp add: sched_ok_def sample_sched_def)
qed

lemma sample_entries_ok: "entries_ok [sample_entry 4 0, sample_entry 9 1] [qs_new, qs_new]"
  "\<forall>e\<in>set [sample_entry 4 0, sample_entry 9 1]. stores L cimg e []"
  by (simp_all add: entries_ok_def sample_entry_def weight_ok_def qs_new_def stores_def)

lemma ref_layout_fits: "content_size ref_layout < MUTATION_CACHE_DEFAULT_SIZE"
  by (simp add: ref_layout_def MUTATION_CACHE_DEFAULT_SIZE_def)


lemma schedule_next_common:
  assumes D: "sched_ok D" and es: "entries_ok (q_entries q) st"
    and sz: "layout_ok L" "content_size L < MUTATION_CACHE_DEFAULT_SIZE" and sto: "\<forall>e\<in>set (q_entries q). stores L cimg e (mods e)"
    and ph: "fs_phase fs = Some p" "p \<noteq> FP_Exit" "p \<noteq> FP_Discovery"
  shows "(filter (eligible g st) (q_entries q) = [] \<longrightarrow> schedule_next L cimg D g t start_ts now q fs (ctr, st) = None) \<and>
    (filter (eligible g st) (q_entries q) \<noteq> [] \<longrightarrow> (\<exists>e\<in>set (filter (eligible g st) (q_entries q)). \<exists>ctr' st'.
       schedule_next L cimg D g t start_ts now q fs (ctr, st) = Some (Some e, fs, ctr', st') \<and> weights_only st st'))"
proof -
  have "schedule_next L cimg D g t start_ts now q fs (ctr, st) =
      do { (e, x) \<leftarrow> schedule_common L cimg D g start_ts now q (ctr, st); Some (Some e, fs, x) }"
    using ph by (subst schedule_next.simps) (cases p, simp_all)
  then show ?thesis
    using schedule_common_ok [OF D es sz sto, of g start_ts now ctr] by (auto simp: rev_filter [symmetric])
qed

lemma schedule_next_seed:
  assumes D: "sched_ok D" and es: "entries_ok (q_entries q) st" and ph: "fs_phase fs = Some FP_Discovery"
    and ne: "filter (discoverable st) (q_entries q) \<noteq> []"
  shows "\<exists>e\<in>set (filter (discoverable st) (q_entries q)). schedule_next L cimg D g t start_ts now q fs (ctr, st) = Some (Some e, fs, ctr, st)"
proof -
  let ?es = "filter (discoverable st) (rev (q_entries q))"
  have "set (sd_shuffle D ?es) = set ?es" using D by (simp add: sched_ok_def)
  moreover have "?es \<noteq> []" using ne by (simp add: rev_filter [symmetric])
  ultimately have "last (sd_shuffle D ?es) \<in> set ?es" by (metis last_in_set set_empty)
  then show ?thesis
    using ph ne filter_entries_ok(2) [OF es] by (subst schedule_next.simps) (simp add: rev_filter [symmetric])
qed

lemma schedule_next_leave:
  assumes es: "entries_ok (q_entries q) st" and ph: "fs_phase fs = Some FP_Discovery" and "filter (discoverable st) (q_entries q) = []"
  shows "schedule_next L cimg D g t start_ts now q fs (ctr, st) = schedule_next L cimg D g t start_ts now q
    (set_phase (if t then FP_Exit else FP_None) (mark_phase_as_done FP_Discovery fs)) (ctr, st)"
  using assms filter_entries_ok(2) [OF es] by (subst schedule_next.simps) (simp add: rev_filter [symmetric])

lemma schedule_next_exit: "fs_phase fs = Some FP_Exit \<Longrightarrow> schedule_next L cimg D g t start_ts now q fs x = Some (None, fs, x)"
  by (simp add: schedule_next.simps)

text \<open>
  C17: Scheduling always ends. During discovery it picks a seed that has not been discovered yet, and
  leaves the phase when there is none left. Otherwise it picks an entry that is no crash, not
  blacklisted and not above the generation ceiling, and panics exactly if there is no such entry. The
  only effect on the queue is on the weights.
\<close>

theorem schedule_next_correct:
  fixes g :: "nat option" and t :: bool
  assumes D: "sched_ok D" and es: "entries_ok (q_entries q) st"
    and sz: "layout_ok L" "content_size L < MUTATION_CACHE_DEFAULT_SIZE" and sto: "\<forall>e\<in>set (q_entries q). stores L cimg e (mods e)"
    and ph: "fs_phase fs = Some phase"
  defines "seeds \<equiv> filter (discoverable st) (q_entries q)" and "choices \<equiv> filter (eligible g st) (q_entries q)"
  defines "left \<equiv> (if phase = FP_Discovery then set_phase (if t then FP_Exit else FP_None) (mark_phase_as_done FP_Discovery fs) else fs)"
  shows "(phase = FP_Discovery \<and> seeds \<noteq> [] \<longrightarrow>
      (\<exists>e\<in>set seeds. schedule_next L cimg D g t start_ts now q fs (ctr, st) = Some (Some e, fs, ctr, st))) \<and>
    (phase = FP_Exit \<or> phase = FP_Discovery \<and> seeds = [] \<and> t \<longrightarrow>
      schedule_next L cimg D g t start_ts now q fs (ctr, st) = Some (None, left, ctr, st)) \<and>
    (phase \<noteq> FP_Exit \<and> (phase = FP_Discovery \<longrightarrow> seeds = [] \<and> \<not> t) \<longrightarrow>
      (choices = [] \<longrightarrow> schedule_next L cimg D g t start_ts now q fs (ctr, st) = None) \<and>
      (choices \<noteq> [] \<longrightarrow> (\<exists>e\<in>set choices. \<exists>ctr' st'.
        schedule_next L cimg D g t start_ts now q fs (ctr, st) = Some (Some e, left, ctr', st') \<and> weights_only st st')))"
proof -
  note common = schedule_next_common [OF D es sz sto, of _ _ g t start_ts now ctr]
  have left: "fs_phase left = Some (if t then FP_Exit else FP_None)" if "phase = FP_Discovery"
    using that by (simp add: left_def set_phase_def)
  have leave: "schedule_next L cimg D g t start_ts now q fs (ctr, st) = schedule_next L cimg D g t start_ts now q left (ctr, st)"
    if "phase = FP_Discovery" "seeds = []"
    using schedule_next_leave [OF es] ph that by (simp add: left_def seeds_def)
  have 1: "phase = FP_Discovery \<and> seeds \<noteq> [] \<longrightarrow>
      (\<exists>e\<in>set seeds. schedule_next L cimg D g t start_ts now q fs (ctr, st) = Some (Some e, fs, ctr, st))"
    using schedule_next_seed [OF D es] ph by (simp add: seeds_def)
  have 2: "phase = FP_Exit \<or> phase = FP_Discovery \<and> seeds = [] \<and> t \<longrightarrow>
      schedule_next L cimg D g t start_ts now q fs (ctr, st) = Some (None, left, ctr, st)"
    using leave left schedule_next_exit ph by (auto simp: left_def)
  have 3: "(choices = [] \<longrightarrow> schedule_next L cimg D g t start_ts now q fs (ctr, st) = None) \<and>
      (choices \<noteq> [] \<longrightarrow> (\<exists>e\<in>set choices. \<exists>ctr' st'.
        schedule_next L cimg D g t start_ts now q fs (ctr, st) = Some (Some e, left, ctr', st') \<and> weights_only st st'))"
    if h: "phase \<noteq> FP_Exit" "phase = FP_Discovery \<longrightarrow> seeds = [] \<and> \<not> t"
  proof (cases "phase = FP_Discovery")
    case True
    then have "fs_phase left = Some FP_None" using left h(2) by simp
    from common [OF this] show ?thesis using leave True h(2) by (simp add: choices_def)
  next
    case False
    then show ?thesis using common [OF ph h(1)] by (simp add: choices_def left_def)
  qed
  show ?thesis using 1 2 3 by blast
qed

theorem schedule_next_correct_witness:
  "\<exists>e\<in>{sample_entry 4 0, sample_entry 9 1}. schedule_next ref_layout (\<lambda>_. mc_content empty_cache) sample_sched None True 0 5
     \<lparr>q_entries = [sample_entry 4 0, sample_entry 9 1], q_start_ts = 0\<rparr> (set_phase FP_Discovery fs_default) (7, [qs_new, qs_new]) =
     Some (Some e, set_phase FP_Discovery fs_default, 7, [qs_new, qs_new])"
proof -
  let ?q = "\<lparr>q_entries = [sample_entry 4 0, sample_entry 9 1], q_start_ts = 0\<rparr>"
  have q: "entries_ok (q_entries ?q) [qs_new, qs_new]" "\<forall>e\<in>set (q_entries ?q). stores ref_layout (\<lambda>_. mc_content empty_cache) e ((\<lambda>_. []) e)"
    using sample_entries_ok by simp_all
  have "fs_phase (set_phase FP_Discovery fs_default) = Some FP_Discovery" by (simp add: set_phase_def)
  note t = schedule_next_correct [OF sample_sched_ok q(1) ref_layout_ok ref_layout_fits q(2) this, where g = None and t = True and start_ts = 0 and now = 5 and ctr = 7]
  have s: "filter (discoverable [qs_new, qs_new]) (q_entries ?q) = [sample_entry 4 0, sample_entry 9 1]"
    by (simp add: discoverable_def sample_entry_def qs_new_def is_phase_done_def)
  show ?thesis using t [THEN conjunct1, unfolded s] by simp
qed

end
