(* ===== verification/Patch_Points.thy ===== *)
theory Patch_Points
  imports Agent Mutation_Cache_Ops Queue
begin

text \<open>
  The patch points of a source (\<^verbatim>\<open>scheduler/src/source.rs\<close>: \<^verbatim>\<open>get_patchpoints\<close> and what it calls): the
  sites of all executable mappings that are backed by a file, filtered by the configuration and by
  what the agent supports, and cached by the path of the binary. Files, the parsers of ELF files and
  stack maps, and reading the memory of the process are parameters; the frequency tables of
  \<^verbatim>\<open>get_patchpoints\<close> are only logged. The cache is checked under the read lock and again under the
  write lock; here both checks see the same cache.
\<close>

section \<open>Sites of the mapped files\<close>

record target_files =
  tf_exists :: "str \<Rightarrow> bool"
  tf_has_stackmap :: "str \<Rightarrow> bool"
  tf_elf_type :: "str \<Rightarrow> elf_type option"
  tf_stackmaps :: "str \<Rightarrow> stack_map list option"
  tf_to_llvm :: "u64 \<Rightarrow> llvm_instruction option"

fun stackmap_sites :: "target_files \<Rightarrow> map_range \<Rightarrow> elf_type \<Rightarrow> stack_map list \<Rightarrow> id_state \<Rightarrow> (mutation_site list \<times> id_state) option" where
  "stackmap_sites F m ty [] ids = Some ([], ids)"
| "stackmap_sites F m ty (s # ss) ids = do {
     (ps, ids) \<leftarrow> from_stackmap (tf_to_llvm F) s m ty ids;
     (qs, ids) \<leftarrow> stackmap_sites F m ty ss ids;
     Some (ps @ qs, ids) }"

definition parse_mapping :: "target_files \<Rightarrow> map_range \<Rightarrow> str set \<times> mutation_site list \<times> id_state \<Rightarrow>
    (str set \<times> mutation_site list \<times> id_state) option" where
  "parse_mapping F m x = (case x of (processed, ps, ids) \<Rightarrow> do {
     path \<leftarrow> mr_pathname m;
     if \<not> tf_exists F path \<or> \<not> tf_has_stackmap F path \<or> path \<in> processed then Some (processed, ps, ids)
     else do {
       ty \<leftarrow> tf_elf_type F path;
       smaps \<leftarrow> tf_stackmaps F path;
       (qs, ids) \<leftarrow> stackmap_sites F m ty smaps ids;
       Some (insert path processed, ps @ qs, ids) } })"

definition parse_file_backed_mappings :: "target_files \<Rightarrow> map_range list \<Rightarrow> id_state \<Rightarrow> (mutation_site list \<times> id_state) option" where
  "parse_file_backed_mappings F ms ids = map_option snd (fold_opt (parse_mapping F) ms ({}, [], ids))"

section \<open>Filters\<close>

text \<open>The loop over the duplicates of one address: all but the largest one are removed, by id and size.\<close>

definition remove_site :: "mutation_site \<Rightarrow> mutation_site list \<Rightarrow> mutation_site list" where
  "remove_site p ps = filter (\<lambda>other. site_id other \<noteq> site_id p \<or> site_target_value_size_byte other \<noteq> site_target_value_size_byte p) ps"

definition smaller_duplicates :: "mutation_site list \<Rightarrow> mutation_site list" where
  "smaller_duplicates dups = drop 1 (rev (sort_key site_target_value_size_byte dups))"

definition at_vma :: "u64 \<Rightarrow> mutation_site list \<Rightarrow> mutation_site list" where
  "at_vma v ps = filter (\<lambda>p. vma p = v) ps"

definition duplicated_vmas :: "mutation_site list \<Rightarrow> u64 set" where
  "duplicated_vmas ps = {v \<in> vma ` set ps. length (at_vma v ps) > 1}"

definition remove_duplicates_at :: "mutation_site list \<Rightarrow> u64 \<Rightarrow> mutation_site list \<Rightarrow> mutation_site list" where
  "remove_duplicates_at orig v ps = fold remove_site (smaller_duplicates (at_vma v orig)) ps"

text \<open>\<open>iter\<close> is the order in which the table of the duplicates is iterated.\<close>

definition remove_duplicated_vmas :: "(u64 set \<Rightarrow> u64 list) \<Rightarrow> mutation_site list \<Rightarrow> mutation_site list option" where
  "remove_duplicated_vmas iter ps = do {
     require (length ps < 50 \<or> card (duplicated_vmas ps) < length ps div 2);
     Some (fold (remove_duplicates_at ps) (iter (duplicated_vmas ps)) ps) }"

definition remove_direct_types :: "mutation_site list \<Rightarrow> mutation_site list" where
  "remove_direct_types = filter (\<lambda>p. loc_type (spill_slot p) \<noteq> LT_Direct)"

definition remove_indirect_types :: "mutation_site list \<Rightarrow> mutation_site list" where
  "remove_indirect_types = filter (\<lambda>p. loc_type (spill_slot p) \<noteq> LT_Indirect)"

definition remove_unsupported_loc_size :: "mutation_site list \<Rightarrow> mutation_site list" where
  "remove_unsupported_loc_size = filter (\<lambda>p. site_target_value_size_byte p \<le> 8)"

definition remove_rsp_spill_slots :: "mutation_site list \<Rightarrow> mutation_site list" where
  "remove_rsp_spill_slots = filter (\<lambda>p. unat (dwarf_regnum (spill_slot p)) \<noteq> dwarf_u16 Rsp)"

text \<open>The part of the configuration that selects patch points; the limit is a signed 64-bit integer.\<close>

record patch_point_cfg =
  allowed_patch_points :: "u64 list option"
  max_patch_points :: "int option"
  blocked_instructions :: "llvm_instruction list option"

definition sites_whitelisted :: "patch_point_cfg \<Rightarrow> mutation_site list \<Rightarrow> mutation_site list" where
  "sites_whitelisted cfg ps = (case allowed_patch_points cfg of None \<Rightarrow> ps | Some ids \<Rightarrow> filter (\<lambda>p. site_id p \<in> set ids) ps)"

fun limit_sites :: "int \<Rightarrow> mutation_site list \<Rightarrow> mutation_site list option" where
  "limit_sites n [] = Some []"
| "limit_sites n (p # ps) = do {
     require (n > - (2 ^ 63));
     rest \<leftarrow> limit_sites (n - 1) ps;
     Some (if n > 0 then p # rest else rest) }"

definition limit_max_number :: "(mutation_site list \<Rightarrow> mutation_site list) \<Rightarrow> patch_point_cfg \<Rightarrow> mutation_site list \<Rightarrow> mutation_site list option" where
  "limit_max_number shuffle cfg ps = (case max_patch_points cfg of None \<Rightarrow> Some ps | Some n \<Rightarrow> limit_sites n (shuffle ps))"

definition remove_blocklisted_instructions :: "patch_point_cfg \<Rightarrow> mutation_site list \<Rightarrow> mutation_site list" where
  "remove_blocklisted_instructions cfg ps = (case blocked_instructions cfg of None \<Rightarrow> ps
     | Some blocklist \<Rightarrow> filter (\<lambda>p. llvm_ins p \<notin> set blocklist) ps)"

text \<open>\<open>readv\<close> is \<^verbatim>\<open>process_vm_readv\<close>: the bytes that were read, if any.\<close>

definition read_mem :: "(u64 \<Rightarrow> nat \<Rightarrow> u8 list option) \<Rightarrow> u64 \<Rightarrow> nat \<Rightarrow> u8 list option" where
  "read_mem readv addr n = do {
     bytes \<leftarrow> readv addr n;
     require (length bytes = n);
     Some bytes }"

definition check_alignment :: "(u64 \<Rightarrow> nat \<Rightarrow> u8 list option) \<Rightarrow> mutation_site list \<Rightarrow> mutation_site list option" where
  "check_alignment readv ps = do {
     require (PATCH_POINT_SIZE = 32);
     filter_opt (\<lambda>p. map_option (\<lambda>content. content = NOP_PATTERN) (read_mem readv (vma p) (length NOP_PATTERN))) ps }"

definition sanity_check_patch_points :: "mutation_site list \<Rightarrow> unit option" where
  "sanity_check_patch_points ps = do {
     require (card (set (map vma ps)) = length ps);
     require (card (set (map site_id ps)) = length ps);
     let ranges = map vma_range ps;
     require (length ranges = length ps);
     require (sort_key fst ranges = sort_key snd ranges) }"

section \<open>All patch points\<close>

type_synonym patch_point_cache = "str \<rightharpoonup> mutation_site list"

record pp_env =
  pe_files :: target_files
  pe_cfg :: patch_point_cfg
  pe_shuffle :: "mutation_site list \<Rightarrow> mutation_site list"
  pe_iter :: "u64 set \<Rightarrow> u64 list"
  pe_readv :: "u64 \<Rightarrow> nat \<Rightarrow> u8 list option"

definition read_from_cache :: "str \<Rightarrow> patch_point_cache \<Rightarrow> mutation_site list option" where
  "read_from_cache path cache = cache path"

definition filter_patch_points :: "pp_env \<Rightarrow> mutation_site list \<Rightarrow> mutation_site list option" where
  "filter_patch_points E ps = do {
     let ps = sites_whitelisted (pe_cfg E) ps;
     ps \<leftarrow> limit_max_number (pe_shuffle E) (pe_cfg E) ps;
     let ps = remove_blocklisted_instructions (pe_cfg E) ps;
     ps \<leftarrow> remove_duplicated_vmas (pe_iter E) ps;
     let ps = remove_rsp_spill_slots (remove_unsupported_loc_size ps);
     ps \<leftarrow> check_alignment (pe_readv E) ps;
     sanity_check_patch_points ps;
     Some ps }"

definition get_patchpoints :: "pp_env \<Rightarrow> str \<Rightarrow> map_range list option \<Rightarrow> patch_point_cache \<times> id_state \<Rightarrow>
    (mutation_site list \<times> patch_point_cache \<times> id_state) option" where
  "get_patchpoints E path mappings x = (case x of (cache, ids) \<Rightarrow> (case read_from_cache path cache of
      Some ps \<Rightarrow> Some (ps, cache, ids)
    | None \<Rightarrow> do {
        ms \<leftarrow> mappings;
        ms \<leftarrow> filter_opt (\<lambda>m. map_option (\<lambda>b. b \<and> mr_pathname m \<noteq> None) (is_exec m)) ms;
        (ps, ids) \<leftarrow> parse_file_backed_mappings (pe_files E) ms ids;
        ps \<leftarrow> filter_patch_points E ps;
        require (length ps < MAX_PATCHPOINT_CNT);
        Some (ps, cache(path \<mapsto> ps), ids) }))"

definition resolve_patch_point_ids :: "pp_env \<Rightarrow> str \<Rightarrow> map_range list option \<Rightarrow> u64 list \<Rightarrow> patch_point_cache \<times> id_state \<Rightarrow>
    (mutation_site list \<times> patch_point_cache \<times> id_state) option" where
  "resolve_patch_point_ids E path mappings is x = do {
     (pps, x) \<leftarrow> get_patchpoints E path mappings x;
     Some (filter (\<lambda>p. site_id p \<in> set is) pps, x) }"

section \<open>Duplicates\<close>

lemma remove_site_sub: "set (remove_site p ps) \<subseteq> set ps" "p \<notin> set (remove_site p ps)"
  "mset (at_vma v (remove_site p ps)) \<subseteq># mset (at_vma v ps)"
proof -
  have "at_vma v (remove_site p ps) = remove_site p (at_vma v ps)" by (simp add: at_vma_def remove_site_def conj_commute)
  then show "mset (at_vma v (remove_site p ps)) \<subseteq># mset (at_vma v ps)" by (simp add: remove_site_def mset_filter)
qed (auto simp: remove_site_def)

lemma fold_remove_site:
  "set (fold remove_site qs ps) \<subseteq> set ps - set qs \<and> mset (at_vma v (fold remove_site qs ps)) \<subseteq># mset (at_vma v ps)"
proof (induction qs arbitrary: ps)
  case (Cons q qs)
  from Cons.IH [of "remove_site q ps"] remove_site_sub(1,2) [of q ps] remove_site_sub(3) [of v q ps] show ?case
    by (auto intro: subset_mset.order_trans)
qed simp

lemma fold_remove_at:
  "mset (at_vma v (fold (remove_duplicates_at orig) vs ps)) \<subseteq># mset (at_vma v ps) \<and>
   set (fold (remove_duplicates_at orig) vs ps) \<subseteq> set ps - (\<Union>w\<in>set vs. set (smaller_duplicates (at_vma w orig)))"
proof (induction vs arbitrary: ps)
  case (Cons w vs)
  from Cons.IH [of "remove_duplicates_at orig w ps"] fold_remove_site [of "smaller_duplicates (at_vma w orig)" ps v]
  show ?case unfolding remove_duplicates_at_def fold_Cons o_def by (auto intro: subset_mset.order_trans)
qed simp

lemma fold_remove_filter: "\<exists>P. fold (remove_duplicates_at orig) vs ps = filter P ps"
proof -
  have "\<exists>P. fold remove_site qs ps = filter P ps" for qs ps
  proof (induction qs arbitrary: ps)
    case (Cons q qs)
    then obtain P where "fold remove_site qs (remove_site q ps) = filter P (remove_site q ps)" by blast
    moreover have "\<exists>R. filter P (remove_site q ps) = filter R ps" unfolding remove_site_def filter_filter by blast
    ultimately show ?case by simp
  qed (auto intro: exI [of _ "\<lambda>_. True"])
  then have *: "\<exists>P. remove_duplicates_at orig v ps = filter P ps" for v ps by (simp add: remove_duplicates_at_def)
  show ?thesis
  proof (induction vs arbitrary: ps)
    case (Cons v vs)
    then obtain P Q where "fold (remove_duplicates_at orig) vs (remove_duplicates_at orig v ps) = filter P (remove_duplicates_at orig v ps)"
      "remove_duplicates_at orig v ps = filter Q ps" using * by blast
    then show ?case by (auto simp: filter_filter)
  qed (auto intro: exI [of _ "\<lambda>_. True"])
qed

lemma mset_smaller: "dups \<noteq> [] \<Longrightarrow> \<exists>l. mset dups = add_mset l (mset (smaller_duplicates dups))"
proof -
  assume d: "dups \<noteq> []"
  let ?s = "rev (sort_key site_target_value_size_byte dups)"
  have "?s \<noteq> []" using d by (metis length_0_conv length_rev length_sort)
  then obtain l where "?s = l # drop 1 ?s" by (cases ?s) auto
  then have "mset ?s = add_mset l (mset (smaller_duplicates dups))" unfolding smaller_duplicates_def by (metis mset.simps(2))
  then show ?thesis by (intro exI [of _ l]) simp
qed

lemma at_vma_le1: "(\<And>v. length (at_vma v ps) \<le> 1) \<Longrightarrow> distinct (map vma ps)"
proof (induction ps)
  case (Cons p ps)
  have "length (at_vma v ps) \<le> 1" for v
    using Cons.prems [of v] by (auto simp: at_vma_def split: if_splits)
  moreover have "vma p \<notin> vma ` set ps"
    using Cons.prems [of "vma p"] by (auto simp: at_vma_def filter_empty_conv)
  ultimately show ?case using Cons.IH by simp
qed simp

lemma duplicates_removed:
  assumes it: "set (iter (duplicated_vmas ps)) = duplicated_vmas ps" and r: "remove_duplicated_vmas iter ps = Some qs"
  shows "distinct (map vma qs) \<and> (\<exists>P. qs = filter P ps)"
proof -
  have qs: "qs = fold (remove_duplicates_at ps) (iter (duplicated_vmas ps)) ps"
    using r by (simp add: remove_duplicated_vmas_def split: if_splits)
  note f = fold_remove_at [of _ ps "iter (duplicated_vmas ps)" ps, folded qs, unfolded it]
  have "length (at_vma v qs) \<le> 1" for v
  proof (cases "v \<in> duplicated_vmas ps")
    case True
    then have "at_vma v ps \<noteq> []" by (auto simp: duplicated_vmas_def)
    then obtain l where l: "mset (at_vma v ps) = add_mset l (mset (smaller_duplicates (at_vma v ps)))" using mset_smaller by blast
    have dj: "set (at_vma v qs) \<inter> set (smaller_duplicates (at_vma v ps)) = {}" using f [of v] True by (auto simp: at_vma_def)
    have sub: "mset (at_vma v qs) \<subseteq># {#l#} + mset (smaller_duplicates (at_vma v ps))" using f [of v] l by simp
    have "mset (at_vma v qs) \<subseteq># {#l#}"
    proof (rule mset_subset_eqI)
      fix x :: mutation_site
      have z: "count (mset xs) x = 0" if "x \<notin> set xs" for xs using that by (simp add: count_eq_zero_iff)
      show "count (mset (at_vma v qs)) x \<le> count {#l#} x"
      proof (cases "x \<in> set (at_vma v qs)")
        case True
        then have "x \<notin> set (smaller_duplicates (at_vma v ps))" using dj by blast
        from z [OF this] show ?thesis using mset_subset_eq_count [OF sub, of x] unfolding count_union by linarith
      next
        case False
        from z [OF this] show ?thesis by linarith
      qed
    qed
    then show ?thesis using size_mset_mono by fastforce
  next
    case False
    have "length (at_vma v ps) \<le> 1"
    proof (cases "v \<in> vma ` set ps")
      case True
      then show ?thesis using False by (simp add: duplicated_vmas_def)
    next
      case False
      then have "at_vma v ps = []" by (auto simp: at_vma_def filter_empty_conv)
      then show ?thesis by simp
    qed
    then show ?thesis using f size_mset_mono by (metis (no_types, lifting) dual_order.trans size_mset)
  qed
  then show ?thesis using at_vma_le1 fold_remove_filter unfolding qs by blast
qed

lemma no_duplicates:
  assumes "distinct (map vma ps)" "iter {} = []"
  shows "remove_duplicated_vmas iter ps = Some ps"
proof -
  have "length (at_vma v ps) \<le> 1" for v
    using assms(1) by (induction ps) (auto simp: at_vma_def image_iff filter_empty_conv)
  then have "duplicated_vmas ps = {}" by (auto simp: duplicated_vmas_def not_less)
  then show ?thesis using assms(2) by (auto simp: remove_duplicated_vmas_def)
qed

text \<open>
  Two records of one site with the same size are both removed: what is compared is the id and the
  size, so that the one that should stay is removed with the other.
\<close>

lemma equal_duplicates_lost:
  assumes "vma p = vma q" "site_id p = site_id q" "site_target_value_size_byte p = site_target_value_size_byte q"
    and "iter {vma q} = [vma q]"
  shows "remove_duplicated_vmas iter [p, q] = Some []"
proof -
  have "duplicated_vmas [p, q] = {vma q}" using assms(1) by (auto simp: duplicated_vmas_def at_vma_def)
  then show ?thesis
    using assms by (simp add: remove_duplicated_vmas_def remove_duplicates_at_def at_vma_def smaller_duplicates_def remove_site_def)
qed

section \<open>Patch points do not overlap\<close>

text \<open>The last byte of the pattern occurs nowhere else in it.\<close>

lemma nop_last: "i < 32 \<Longrightarrow> NOP_PATTERN ! i = 0x90 \<longleftrightarrow> i = 31"
proof -
  have "list_all (\<lambda>i. NOP_PATTERN ! i = 0x90 \<longleftrightarrow> i = 31) [0..<32]" by code_simp
  then show "i < 32 \<Longrightarrow> ?thesis" by (simp add: list_all_iff)
qed

lemma nop_apart:
  assumes a: "get_bytes m a PATCH_POINT_SIZE = NOP_PATTERN" and b: "get_bytes m b PATCH_POINT_SIZE = NOP_PATTERN" and "a \<noteq> b"
  shows "disjoint a PATCH_POINT_SIZE b PATCH_POINT_SIZE"
proof (rule ccontr)
  assume "\<not> ?thesis"
  then obtain x where x: "unat (x - a) < 32" "unat (x - b) < 32" by (auto simp: disjoint_def in_region_def PATCH_POINT_SIZE_def)
  have byte: "m (c + of_nat i) = NOP_PATTERN ! i" if "get_bytes m c PATCH_POINT_SIZE = NOP_PATTERN" "i < 32" for c i
    using arg_cong [OF that(1), of "\<lambda>bs. bs ! i"] that(2) by (simp add: get_bytes_def PATCH_POINT_SIZE_def)
  have key: False
    if c: "get_bytes m c PATCH_POINT_SIZE = NOP_PATTERN" and d: "get_bytes m d PATCH_POINT_SIZE = NOP_PATTERN"
      and l: "unat (x - c) < 32" "unat (x - d) < 32" "unat (x - c) < unat (x - d)" for c d
  proof -
    let ?k = "unat (x - d) - unat (x - c)"
    have k: "of_nat ?k = c - d" using l(3) by (simp add: of_nat_diff algebra_simps)
    have i: "0 < ?k" "?k < 32" using l by auto
    have "m (c + of_nat (31 - ?k)) = NOP_PATTERN ! (31 - ?k)" by (rule byte [OF c]) arith
    moreover have "c + of_nat (31 - ?k) = d + of_nat 31"
    proof -
      have "(of_nat (31 - ?k) :: u64) = of_nat 31 - of_nat ?k" using i(2) by (intro of_nat_diff) simp
      then show ?thesis unfolding k by (simp add: algebra_simps)
    qed
    moreover have "m (d + of_nat 31) = NOP_PATTERN ! 31" by (rule byte [OF d]) simp
    ultimately have "NOP_PATTERN ! (31 - ?k) = NOP_PATTERN ! 31" by simp
    moreover have "31 - ?k < 32" "31 - ?k \<noteq> 31" using i by arith+
    ultimately show False using nop_last [of "31 - ?k"] nop_last [of 31] by simp
  qed
  show False
  proof (cases "unat (x - a)" "unat (x - b)" rule: linorder_cases)
    case less then show ?thesis using key [OF a b x] by blast
  next
    case equal
    then have "x - a = x - b" by (simp add: word_unat_eq_iff)
    then show ?thesis using assms(3) by simp
  next
    case greater then show ?thesis using key [OF b a x(2,1)] by blast
  qed
qed

lemma nop_sites_apart:
  assumes "distinct (map vma ps)" "\<forall>p\<in>set ps. get_bytes m (vma p) PATCH_POINT_SIZE = NOP_PATTERN"
  shows "apart (map vma ps)"
  using assms nop_apart [of m] by (auto simp: apart_def)

section \<open>The filters together\<close>

lemma limit_sites_take: "limit_sites n ps = Some qs \<Longrightarrow> qs = take (nat n) ps"
proof (induction ps arbitrary: n qs)
  case (Cons p ps)
  then obtain rest where "limit_sites (n - 1) ps = Some rest" "qs = (if n > 0 then p # rest else rest)"
    by (auto split: bind_splits if_splits)
  moreover from this have "rest = take (nat (n - 1)) ps" using Cons.IH by blast
  ultimately show ?case by (cases "n > 0") (auto simp: take_Cons' nat_diff_distrib)
qed simp

lemma limit_sites_total: "n \<ge> - (2 ^ 63) + int (length ps) \<Longrightarrow> \<exists>qs. limit_sites n ps = Some qs"
proof (induction ps arbitrary: n)
  case (Cons p ps)
  then have "n - 1 \<ge> - (2 ^ 63) + int (length ps)" "n > - (2 ^ 63)" by auto
  with Cons.IH [of "n - 1"] show ?case by auto
qed simp

text \<open>Documented behaviour of the parameters; \<open>m\<close> is the memory of the source.\<close>

definition pp_env_ok :: "memory \<Rightarrow> pp_env \<Rightarrow> bool" where
  "pp_env_ok m E \<longleftrightarrow> (\<forall>S. set (pe_iter E S) = S) \<and> (\<forall>ps. mset (pe_shuffle E ps) = mset ps) \<and>
     (\<forall>a n bs. pe_readv E a n = Some bs \<and> length bs = n \<longrightarrow> bs = get_bytes m a n)"

definition usable_site :: "memory \<Rightarrow> patch_point_cfg \<Rightarrow> mutation_site \<Rightarrow> bool" where
  "usable_site m cfg p \<longleftrightarrow> (\<forall>ids. allowed_patch_points cfg = Some ids \<longrightarrow> site_id p \<in> set ids) \<and>
     (\<forall>bl. blocked_instructions cfg = Some bl \<longrightarrow> llvm_ins p \<notin> set bl) \<and> site_target_value_size_byte p \<le> 8 \<and>
     unat (dwarf_regnum (spill_slot p)) \<noteq> dwarf_u16 Rsp \<and> get_bytes m (vma p) PATCH_POINT_SIZE = NOP_PATTERN"

lemma filter_opt_Some: "filter_opt f xs = Some ys \<Longrightarrow> ys = filter (\<lambda>x. f x = Some True) xs"
  by (induction xs arbitrary: ys) (auto split: bind_splits)

lemma check_alignment_sound:
  assumes "pp_env_ok m E" "check_alignment (pe_readv E) ps = Some qs"
  shows "\<exists>P. qs = filter P ps" "p \<in> set qs \<Longrightarrow> get_bytes m (vma p) PATCH_POINT_SIZE = NOP_PATTERN"
proof -
  let ?f = "\<lambda>p. map_option (\<lambda>c. c = NOP_PATTERN) (read_mem (pe_readv E) (vma p) (length NOP_PATTERN))"
  have l: "length NOP_PATTERN = PATCH_POINT_SIZE" by (simp add: NOP_PATTERN_def PATCH_POINT_SIZE_def)
  have "filter_opt ?f ps = Some qs" using assms(2) by (simp add: check_alignment_def split: if_splits)
  then have qs: "qs = filter (\<lambda>p. ?f p = Some True) ps" by (rule filter_opt_Some)
  then show "\<exists>P. qs = filter P ps" by blast
  show "get_bytes m (vma p) PATCH_POINT_SIZE = NOP_PATTERN" if "p \<in> set qs"
  proof -
    have "read_mem (pe_readv E) (vma p) PATCH_POINT_SIZE = Some NOP_PATTERN" using that l unfolding qs by auto
    then have "pe_readv E (vma p) PATCH_POINT_SIZE = Some NOP_PATTERN" by (auto simp: read_mem_def split: bind_splits if_splits)
    then show ?thesis using assms(1) l unfolding pp_env_ok_def by metis
  qed
qed

lemma filter_patch_points_sound:
  assumes E: "pp_env_ok m E" and r: "filter_patch_points E ps = Some qs"
  shows "apart (map vma qs) \<and> distinct (map site_id qs) \<and> set qs \<subseteq> set ps \<and> (\<forall>p\<in>set qs. usable_site m (pe_cfg E) p) \<and>
    (\<forall>n. max_patch_points (pe_cfg E) = Some n \<longrightarrow> length qs \<le> nat n)"
proof -
  let ?p1 = "sites_whitelisted (pe_cfg E) ps"
  obtain p2 where p2: "limit_max_number (pe_shuffle E) (pe_cfg E) ?p1 = Some p2"
    using r by (auto simp: filter_patch_points_def Let_def split: bind_splits)
  let ?p3 = "remove_blocklisted_instructions (pe_cfg E) p2"
  obtain p4 where p4: "remove_duplicated_vmas (pe_iter E) ?p3 = Some p4"
    using r p2 by (auto simp: filter_patch_points_def Let_def split: bind_splits)
  let ?p5 = "remove_rsp_spill_slots (remove_unsupported_loc_size p4)"
  have p6: "check_alignment (pe_readv E) ?p5 = Some qs" "sanity_check_patch_points qs \<noteq> None"
    using r p2 p4 by (auto simp: filter_patch_points_def Let_def split: bind_splits)
  have s1: "set ?p1 \<subseteq> {p \<in> set ps. \<forall>ids. allowed_patch_points (pe_cfg E) = Some ids \<longrightarrow> site_id p \<in> set ids}"
    by (auto simp: sites_whitelisted_def split: option.splits)
  have s2: "set p2 \<subseteq> set ?p1" "\<forall>n. max_patch_points (pe_cfg E) = Some n \<longrightarrow> length p2 \<le> nat n"
  proof -
    have "set (pe_shuffle E xs) = set xs" for xs using E by (metis pp_env_ok_def set_mset_mset)
    then show "set p2 \<subseteq> set ?p1" "\<forall>n. max_patch_points (pe_cfg E) = Some n \<longrightarrow> length p2 \<le> nat n"
      using p2 by (auto simp: limit_max_number_def dest!: limit_sites_take in_set_takeD split: option.splits)
  qed
  have s3: "set ?p3 \<subseteq> {p \<in> set p2. \<forall>bl. blocked_instructions (pe_cfg E) = Some bl \<longrightarrow> llvm_ins p \<notin> set bl}" "length ?p3 \<le> length p2"
    by (auto simp: remove_blocklisted_instructions_def split: option.splits)
  obtain P where s4: "distinct (map vma p4)" "p4 = filter P ?p3"
    using duplicates_removed [OF _ p4] E by (auto simp: pp_env_ok_def)
  obtain Q where s6: "qs = filter Q ?p5" "\<forall>p\<in>set qs. get_bytes m (vma p) PATCH_POINT_SIZE = NOP_PATTERN"
    using check_alignment_sound [OF E p6(1)] by blast
  then have s7: "qs = filter (\<lambda>p. Q p \<and> unat (dwarf_regnum (spill_slot p)) \<noteq> dwarf_u16 Rsp \<and> site_target_value_size_byte p \<le> 8) p4"
    by (simp add: remove_rsp_spill_slots_def remove_unsupported_loc_size_def conj_ac)
  then have "length qs \<le> length p4" "set qs \<subseteq> set p4" by auto
  moreover have "length p4 \<le> length ?p3" "set p4 \<subseteq> set ?p3" using s4(2) by auto
  moreover have "apart (map vma qs)" using nop_sites_apart [OF _ s6(2)] s4(1) s7 by (simp add: distinct_map_filter)
  moreover have "distinct (map site_id qs)"
    using p6(2) by (auto simp: sanity_check_patch_points_def intro: card_distinct split: if_splits)
  moreover have "\<forall>p\<in>set qs. unat (dwarf_regnum (spill_slot p)) \<noteq> dwarf_u16 Rsp \<and> site_target_value_size_byte p \<le> 8" using s7 by auto
  ultimately show ?thesis using s1 s2 s3 s6(2) unfolding usable_site_def by (fastforce intro: order_trans)
qed

lemma sort_ranges:
  assumes "distinct (map vma ps)" "\<forall>p\<in>set ps. unat (vma p) + 32 < 2 ^ 64"
  shows "sort_key fst (map vma_range ps) = sort_key snd (map vma_range ps)"
proof -
  let ?rs = "map vma_range ps"
  have le: "snd r \<le> snd s \<longleftrightarrow> fst r \<le> fst s" if rs: "r \<in> set ?rs" "s \<in> set ?rs" for r s
  proof -
    obtain p q where pq: "r = vma_range p" "s = vma_range q" "p \<in> set ps" "q \<in> set ps" using rs by auto
    have "unat (vma x + 32) = unat (vma x) + 32" if "x \<in> set ps" for x
      using assms(2) that by (simp add: unat_word_ariths)
    then show ?thesis using pq by (simp add: vma_range_def PATCH_POINT_SIZE_def word_le_nat_alt)
  qed
  have "inj_on snd (set ?rs)"
    using le by (intro inj_onI) (metis order_antisym order_refl prod_eqI)
  moreover have "sorted (map snd (sort_key fst ?rs))"
  proof -
    have "sorted_wrt (\<lambda>r s. fst r \<le> fst s) (sort_key fst ?rs)" using sorted_sort_key [of fst ?rs] unfolding sorted_map by simp
    then have "sorted_wrt (\<lambda>r s. snd r \<le> snd s) (sort_key fst ?rs)"
      by (rule sorted_wrt_mono_rel [rotated]) (use le in simp)
    then show ?thesis unfolding sorted_map by simp
  qed
  ultimately show ?thesis using sort_key_inj_key_eq [of ?rs "sort_key fst ?rs" snd] by simp
qed

lemma sub_distinct: "mset xs \<subseteq># mset ys \<Longrightarrow> distinct ys \<Longrightarrow> distinct xs"
proof -
  assume s: "mset xs \<subseteq># mset ys" and d: "distinct ys"
  obtain zs where "mset ys = mset (xs @ zs)"
    using s by (metis ex_mset mset_append mset_subset_eq_exists_conv)
  then show ?thesis using d by (metis distinct_append mset_eq_imp_distinct_iff)
qed

lemma filter_patch_points_total:
  assumes E: "pp_env_ok m E" and d: "distinct (map vma ps)" "distinct (map site_id ps)"
    and nowrap: "\<forall>p\<in>set ps. unat (vma p) + 32 < 2 ^ 64" and rd: "\<forall>p\<in>set ps. \<exists>bs. pe_readv E (vma p) 32 = Some bs \<and> length bs = 32"
    and lim: "\<forall>n. max_patch_points (pe_cfg E) = Some n \<longrightarrow> n \<ge> - (2 ^ 63) + int (length ps)"
  shows "\<exists>qs. filter_patch_points E ps = Some qs"
proof -
  let ?p1 = "sites_whitelisted (pe_cfg E) ps"
  have "\<exists>P. ?p1 = filter P ps"
    by (cases "allowed_patch_points (pe_cfg E)") (auto simp: sites_whitelisted_def intro: exI [of _ "\<lambda>_. True"])
  then obtain P where P: "?p1 = filter P ps" by blast
  have perm: "mset (pe_shuffle E xs) = mset xs" for xs using E by (simp add: pp_env_ok_def)
  obtain p2 where p2: "limit_max_number (pe_shuffle E) (pe_cfg E) ?p1 = Some p2" "mset p2 \<subseteq># mset ?p1"
  proof (cases "max_patch_points (pe_cfg E)")
    case (Some n)
    have "length (pe_shuffle E ?p1) \<le> length ps" using perm [of ?p1] P by (metis length_filter_le size_mset)
    then have "n \<ge> - (2 ^ 63) + int (length (pe_shuffle E ?p1))" using lim Some by force
    then obtain xs where xs: "limit_sites n (pe_shuffle E ?p1) = Some xs" using limit_sites_total by blast
    then have "mset xs \<subseteq># mset ?p1" using limit_sites_take [OF xs] perm [of ?p1] by (metis append_take_drop_id mset_append mset_subset_eq_add_left)
    then show ?thesis using that xs Some by (simp add: limit_max_number_def)
  qed (use that in \<open>simp add: limit_max_number_def\<close>)
  have "mset p2 \<subseteq># mset ps" using p2(2) P by (metis mset_filter multiset_filter_subset subset_mset.order_trans)
  then have sub: "mset (map f p2) \<subseteq># mset (map f ps)" for f :: "mutation_site \<Rightarrow> u64"
    using image_mset_subseteq_mono [of "mset p2" "mset ps" f] by simp
  have d2: "distinct (map vma p2)" "distinct (map site_id p2)"
    using d sub_distinct sub by blast+
  have m2: "set p2 \<subseteq> set ps" using p2(2) P set_mset_mono [OF p2(2)] by auto
  have "\<exists>Q. remove_blocklisted_instructions (pe_cfg E) p2 = filter Q p2"
    by (cases "blocked_instructions (pe_cfg E)") (auto simp: remove_blocklisted_instructions_def intro: exI [of _ "\<lambda>_. True"])
  then obtain Q where Q: "remove_blocklisted_instructions (pe_cfg E) p2 = filter Q p2" by blast
  let ?p5 = "remove_rsp_spill_slots (remove_unsupported_loc_size (filter Q p2))"
  have p4: "remove_duplicated_vmas (pe_iter E) (filter Q p2) = Some (filter Q p2)"
    by (rule no_duplicates) (use d2(1) E in \<open>auto simp: distinct_map_filter pp_env_ok_def dest: spec [of _ "{}"]\<close>)
  have "filter_opt (\<lambda>p. map_option (\<lambda>c. c = NOP_PATTERN) (read_mem (pe_readv E) (vma p) (length NOP_PATTERN))) ?p5 =
      Some (filter (\<lambda>p. the (pe_readv E (vma p) 32) = NOP_PATTERN) ?p5)"
  proof (rule filter_opt_total)
    fix p assume "p \<in> set ?p5"
    then have "p \<in> set ps" using m2 by (auto simp: remove_rsp_spill_slots_def remove_unsupported_loc_size_def)
    moreover have "length NOP_PATTERN = 32" by (simp add: NOP_PATTERN_def)
    ultimately show "map_option (\<lambda>c. c = NOP_PATTERN) (read_mem (pe_readv E) (vma p) (length NOP_PATTERN)) = Some (the (pe_readv E (vma p) 32) = NOP_PATTERN)"
      using rd by (auto simp: read_mem_def)
  qed
  then obtain qs where qs: "check_alignment (pe_readv E) ?p5 = Some qs" by (simp add: check_alignment_def PATCH_POINT_SIZE_def)
  obtain R where R: "qs = filter R p2"
    using check_alignment_sound(1) [OF E qs] by (auto simp: remove_rsp_spill_slots_def remove_unsupported_loc_size_def)
  have d3: "distinct (map vma qs)" "distinct (map site_id qs)" using d2 R by (simp_all add: distinct_map_filter)
  have "sanity_check_patch_points qs \<noteq> None"
  proof -
    have "card (set (map vma qs)) = length qs" "card (set (map site_id qs)) = length qs"
      using distinct_card [OF d3(1)] distinct_card [OF d3(2)] by simp_all
    moreover have "sort_key fst (map vma_range qs) = sort_key snd (map vma_range qs)"
      by (rule sort_ranges [OF d3(1)]) (use nowrap m2 R in auto)
    ultimately show ?thesis unfolding sanity_check_patch_points_def Let_def by (simp del: set_map)
  qed
  then show ?thesis using p2(1) Q p4 qs by (auto simp: filter_patch_points_def Let_def)
qed

section \<open>Properties\<close>

text \<open>
  C19: The patch points of a source satisfy what the agent needs: their addresses do not overlap (the
  pattern of no-operations that is required at each of them cannot overlap itself), their ids are
  different, the value has at most 8 bytes, is not addressed by the stack pointer, and the site is
  allowed by the configuration; they are cached. Unless two sites have the same address they are always
  returned, so that the final assertions hold.
\<close>

theorem get_patchpoints_correct:
  assumes E: "pp_env_ok m E" and c: "cache path = None"
  shows "(\<forall>ps cache' ids'. get_patchpoints E path mappings (cache, ids) = Some (ps, cache', ids') \<longrightarrow>
      apart (map vma ps) \<and> distinct (map site_id ps) \<and> length ps < MAX_PATCHPOINT_CNT \<and>
      (\<forall>p\<in>set ps. usable_site m (pe_cfg E) p) \<and> (\<forall>n. max_patch_points (pe_cfg E) = Some n \<longrightarrow> length ps \<le> nat n) \<and>
      cache' = cache(path \<mapsto> ps) \<and> (\<forall>E' ms ids. get_patchpoints E' path ms (cache', ids) = Some (ps, cache', ids))) \<and>
    (\<forall>ms ps ids'. mappings = Some ms \<and> (\<forall>r\<in>set ms. is_exec r \<noteq> None) \<and>
      parse_file_backed_mappings (pe_files E) (filter (\<lambda>r. is_exec r = Some True \<and> mr_pathname r \<noteq> None) ms) ids = Some (ps, ids') \<and>
      distinct (map vma ps) \<and> distinct (map site_id ps) \<and> length ps < MAX_PATCHPOINT_CNT \<and>
      (\<forall>p\<in>set ps. unat (vma p) + 32 < 2 ^ 64 \<and> (\<exists>bs. pe_readv E (vma p) 32 = Some bs \<and> length bs = 32)) \<and>
      (\<forall>n. max_patch_points (pe_cfg E) = Some n \<longrightarrow> n \<ge> - (2 ^ 63) + int (length ps)) \<longrightarrow>
      (\<exists>qs cache' ids'. get_patchpoints E path mappings (cache, ids) = Some (qs, cache', ids') \<and> set qs \<subseteq> set ps))"
proof (intro conjI allI impI; (elim conjE)?)
  fix ps cache' ids'
  assume g: "get_patchpoints E path mappings (cache, ids) = Some (ps, cache', ids')"
  then obtain ps0 where f: "filter_patch_points E ps0 = Some ps" and l: "length ps < MAX_PATCHPOINT_CNT" and c': "cache' = cache(path \<mapsto> ps)"
    using c by (auto simp: get_patchpoints_def read_from_cache_def split: bind_splits if_splits)
  then show "apart (map vma ps)" "distinct (map site_id ps)" "length ps < MAX_PATCHPOINT_CNT" "\<forall>p\<in>set ps. usable_site m (pe_cfg E) p"
    "cache' = cache(path \<mapsto> ps)" "\<And>n. max_patch_points (pe_cfg E) = Some n \<Longrightarrow> length ps \<le> nat n"
    "\<And>E' ms ids. get_patchpoints E' path ms (cache', ids) = Some (ps, cache', ids)"
    using filter_patch_points_sound [OF E f] by (auto simp: get_patchpoints_def read_from_cache_def)
next
  fix ms ps ids'
  assume ms: "mappings = Some ms" "\<forall>r\<in>set ms. is_exec r \<noteq> None" and d: "distinct (map vma ps)" "distinct (map site_id ps)"
    and pa: "parse_file_backed_mappings (pe_files E) (filter (\<lambda>r. is_exec r = Some True \<and> mr_pathname r \<noteq> None) ms) ids = Some (ps, ids')"
    and l: "length ps < MAX_PATCHPOINT_CNT"
    and rd: "\<forall>p\<in>set ps. unat (vma p) + 32 < 2 ^ 64 \<and> (\<exists>bs. pe_readv E (vma p) 32 = Some bs \<and> length bs = 32)"
    and lim: "\<forall>n. max_patch_points (pe_cfg E) = Some n \<longrightarrow> n \<ge> - (2 ^ 63) + int (length ps)"
  obtain qs where qs: "filter_patch_points E ps = Some qs" using filter_patch_points_total [OF E d _ _ lim] rd by blast
  have sub: "set qs \<subseteq> set ps" "distinct (map site_id qs)" using filter_patch_points_sound [OF E qs] by blast+
  have "length qs = card (set qs)" using sub(2) by (metis distinct_card distinct_map)
  also have "\<dots> \<le> card (set ps)" using sub(1) by (simp add: card_mono)
  also have "\<dots> \<le> length ps" by (rule card_length)
  finally have "length qs < MAX_PATCHPOINT_CNT" using l by simp
  moreover have "filter_opt (\<lambda>m. map_option (\<lambda>b. b \<and> mr_pathname m \<noteq> None) (is_exec m)) ms =
      Some (filter (\<lambda>r. is_exec r = Some True \<and> mr_pathname r \<noteq> None) ms)"
    by (rule filter_opt_total) (use ms(2) in auto)
  ultimately show "\<exists>qs cache' ids'. get_patchpoints E path mappings (cache, ids) = Some (qs, cache', ids') \<and> set qs \<subseteq> set ps"
    using c ms(1) pa qs sub(1) by (simp add: get_patchpoints_def read_from_cache_def)
qed

definition sample_source_mem :: memory where
  "sample_source_mem a = (if a - 0x555555555104 < 32 then NOP_PATTERN ! unat (a - 0x555555555104)
     else if a - 0x555555555204 < 32 then NOP_PATTERN ! unat (a - 0x555555555204) else 0)"

definition sample_pp_env :: pp_env where
  "sample_pp_env = \<lparr>pe_files = \<lparr>tf_exists = (\<lambda>_. True), tf_has_stackmap = (\<lambda>_. True), tf_elf_type = (\<lambda>_. Some ET_DYN),
       tf_stackmaps = (\<lambda>_. Some [sample_stackmap]), tf_to_llvm = (\<lambda>i. if i = 53 then Some LI_ICmp else None)\<rparr>,
     pe_cfg = \<lparr>allowed_patch_points = None, max_patch_points = Some 5, blocked_instructions = None\<rparr>,
     pe_shuffle = rev, pe_iter = sorted_list_of_set, pe_readv = (\<lambda>a n. Some (get_bytes sample_source_mem a n))\<rparr>"

definition sample_exec_mapping :: map_range where
  "sample_exec_mapping = sample_mapping\<lparr>mr_flags := map of_char ''r-xp'', mr_pathname := Some (map of_char ''/bin/t'')\<rparr>"

lemma sample_pp_env_ok: "pp_env_ok sample_source_mem sample_pp_env"
  by (simp add: pp_env_ok_def sample_pp_env_def)

theorem get_patchpoints_correct_witness:
  "\<exists>ps cache' ids'. get_patchpoints sample_pp_env [] (Some [sample_exec_mapping]) (Map.empty, id_init) = Some (ps, cache', ids') \<and>
     map vma ps = [0x555555555204, 0x555555555104] \<and> apart (map vma ps)"
proof -
  let ?ms = "[sample_exec_mapping]"
  have "parse_file_backed_mappings (pe_files sample_pp_env) ?ms id_init \<bind> (\<lambda>(ps, i). map_option (map vma) (filter_patch_points sample_pp_env ps)) =
      Some [0x555555555204, 0x555555555104]" by code_simp
  then obtain ps0 ids' ps where f: "parse_file_backed_mappings (pe_files sample_pp_env) ?ms id_init = Some (ps0, ids')"
      "filter_patch_points sample_pp_env ps0 = Some ps" "map vma ps = [0x555555555204, 0x555555555104]"
    by (auto split: bind_splits)
  have "filter_opt (\<lambda>m. map_option (\<lambda>b. b \<and> mr_pathname m \<noteq> None) (is_exec m)) ?ms = Some ?ms" by code_simp
  moreover have "length ps < MAX_PATCHPOINT_CNT"
    using arg_cong [OF f(3), of length] by (simp add: MAX_PATCHPOINT_CNT_def)
  ultimately have g: "get_patchpoints sample_pp_env [] (Some ?ms) (Map.empty, id_init) = Some (ps, [[] \<mapsto> ps], ids')"
    using f by (simp add: get_patchpoints_def read_from_cache_def)
  then have "apart (map vma ps)"
    using get_patchpoints_correct [OF sample_pp_env_ok, of Map.empty "[]" "Some ?ms" id_init] by simp
  then show ?thesis using g f(3) by (intro exI conjI)
qed

end
