(* ===== verification/Spec2Isabelle.thy ===== *)
theory Spec2Isabelle
  imports Integer_Set Sink_Bitmap Mutators Mutation_Cache_Ops Aux_Stream Agent
    Event_Counter Queue Virgin_Maps Cerebrum Scheduling Patch_Points
begin

text \<open>
  Verification of the Rust components of fuzztruction-net: the mutation caches shared between the
  fuzzer and its agents, the mutators, the coverage bitmap, the messages and the execution traces.
\<close>

end
